(* ===== verification/Prelude.thy ===== *)
theory Prelude
  imports Main "HOL-Library.Word" "HOL-Library.Monad_Syntax" "HOL-Library.Sublist" "HOL-Library.Multiset"
begin

text \<open>
  Shared vocabulary of the development.

  The program is modelled for LP64 Linux: a pointer, a \<open>gsize\<close> and an \<open>unsigned long\<close> are
  64 bit words, a \<open>guint\<close> is a 32 bit word; \<open>NULL\<close> is the zero word where the code uses a
  pointer as a number (a key, an address in the traced program) and \<open>None\<close> where it points
  to an object of the model.

  A function that follows pointers has a result of type \<open>option\<close>: \<open>None\<close> stands for a run
  that aborts (a failed \<open>g_assert\<close>), dereferences an invalid pointer or does not return.
  Every theorem that such a function is correct therefore says that the result is \<open>Some\<close>.
\<close>

type_synonym ptr = "64 word"
type_synonym u32 = "32 word"
type_synonym pid = "32 word"

named_theorems frame_rules "parts of a state an operation leaves alone"

subsection \<open>Linked lists in a heap\<close>

text \<open>
  \<open>chain f h l xs\<close>: starting at the pointer \<open>l\<close> and following the field \<open>f\<close> in the heap
  \<open>h\<close>, the program visits exactly the objects \<open>xs\<close> and then reads \<open>NULL\<close>.
\<close>

fun chain :: "('n \<Rightarrow> 'r option) \<Rightarrow> ('r \<rightharpoonup> 'n) \<Rightarrow> 'r option \<Rightarrow> 'r list \<Rightarrow> bool" where
  "chain f h l [] \<longleftrightarrow> l = None"
| "chain f h l (x # xs) \<longleftrightarrow> l = Some x \<and> (\<exists>n. h x = Some n \<and> chain f h (f n) xs)"

lemma chain_None [simp]: "chain f h None xs \<longleftrightarrow> xs = []"
  by (cases xs) auto

lemma chain_Some:
  "chain f h (Some x) xs \<longleftrightarrow> (\<exists>n ys. xs = x # ys \<and> h x = Some n \<and> chain f h (f n) ys)"
  by (cases xs) auto

lemma chain_dom: "chain f h l xs \<Longrightarrow> set xs \<subseteq> dom h"
  by (induction xs arbitrary: l) auto

lemma chain_unique: "chain f h l xs \<Longrightarrow> chain f h l ys \<Longrightarrow> xs = ys"
proof (induction xs arbitrary: l ys)
  case Nil
  then show ?case by simp
next
  case (Cons x xs)
  then obtain n zs where "ys = x # zs" "h x = Some n" "chain f h (f n) zs"
    by (auto simp: chain_Some)
  with Cons show ?case by auto
qed

text \<open>A list that ends in \<open>NULL\<close> never visits an object twice.\<close>

lemma chain_suffix: "chain f h l (xs @ ys) \<Longrightarrow> \<exists>l'. chain f h l' ys"
  by (induction xs arbitrary: l) auto

lemma chain_not_in_tail:
  assumes "chain f h (Some x) (x # xs)"
  shows "x \<notin> set xs"
proof
  assume "x \<in> set xs"
  then obtain ys zs where xs: "xs = ys @ x # zs" by (meson split_list)
  with assms have "chain f h (Some x) ((x # ys) @ x # zs)" by simp
  then obtain l where "chain f h l (x # zs)" by (blast dest: chain_suffix)
  then have "chain f h (Some x) (x # zs)" by simp
  with assms have "x # xs = x # zs" by (rule chain_unique)
  then have "length xs = length zs" by simp
  with xs show False by simp
qed

lemma chain_distinct: "chain f h l xs \<Longrightarrow> distinct xs"
proof (induction xs arbitrary: l)
  case Nil
  then show ?case by simp
next
  case (Cons x xs)
  then have "x \<notin> set xs" by (intro chain_not_in_tail [of f h]) simp
  with Cons show ?case by auto
qed

text \<open>A chain only depends on its own field in its own objects.\<close>

lemma chain_frame:
  assumes "\<And>x. x \<in> set xs \<Longrightarrow> map_option f (h' x) = map_option f (h x)"
  shows "chain f h' l xs \<longleftrightarrow> chain f h l xs"
  using assms
proof (induction xs arbitrary: l)
  case Nil
  then show ?case by simp
next
  case (Cons x xs)
  have "map_option f (h' x) = map_option f (h x)"
    by (rule Cons.prems) simp
  then have hd: "(\<exists>n. h' x = Some n \<and> P (f n)) \<longleftrightarrow> (\<exists>n. h x = Some n \<and> P (f n))" for P
    by (cases "h x"; cases "h' x") auto
  have IH: "chain f h' l' xs \<longleftrightarrow> chain f h l' xs" for l'
    by (rule Cons.IH) (simp add: Cons.prems)
  show ?case
    using hd [of "\<lambda>l'. chain f h l' xs"] by (simp add: IH)
qed

lemma chain_upd_other:
  "x \<notin> set xs \<Longrightarrow> chain f (h(x := v)) l xs \<longleftrightarrow> chain f h l xs"
  by (rule chain_frame) auto

text \<open>Pushing a fresh object in front of a chain.\<close>

lemma chain_push:
  assumes "chain f h l xs" and "x \<notin> set xs" and "f n = l"
  shows "chain f (h(x \<mapsto> n)) (Some x) (x # xs)"
  using assms by (simp add: chain_upd_other)

subsection \<open>Traversal orders\<close>

text \<open>
  \<open>g_hash_table_foreach\<close> visits every key of a table once, in an order GLib does not
  specify. A definition that walks a table takes the order as an argument; what is proved
  about it holds for every order.
\<close>

definition enumerates :: "('m \<Rightarrow> 'k list) \<Rightarrow> ('m \<Rightarrow> 'k set) \<Rightarrow> 'm \<Rightarrow> bool" where
  "enumerates enum keys m \<longleftrightarrow> distinct (enum m) \<and> set (enum m) = keys m"

lemma enumerates_distinct: "enumerates e d m \<Longrightarrow> distinct (e m)"
  and enumerates_set: "enumerates e d m \<Longrightarrow> set (e m) = d m"
  by (simp_all add: enumerates_def)

subsection \<open>Arrays\<close>

text \<open>A read of an array; a read past its end is \<open>None\<close>.\<close>

definition at :: "'a list \<Rightarrow> nat \<Rightarrow> 'a option" where
  "at xs i = (if i < length xs then Some (xs ! i) else None)"

lemma at_Some: "at xs i = Some x \<longleftrightarrow> i < length xs \<and> x = xs ! i"
  by (auto simp: at_def)

lemma at_in: "i < length xs \<Longrightarrow> at xs i = Some (xs ! i)"
  by (simp add: at_def)

subsection \<open>Options and maps\<close>

lemma bind_eq_Some: "Option.bind m f = Some y \<longleftrightarrow> (\<exists>x. m = Some x \<and> f x = Some y)"
  by (cases m) auto

lemma map_option_upd:
  "map_option f (n') = map_option f (h x) \<Longrightarrow>
   map_option f ((h(x := n')) y) = map_option f (h y)"
  by auto

lemma ran_upd_fresh: "m k = None \<Longrightarrow> ran (m(k \<mapsto> v)) = insert v (ran m)"
  by simp

lemma inj_on_map_upd:
  "inj_on m (dom m) \<Longrightarrow> v \<notin> ran m \<Longrightarrow> inj_on (m(k \<mapsto> v)) (dom (m(k \<mapsto> v)))"
  by (force simp: inj_on_def ran_def dom_def)

subsection \<open>Indices of a binary search\<close>

text \<open>The searches of the program compute \<open>(first + last) / 2\<close> and \<open>last - 1\<close> in 32 bits.\<close>

lemma unat_mid:
  assumes "unat (x :: u32) + unat y < 2 ^ 32"
  shows "unat ((x + y) div 2) = (unat x + unat y) div 2"
proof -
  have "unat (x + y) = unat x + unat y" using assms by (simp add: unat_word_ariths)
  then show ?thesis by (simp add: unat_div)
qed

lemma unat_pred:
  assumes "(x :: u32) \<noteq> 0"
  shows "unat (x - 1) = unat x - 1"
proof -
  have "1 \<le> x" using assms by (simp add: word_le_nat_alt unat_gt_0 Suc_le_eq)
  then show ?thesis by (simp add: unat_sub_if' word_le_nat_alt)
qed

lemma unat_of_nat_small: "n < 2 ^ 32 \<Longrightarrow> unat (of_nat n :: u32) = n"
  by (simp add: unat_of_nat)

end
