(* ===== verification/Stackstash.thy ===== *)
theory Stackstash
  imports Prelude
begin

text \<open>
  The stack stash (src/stackstash.c, src/stackstash.h): a trie of call stacks, shared by all
  blocks a process allocates. A node is a cell of a heap, and the fields \<open>parent\<close>,
  \<open>siblings\<close>, \<open>children\<close> and \<open>next\<close> are pointers into it, as in the code; the nodes
  come from blocks of \<open>N_NODES\<close> cells that the stash carves into a free list. The theory
  holds the operations; \<open>Stackstash_Inv\<close> what they guarantee.
\<close>

section \<open>The data\<close>

text \<open>A node's address: the block it was carved from, and its index there.\<close>

datatype nref = Cell (cell_block: nat) (cell_index: nat)

record stack_node =
  sn_address :: ptr
  sn_total :: "32 word"
  sn_size :: "31 word"
  sn_toplevel :: bool
  sn_parent :: "nref option"
  sn_siblings :: "nref option"
  sn_children :: "nref option"
  sn_next :: "nref option"

text \<open>
  The memory behind the stashes: the live cells, the number of blocks \<open>g_malloc\<close> has
  handed out, and the contents it leaves in a new block, about which nothing is known.
\<close>

record node_heap =
  nodes :: "nref \<rightharpoonup> stack_node"
  n_blocks :: nat
  junk :: "nref \<Rightarrow> stack_node"

record stack_stash =
  ss_ref_count :: "32 word"
  ss_root :: "nref option"
  ss_nodes_by_data :: "ptr \<rightharpoonup> nref"
  ss_destroy :: bool
  ss_cached_nodes :: "nref option"
  ss_blocks :: "nat list"

text \<open>A store into one field of a node; a store through a wild pointer is \<open>None\<close>.\<close>

definition node_upd :: "nref \<Rightarrow> (stack_node \<Rightarrow> stack_node) \<Rightarrow> node_heap \<Rightarrow> node_heap option" where
  "node_upd r f h = (case nodes h r of None \<Rightarrow> None
     | Some n \<Rightarrow> Some (h\<lparr>nodes := (nodes h)(r \<mapsto> f n)\<rparr>))"

section \<open>Allocation\<close>

text \<open>
  \<open>BLOCK_SIZE / sizeof (StackNode)\<close>: a pointer, two 32 bit words of counters and four
  pointers are 48 bytes.
\<close>

definition N_NODES :: nat where
  "N_NODES = 32768 div 48"

text \<open>The loop that threads the cells of a new block onto the free list.\<close>

fun link_cells :: "nat \<Rightarrow> nat list \<Rightarrow> node_heap \<times> nref option \<Rightarrow> node_heap \<times> nref option" where
  "link_cells b [] hc = hc"
| "link_cells b (i # is) (h, cached) =
     link_cells b is (h\<lparr>nodes := (nodes h)(Cell b i \<mapsto> (junk h (Cell b i))\<lparr>sn_next := cached\<rparr>)\<rparr>,
       Some (Cell b i))"

definition new_block :: "node_heap \<Rightarrow> stack_stash \<Rightarrow> node_heap \<times> stack_stash" where
  "new_block h s =
     (let b = n_blocks h;
          (h', cached) = link_cells b [0..<N_NODES] (h\<lparr>n_blocks := Suc b\<rparr>, ss_cached_nodes s)
      in (h', s\<lparr>ss_cached_nodes := cached, ss_blocks := ss_blocks s @ [b]\<rparr>))"

definition clear_node :: "stack_node \<Rightarrow> stack_node" where
  "clear_node n = n\<lparr>sn_siblings := None, sn_children := None, sn_address := 0,
     sn_parent := None, sn_size := 0, sn_next := None, sn_total := 0\<rparr>"

definition stack_node_new :: "node_heap \<Rightarrow> stack_stash \<Rightarrow> (node_heap \<times> stack_stash \<times> nref) option" where
  "stack_node_new h s =
     (let (h, s) = (if ss_cached_nodes s = None then new_block h s else (h, s)) in
      case ss_cached_nodes s of None \<Rightarrow> None
      | Some r \<Rightarrow>
          (case nodes h r of None \<Rightarrow> None
           | Some n \<Rightarrow>
               Some (h\<lparr>nodes := (nodes h)(r \<mapsto> clear_node n)\<rparr>,
                     s\<lparr>ss_cached_nodes := sn_next n\<rparr>, r)))"

definition create_stack_stash :: "bool \<Rightarrow> stack_stash" where
  "create_stack_stash destroy =
     \<lparr>ss_ref_count = 1, ss_root = None, ss_nodes_by_data = Map.empty, ss_destroy = destroy,
      ss_cached_nodes = None, ss_blocks = []\<rparr>"

definition stack_stash_new :: "bool \<Rightarrow> stack_stash" where
  "stack_stash_new destroy = create_stack_stash destroy"

section \<open>Adding a trace\<close>

text \<open>The walk to the root that decides whether a node is the first for its address.\<close>

partial_function (option) toplevel_walk ::
    "(nref \<rightharpoonup> stack_node) \<Rightarrow> nref option \<Rightarrow> ptr \<Rightarrow> bool option" where
  "toplevel_walk m n a = (case n of None \<Rightarrow> Some True
     | Some r \<Rightarrow> (case m r of None \<Rightarrow> None
        | Some nd \<Rightarrow> if sn_address nd = a then Some False else toplevel_walk m (sn_parent nd) a))"

definition decorate_node ::
    "node_heap \<Rightarrow> stack_stash \<Rightarrow> nref \<Rightarrow> (node_heap \<times> stack_stash) option" where
  "decorate_node h s r = do {
     nd \<leftarrow> nodes h r;
     top \<leftarrow> toplevel_walk (nodes h) (sn_parent nd) (sn_address nd);
     h \<leftarrow> node_upd r (\<lambda>n. n\<lparr>sn_toplevel := top\<rparr>) h;
     h \<leftarrow> node_upd r (\<lambda>n. n\<lparr>sn_next := ss_nodes_by_data s (sn_address nd)\<rparr>) h;
     Some (h, s\<lparr>ss_nodes_by_data := (ss_nodes_by_data s)(sn_address nd \<mapsto> r)\<rparr>)
   }"

text \<open>\<open>StackNode **location\<close>: the cell that holds the head of a list of siblings.\<close>

datatype location = Root_Cell | Children_Cell nref

definition load :: "node_heap \<Rightarrow> stack_stash \<Rightarrow> location \<Rightarrow> nref option option" where
  "load h s loc = (case loc of Root_Cell \<Rightarrow> Some (ss_root s)
     | Children_Cell r \<Rightarrow> map_option sn_children (nodes h r))"

definition store ::
    "node_heap \<Rightarrow> stack_stash \<Rightarrow> location \<Rightarrow> nref \<Rightarrow> (node_heap \<times> stack_stash) option" where
  "store h s loc r = (case loc of Root_Cell \<Rightarrow> Some (h, s\<lparr>ss_root := Some r\<rparr>)
     | Children_Cell q \<Rightarrow>
         map_option (\<lambda>h. (h, s)) (node_upd q (\<lambda>n. n\<lparr>sn_children := Some r\<rparr>) h))"

text \<open>The search of a list of siblings for an address.\<close>

partial_function (option) find_sibling ::
    "(nref \<rightharpoonup> stack_node) \<Rightarrow> nref option \<Rightarrow> ptr \<Rightarrow> nref option option" where
  "find_sibling m n a = (case n of None \<Rightarrow> Some None
     | Some r \<Rightarrow> (case m r of None \<Rightarrow> None
        | Some nd \<Rightarrow> if sn_address nd = a then Some (Some r)
                    else find_sibling m (sn_siblings nd) a))"

text \<open>The body of \<open>if (!match)\<close>: a new node at the head of the list.\<close>

definition insert_node ::
    "node_heap \<Rightarrow> stack_stash \<Rightarrow> location \<Rightarrow> nref option \<Rightarrow> ptr \<Rightarrow>
     (node_heap \<times> stack_stash \<times> nref) option" where
  "insert_node h s loc parent a = do {
     (h, s, r) \<leftarrow> stack_node_new h s;
     head \<leftarrow> load h s loc;
     h \<leftarrow> node_upd r (\<lambda>n. n\<lparr>sn_address := a, sn_siblings := head, sn_parent := parent\<rparr>) h;
     (h, s) \<leftarrow> store h s loc r;
     (h, s) \<leftarrow> decorate_node h s r;
     Some (h, s, r)
   }"

text \<open>The loop over the frames, outermost first.\<close>

fun add_frames ::
    "node_heap \<Rightarrow> stack_stash \<Rightarrow> location \<Rightarrow> nref option \<Rightarrow> ptr list \<Rightarrow> int \<Rightarrow>
     (node_heap \<times> stack_stash \<times> nref option) option" where
  "add_frames h s loc parent [] sz = Some (h, s, parent)"
| "add_frames h s loc parent (a # as) sz = do {
     head \<leftarrow> load h s loc;
     match \<leftarrow> find_sibling (nodes h) head a;
     (h, s, r) \<leftarrow> (case match of Some r \<Rightarrow> Some (h, s, r)
                    | None \<Rightarrow> insert_node h s loc parent a);
     h \<leftarrow> node_upd r (\<lambda>n. n\<lparr>sn_total := sn_total n + word_of_int sz\<rparr>) h;
     add_frames h s (Children_Cell r) (Some r) as sz
   }"

definition stack_stash_add_trace ::
    "node_heap \<Rightarrow> stack_stash \<Rightarrow> ptr list \<Rightarrow> int \<Rightarrow> (node_heap \<times> stack_stash \<times> nref option) option"
where
  "stack_stash_add_trace h s addrs sz =
     (if addrs = [] then Some (h, s, None)
      else do {
        (h, s, parent) \<leftarrow> add_frames h s Root_Cell None (rev addrs) sz;
        p \<leftarrow> parent;
        h \<leftarrow> node_upd p (\<lambda>n. n\<lparr>sn_size := sn_size n + word_of_int sz\<rparr>) h;
        Some (h, s, parent)
      })"

section \<open>Traversal, lookup and release\<close>

text \<open>
  \<open>do_callback\<close> and its callers hand the trace of every node with a non-zero size to a
  function; the model returns the calls it makes, in order.
\<close>

partial_function (option) do_callback ::
    "(nref \<rightharpoonup> stack_node) \<Rightarrow> nref option \<Rightarrow> ptr list \<Rightarrow> (ptr list \<times> 31 word) list option" where
  "do_callback m n trace = (case n of None \<Rightarrow> Some []
     | Some r \<Rightarrow> (case m r of None \<Rightarrow> None
        | Some nd \<Rightarrow>
            Option.bind (do_callback m (sn_children nd) (sn_address nd # trace)) (\<lambda>below.
            Option.bind (do_callback m (sn_siblings nd) trace) (\<lambda>rest.
            Some ((if sn_size nd \<noteq> 0 then [(sn_address nd # trace, sn_size nd)] else [])
                  @ below @ rest)))))"

definition stack_stash_foreach ::
    "node_heap \<Rightarrow> stack_stash \<Rightarrow> (ptr list \<times> 31 word) list option" where
  "stack_stash_foreach h s = do_callback (nodes h) (ss_root s) []"

definition stack_node_foreach_trace ::
    "node_heap \<Rightarrow> nref \<Rightarrow> (ptr list \<times> 31 word) list option" where
  "stack_node_foreach_trace h r = do {
     nd \<leftarrow> nodes h r;
     below \<leftarrow> do_callback (nodes h) (sn_children nd) [sn_address nd];
     Some ((if sn_size nd \<noteq> 0 then [([sn_address nd], sn_size nd)] else []) @ below)
   }"

definition stack_stash_find_node :: "stack_stash \<Rightarrow> ptr \<Rightarrow> nref option" where
  "stack_stash_find_node s a = ss_nodes_by_data s a"

definition stack_stash_foreach_by_address ::
    "((ptr \<rightharpoonup> nref) \<Rightarrow> ptr list) \<Rightarrow> stack_stash \<Rightarrow> nref list" where
  "stack_stash_foreach_by_address enum s =
     List.map_filter (ss_nodes_by_data s) (enum (ss_nodes_by_data s))"

definition stack_stash_get_root :: "stack_stash \<Rightarrow> nref option" where
  "stack_stash_get_root s = ss_root s"

text \<open>Freeing a stash gives its blocks, and with them all its nodes, back.\<close>

definition stack_stash_free ::
    "((ptr \<rightharpoonup> nref) \<Rightarrow> ptr list) \<Rightarrow> node_heap \<Rightarrow> stack_stash \<Rightarrow> node_heap \<times> ptr list" where
  "stack_stash_free enum h s =
     (h\<lparr>nodes := (\<lambda>r. if cell_block r \<in> set (ss_blocks s) then None else nodes h r)\<rparr>,
      if ss_destroy s then enum (ss_nodes_by_data s) else [])"

definition stack_stash_unref ::
    "((ptr \<rightharpoonup> nref) \<Rightarrow> ptr list) \<Rightarrow> node_heap \<Rightarrow> stack_stash \<Rightarrow>
     node_heap \<times> stack_stash option \<times> ptr list" where
  "stack_stash_unref enum h s =
     (let s = s\<lparr>ss_ref_count := ss_ref_count s - 1\<rparr> in
      if ss_ref_count s = 0
      then let (h, destroyed) = stack_stash_free enum h s in (h, None, destroyed)
      else (h, Some s, []))"

definition stack_stash_ref :: "stack_stash \<Rightarrow> stack_stash" where
  "stack_stash_ref s = s\<lparr>ss_ref_count := ss_ref_count s + 1\<rparr>"

partial_function (option) build_hash_table ::
    "node_heap \<Rightarrow> stack_stash \<Rightarrow> nref option \<Rightarrow> (node_heap \<times> stack_stash) option" where
  "build_hash_table h s n = (case n of None \<Rightarrow> Some (h, s)
     | Some r \<Rightarrow> (case nodes h r of None \<Rightarrow> None
        | Some nd \<Rightarrow>
            Option.bind (build_hash_table h s (sn_siblings nd)) (\<lambda>hs.
            Option.bind (build_hash_table (fst hs) (snd hs) (sn_children nd)) (\<lambda>hs.
            Option.bind (node_upd r
              (\<lambda>n. n\<lparr>sn_next := ss_nodes_by_data (snd hs) (sn_address nd)\<rparr>) (fst hs)) (\<lambda>h.
            Some (h, (snd hs)\<lparr>ss_nodes_by_data :=
              (ss_nodes_by_data (snd hs))(sn_address nd \<mapsto> r)\<rparr>))))))"

text \<open>
  \<open>g_return_if_fail\<close> reports a violated precondition and returns; the third argument of
  the result says whether the call was accepted.
\<close>

definition stack_stash_set_root ::
    "node_heap \<Rightarrow> stack_stash \<Rightarrow> nref option \<Rightarrow> (node_heap \<times> stack_stash \<times> bool) option" where
  "stack_stash_set_root h s root =
     (if ss_root s \<noteq> None then Some (h, s, False)
      else if ss_nodes_by_data s \<noteq> Map.empty then Some (h, s, False)
      else do {
        (h, s) \<leftarrow> build_hash_table h (s\<lparr>ss_root := root\<rparr>) root;
        Some (h, s, True)
      })"

end
