(* ===== verification/Trace_Tree.thy ===== *)
theory Trace_Tree
  imports Prelude
begin

text \<open>
  The contract of a recorder of call stacks. The program has two of them, the stack stash of
  src/stackstash.c and the call tree of src/profile.c; both promise their clients that a
  recorded stack adds its weight to the total of every non-empty prefix of the stack and to
  the self weight of the stack itself. The locale derives what a whole sequence of records
  leaves behind; the two components interpret it on their own operations. Call stacks are
  lists with the outermost frame first.
\<close>

fun record_all ::
    "('s \<Rightarrow> 'k list \<Rightarrow> 'z \<Rightarrow> 's option) \<Rightarrow> 's \<Rightarrow> ('k list \<times> 'z) list \<Rightarrow> 's option" where
  "record_all rec st [] = Some st"
| "record_all rec st ((t, z) # ts) = Option.bind (rec st t z) (\<lambda>st. record_all rec st ts)"

text \<open>The weight a list of records gives to the stacks that satisfy \<open>Q\<close>.\<close>

definition weight_of :: "('z \<Rightarrow> 'w::comm_monoid_add) \<Rightarrow> ('k list \<Rightarrow> bool) \<Rightarrow> ('k list \<times> 'z) list \<Rightarrow> 'w" where
  "weight_of wt Q ts = (\<Sum>(t, z) \<leftarrow> ts. if Q t then wt z else 0)"

lemma weight_of_Nil [simp]: "weight_of wt Q [] = 0"
  and weight_of_Cons [simp]:
    "weight_of wt Q ((t, z) # ts) = (if Q t then wt z else 0) + weight_of wt Q ts"
  by (simp_all add: weight_of_def)

lemma weight_of_append: "weight_of wt Q (ts @ us) = weight_of wt Q ts + weight_of wt Q us"
  by (simp add: weight_of_def)

locale trace_recorder =
  fixes ok :: "'s \<Rightarrow> bool"
    and valid :: "'k list \<Rightarrow> bool"
    and rec :: "'s \<Rightarrow> 'k list \<Rightarrow> 'z \<Rightarrow> 's option"
    and total :: "'s \<Rightarrow> 'k list \<Rightarrow> 'w::comm_monoid_add"
    and self :: "'s \<Rightarrow> 'k list \<Rightarrow> 'v::comm_monoid_add"
    and wt :: "'z \<Rightarrow> 'w"
    and ws :: "'z \<Rightarrow> 'v"
  assumes rec_step: "ok st \<Longrightarrow> valid t \<Longrightarrow> \<exists>st'. rec st t z = Some st' \<and> ok st' \<and>
      (\<forall>p. total st' p = total st p + (if p \<noteq> [] \<and> prefix p t then wt z else 0)) \<and>
      (\<forall>p. self st' p = self st p + (if p = t then ws z else 0))"
begin

lemma record_all_spec:
  "ok st \<Longrightarrow> list_all (valid \<circ> fst) ts \<Longrightarrow>
   \<exists>st'. record_all rec st ts = Some st' \<and> ok st' \<and>
     (\<forall>p. total st' p = total st p + weight_of wt (\<lambda>t. p \<noteq> [] \<and> prefix p t) ts) \<and>
     (\<forall>p. self st' p = self st p + weight_of ws (\<lambda>t. p = t) ts)"
proof (induction ts arbitrary: st)
  case Nil
  then show ?case by simp
next
  case (Cons tz ts)
  obtain t z where tz: "tz = (t, z)" by (cases tz)
  with Cons.prems have "valid t" by simp
  from rec_step [OF Cons.prems(1) this, of z] obtain st1 where
    st1: "rec st t z = Some st1" "ok st1"
      "\<And>p. total st1 p = total st p + (if p \<noteq> [] \<and> prefix p t then wt z else 0)"
      "\<And>p. self st1 p = self st p + (if p = t then ws z else 0)" by blast
  have "list_all (valid \<circ> fst) ts" using Cons.prems(2) by (simp add: comp_def)
  from Cons.IH [OF st1(2) this] obtain st' where
    "record_all rec st1 ts = Some st'" "ok st'"
      "\<And>p. total st' p = total st1 p + weight_of wt (\<lambda>t. p \<noteq> [] \<and> prefix p t) ts"
      "\<And>p. self st' p = self st1 p + weight_of ws (\<lambda>t. p = t) ts" by blast
  with st1 show ?case by (simp add: tz add.assoc)
qed

text \<open>The order of the records does not matter.\<close>

lemma record_all_perm:
  assumes "ok st" and "list_all (valid \<circ> fst) ts" and "mset us = mset ts"
    and "record_all rec st ts = Some a" and "record_all rec st us = Some b"
  shows "total a p = total b p" and "self a p = self b p"
proof -
  have perm: "weight_of w Q us = weight_of w Q ts" for w :: "'z \<Rightarrow> 'x::comm_monoid_add" and Q
    using assms(3) unfolding weight_of_def sum_mset_sum_list [symmetric] mset_map by simp
  have "set us = set ts" using assms(3) by (metis set_mset_mset)
  with assms(2) have "list_all (valid \<circ> fst) us" by (simp add: list_all_iff)
  from record_all_spec [OF assms(1,2)] record_all_spec [OF assms(1) this] assms(4,5)
  show "total a p = total b p" "self a p = self b p" by (simp_all add: perm)
qed

end

subsection \<open>Inclusive weight of a frame\<close>

text \<open>
  The prefixes of a stack that end with the first occurrence of \<open>a\<close>: there is one exactly
  when \<open>a\<close> is in the stack. Hence summing the totals of the nodes that are the first for
  \<open>a\<close> on their path counts every record once, however often \<open>a\<close> recurs in it.
\<close>

definition first_for :: "'k \<Rightarrow> 'k list \<Rightarrow> bool" where
  "first_for a p \<longleftrightarrow> (\<exists>q. p = q @ [a] \<and> a \<notin> set q)"

lemma first_for_prefix_eq:
  assumes "first_for a p" and "prefix p t"
  shows "p = takeWhile (\<lambda>x. x \<noteq> a) t @ [a]"
proof -
  from assms obtain q v where p: "p = q @ [a]" "a \<notin> set q" "t = q @ a # v"
    by (auto simp: first_for_def prefix_def)
  then have "takeWhile (\<lambda>x. x \<noteq> a) (q @ a # v) = q @ takeWhile (\<lambda>x. x \<noteq> a) (a # v)"
    by (intro takeWhile_append2) auto
  with p(3) have "takeWhile (\<lambda>x. x \<noteq> a) t = q" by simp
  with p show ?thesis by simp
qed

lemma first_for_mem: "first_for a p \<Longrightarrow> prefix p t \<Longrightarrow> a \<in> set t"
  by (auto simp: first_for_def prefix_def)

lemma first_for_exists:
  assumes "a \<in> set t"
  shows "\<exists>p. first_for a p \<and> prefix p t"
proof -
  from assms obtain q u where "t = q @ a # u" "a \<notin> set q" by (meson split_list_first)
  then show ?thesis by (intro exI [of _ "q @ [a]"]) (auto simp: first_for_def)
qed

lemma first_for_unique: "first_for a p \<Longrightarrow> first_for a q \<Longrightarrow> prefix p t \<Longrightarrow> prefix q t \<Longrightarrow> p = q"
  using first_for_prefix_eq [of a p t] first_for_prefix_eq [of a q t] by simp

text \<open>
  The totals of the paths that satisfy \<open>F\<close>, where a stack has at most one prefix that does, add
  up to the weight of the stacks that have one.
\<close>

lemma unique_prefix_weight:
  assumes fin: "finite P" and uniq: "\<forall>t p q. F p \<and> F q \<and> prefix p t \<and> prefix q t \<longrightarrow> p = q"
    and all: "\<forall>t z p. (t, z) \<in> set ts \<and> prefix p t \<and> F p \<longrightarrow> p \<noteq> [] \<and> p \<in> P"
  shows "(\<Sum>p \<in> {p \<in> P. F p}. weight_of wt (\<lambda>t. p \<noteq> [] \<and> prefix p t) ts) =
    weight_of wt (\<lambda>t. \<exists>p. F p \<and> prefix p t) ts"
  using all
proof (induction ts)
  case Nil
  then show ?case by simp
next
  case (Cons tz ts)
  obtain t z where tz: "tz = (t, z)" by (cases tz)
  have "(\<Sum>p \<in> {p \<in> P. F p}. if p \<noteq> [] \<and> prefix p t then wt z else 0) =
      (if \<exists>p. F p \<and> prefix p t then wt z else 0)"
  proof (cases "\<exists>p. F p \<and> prefix p t")
    case True
    then obtain p where p: "F p" "prefix p t" by blast
    with Cons.prems tz have ne: "p \<noteq> []" "p \<in> P" by auto
    have "(\<Sum>q \<in> {p \<in> P. F p}. if q \<noteq> [] \<and> prefix q t then wt z else 0) =
        (\<Sum>q \<in> {p \<in> P. F p}. if q = p then wt z else 0)"
      by (rule sum.cong) (use p ne uniq in auto)
    also have "\<dots> = wt z" using p ne fin by (simp add: sum.delta)
    finally show ?thesis using True by simp
  next
    case False
    then show ?thesis by (auto intro: sum.neutral)
  qed
  moreover have "(\<Sum>p \<in> {p \<in> P. F p}. weight_of wt (\<lambda>t. p \<noteq> [] \<and> prefix p t) ts) =
      weight_of wt (\<lambda>t. \<exists>p. F p \<and> prefix p t) ts"
    by (rule Cons.IH) (use Cons.prems in auto)
  ultimately show ?case by (simp add: tz sum.distrib)
qed

lemma inclusive_weight:
  assumes "finite P" and "\<And>t z p. (t, z) \<in> set ts \<Longrightarrow> prefix p t \<Longrightarrow> first_for a p \<Longrightarrow> p \<in> P"
  shows "(\<Sum>p \<in> {p \<in> P. first_for a p}. weight_of wt (\<lambda>t. p \<noteq> [] \<and> prefix p t) ts) =
    weight_of wt (\<lambda>t. a \<in> set t) ts"
proof -
  have "(\<exists>p. first_for a p \<and> prefix p t) \<longleftrightarrow> a \<in> set t" for t
    using first_for_exists first_for_mem by fast
  moreover have "(\<Sum>p \<in> {p \<in> P. first_for a p}. weight_of wt (\<lambda>t. p \<noteq> [] \<and> prefix p t) ts) =
      weight_of wt (\<lambda>t. \<exists>p. first_for a p \<and> prefix p t) ts"
  proof (rule unique_prefix_weight [OF assms(1)])
    show "\<forall>t p q. first_for a p \<and> first_for a q \<and> prefix p t \<and> prefix q t \<longrightarrow> p = q"
      by (intro allI impI, elim conjE, rule first_for_unique)
    show "\<forall>t z p. (t, z) \<in> set ts \<and> prefix p t \<and> first_for a p \<longrightarrow> p \<noteq> [] \<and> p \<in> P"
      using assms(2) by (auto simp: first_for_def)
  qed
  ultimately show ?thesis by simp
qed

end
