(* ===== verification/Stackstash_Inv.thy ===== *)
theory Stackstash_Inv
  imports Stackstash Trace_Tree
begin

text \<open>
  What the stack stash promises: an invariant that every operation keeps, the functional
  behaviour of \<open>stack_stash_add_trace\<close> (the node of a call stack accumulates the sizes of the
  traces recorded for it, every caller's node the sizes of all its extensions), the traversals,
  the release of the nodes, and the interpretation of the contract of \<open>Trace_Tree\<close>.
\<close>

section \<open>The invariant\<close>

text \<open>
  \<open>\<rho>\<close> maps a call stack, outermost frame first, to its node. The invariant says that the
  pointers in the heap are exactly what this map dictates.
\<close>

type_synonym node_map = "ptr list \<rightharpoonup> nref"

definition kids :: "node_map \<Rightarrow> ptr list \<Rightarrow> nref set" where
  "kids \<rho> p = {r. \<exists>a. \<rho> (p @ [a]) = Some r}"

definition first_kid :: "(nref \<rightharpoonup> stack_node) \<Rightarrow> nref option \<Rightarrow> node_map \<Rightarrow> ptr list \<Rightarrow> nref option" where
  "first_kid m root \<rho> p = (case \<rho> p of None \<Rightarrow> root | Some r \<Rightarrow> sn_children (the (m r)))"

definition stash_path :: "node_map \<Rightarrow> ptr list \<Rightarrow> bool" where
  "stash_path \<rho> p \<longleftrightarrow> p = [] \<or> p \<in> dom \<rho>"

definition trie_ok :: "(nref \<rightharpoonup> stack_node) \<Rightarrow> nref option \<Rightarrow> node_map \<Rightarrow> bool" where
  "trie_ok m root \<rho> \<longleftrightarrow>
     finite (dom \<rho>) \<and> \<rho> [] = None \<and> inj_on \<rho> (dom \<rho>) \<and>
     (\<forall>p a. p @ [a] \<in> dom \<rho> \<longrightarrow> stash_path \<rho> p) \<and>
     (\<forall>p a r. \<rho> (p @ [a]) = Some r \<longrightarrow>
        (\<exists>n. m r = Some n \<and> sn_address n = a \<and> sn_parent n = \<rho> p \<and>
             sn_toplevel n = (a \<notin> set p))) \<and>
     (\<forall>p. stash_path \<rho> p \<longrightarrow>
        (\<exists>xs. chain sn_siblings m (first_kid m root \<rho> p) xs \<and> set xs = kids \<rho> p))"

definition index_ok :: "(nref \<rightharpoonup> stack_node) \<Rightarrow> (ptr \<rightharpoonup> nref) \<Rightarrow> node_map \<Rightarrow> bool" where
  "index_ok m idx \<rho> \<longleftrightarrow>
     (\<forall>a. \<exists>xs. chain sn_next m (idx a) xs \<and> set xs = {r. \<exists>p. \<rho> (p @ [a]) = Some r})"

definition pool_ok :: "(nref \<rightharpoonup> stack_node) \<Rightarrow> nref option \<Rightarrow> nat list \<Rightarrow> nref set \<Rightarrow> bool" where
  "pool_ok m cached bs U \<longleftrightarrow>
     (\<exists>xs. chain sn_next m cached xs \<and> set xs \<inter> U = {} \<and> cell_block ` (set xs \<union> U) \<subseteq> set bs)"

definition heap_ok :: "node_heap \<Rightarrow> nat list \<Rightarrow> bool" where
  "heap_ok h bs \<longleftrightarrow> (\<forall>r \<in> dom (nodes h). cell_block r < n_blocks h) \<and> (\<forall>b \<in> set bs. b < n_blocks h)"

definition stash_inv :: "node_heap \<Rightarrow> stack_stash \<Rightarrow> node_map \<Rightarrow> bool" where
  "stash_inv h s \<rho> \<longleftrightarrow>
     trie_ok (nodes h) (ss_root s) \<rho> \<and> index_ok (nodes h) (ss_nodes_by_data s) \<rho> \<and>
     pool_ok (nodes h) (ss_cached_nodes s) (ss_blocks s) (ran \<rho>) \<and> heap_ok h (ss_blocks s)"

lemma stash_invD:
  assumes "stash_inv h s \<rho>"
  shows "trie_ok (nodes h) (ss_root s) \<rho>" "index_ok (nodes h) (ss_nodes_by_data s) \<rho>"
    "pool_ok (nodes h) (ss_cached_nodes s) (ss_blocks s) (ran \<rho>)" "heap_ok h (ss_blocks s)"
  using assms by (simp_all add: stash_inv_def)

lemma trie_okD:
  assumes "trie_ok m root \<rho>"
  shows "finite (dom \<rho>)" "\<rho> [] = None" "inj_on \<rho> (dom \<rho>)"
    "p @ [a] \<in> dom \<rho> \<Longrightarrow> stash_path \<rho> p"
    "\<rho> (p @ [a]) = Some r \<Longrightarrow> \<exists>n. m r = Some n \<and> sn_address n = a \<and> sn_parent n = \<rho> p \<and>
             sn_toplevel n = (a \<notin> set p)"
    "stash_path \<rho> p \<Longrightarrow> \<exists>xs. chain sn_siblings m (first_kid m root \<rho> p) xs \<and> set xs = kids \<rho> p"
  using assms unfolding trie_ok_def by blast+

lemma trie_ok_ran: "trie_ok m root \<rho> \<Longrightarrow> r \<in> ran \<rho> \<Longrightarrow> \<exists>p a. \<rho> (p @ [a]) = Some r"
proof -
  assume t: "trie_ok m root \<rho>" and "r \<in> ran \<rho>"
  then obtain q where q: "\<rho> q = Some r" by (auto simp: ran_def)
  with trie_okD(2) [OF t] have "q \<noteq> []" by auto
  with q show ?thesis by (metis append_butlast_last_id)
qed

lemma trie_ok_node: "trie_ok m root \<rho> \<Longrightarrow> r \<in> ran \<rho> \<Longrightarrow> \<exists>n. m r = Some n"
  using trie_ok_ran trie_okD(5) by blast

lemma trie_ok_inj: "trie_ok m root \<rho> \<Longrightarrow> \<rho> p = Some r \<Longrightarrow> \<rho> q = Some r \<Longrightarrow> p = q"
  using trie_okD(3) by (metis domI inj_onD)

lemma stash_path_Nil [simp]: "stash_path \<rho> []"
  by (simp add: stash_path_def)

section \<open>An empty stash\<close>

lemma stash_inv_new:
  "heap_ok h [] \<Longrightarrow> stash_inv h (stack_stash_new d) Map.empty"
  by (simp add: stash_inv_def trie_ok_def index_ok_def pool_ok_def heap_ok_def stack_stash_new_def
      create_stack_stash_def stash_path_def kids_def first_kid_def)

section \<open>The free list\<close>

lemma link_cells_spec:
  assumes "chain sn_next (nodes h) c xs" and "\<And>i. i \<in> set is \<Longrightarrow> Cell b i \<notin> set xs"
    and "distinct is" and "link_cells b is (h, c) = (h', c')"
  shows "n_blocks h' = n_blocks h" and "junk h' = junk h"
    and "chain sn_next (nodes h') c' (rev (map (Cell b) is) @ xs)"
    and "dom (nodes h') = dom (nodes h) \<union> Cell b ` set is"
    and "\<And>q. q \<notin> Cell b ` set is \<Longrightarrow> nodes h' q = nodes h q"
proof -
  have "n_blocks h' = n_blocks h \<and> junk h' = junk h \<and>
    chain sn_next (nodes h') c' (rev (map (Cell b) is) @ xs) \<and>
    dom (nodes h') = dom (nodes h) \<union> Cell b ` set is \<and>
    (\<forall>q. q \<notin> Cell b ` set is \<longrightarrow> nodes h' q = nodes h q)"
    using assms
  proof (induction "is" arbitrary: h c xs)
    case Nil
    then show ?case by simp
  next
    case (Cons i "is")
    let ?h = "h\<lparr>nodes := (nodes h)(Cell b i \<mapsto> (junk h (Cell b i))\<lparr>sn_next := c\<rparr>)\<rparr>"
    have ch: "chain sn_next (nodes ?h) (Some (Cell b i)) (Cell b i # xs)"
      using Cons.prems by (simp add: chain_upd_other)
    have "n_blocks h' = n_blocks ?h \<and> junk h' = junk ?h \<and>
      chain sn_next (nodes h') c' (rev (map (Cell b) is) @ (Cell b i # xs)) \<and>
      dom (nodes h') = dom (nodes ?h) \<union> Cell b ` set is \<and>
      (\<forall>q. q \<notin> Cell b ` set is \<longrightarrow> nodes h' q = nodes ?h q)"
      by (rule Cons.IH [OF ch]) (use Cons.prems in auto)
    then show ?case by auto
  qed
  then show "n_blocks h' = n_blocks h" "junk h' = junk h"
    "chain sn_next (nodes h') c' (rev (map (Cell b) is) @ xs)"
    "dom (nodes h') = dom (nodes h) \<union> Cell b ` set is"
    "\<And>q. q \<notin> Cell b ` set is \<Longrightarrow> nodes h' q = nodes h q" by auto
qed

lemma trie_ok_frame:
  assumes "trie_ok m root \<rho>" and "\<And>r. r \<in> ran \<rho> \<Longrightarrow>
     map_option (\<lambda>n. (sn_address n, sn_parent n, sn_toplevel n, sn_siblings n, sn_children n)) (m' r) =
     map_option (\<lambda>n. (sn_address n, sn_parent n, sn_toplevel n, sn_siblings n, sn_children n)) (m r)"
  shows "trie_ok m' root \<rho>"
proof -
  have fk: "first_kid m' root \<rho> p = first_kid m root \<rho> p" for p
  proof (cases "\<rho> p")
    case (Some r)
    then have "r \<in> ran \<rho>" by (auto simp: ran_def)
    from assms(2) [OF this] trie_ok_node [OF assms(1) this] Some show ?thesis
      by (auto simp: first_kid_def)
  qed (simp add: first_kid_def)
  have sib: "chain sn_siblings m' l xs = chain sn_siblings m l xs" if "set xs \<subseteq> ran \<rho>" for l xs
  proof (rule chain_frame)
    fix r assume "r \<in> set xs"
    with that have "r \<in> ran \<rho>" by blast
    from assms(2) [OF this] show "map_option sn_siblings (m' r) = map_option sn_siblings (m r)"
      by (cases "m r"; cases "m' r") auto
  qed
  have nd: "\<exists>n. m' r = Some n \<and> sn_address n = a \<and> sn_parent n = \<rho> p \<and> sn_toplevel n = (a \<notin> set p)"
    if "\<rho> (p @ [a]) = Some r" for p a r
  proof -
    from that have "r \<in> ran \<rho>" by (auto simp: ran_def)
    from assms(2) [OF this] trie_okD(5) [OF assms(1) that] show ?thesis by auto
  qed
  have kids: "kids \<rho> p \<subseteq> ran \<rho>" for p by (auto simp: kids_def ran_def)
  show ?thesis
    unfolding trie_ok_def fk
    using trie_okD [OF assms(1)] nd sib kids by metis
qed

lemma index_ok_frame:
  assumes "index_ok m idx \<rho>"
    and "\<And>r. r \<in> ran \<rho> \<Longrightarrow> map_option sn_next (m' r) = map_option sn_next (m r)"
  shows "index_ok m' idx \<rho>"
  unfolding index_ok_def
proof
  fix a
  from assms(1) obtain xs where xs: "chain sn_next m (idx a) xs" "set xs = {r. \<exists>p. \<rho> (p @ [a]) = Some r}"
    unfolding index_ok_def by blast
  then have "set xs \<subseteq> ran \<rho>" by (auto simp: ran_def)
  with assms(2) have "chain sn_next m' (idx a) xs"
    using xs(1) by (subst chain_frame [of xs sn_next m' m]) auto
  with xs(2) show "\<exists>xs. chain sn_next m' (idx a) xs \<and> set xs = {r. \<exists>p. \<rho> (p @ [a]) = Some r}" by blast
qed

lemma new_block_pool:
  assumes "pool_ok (nodes h) None (ss_blocks s) U" and "heap_ok h (ss_blocks s)"
    and "ss_cached_nodes s = None" and "new_block h s = (h', s')"
  shows "pool_ok (nodes h') (ss_cached_nodes s') (ss_blocks s') U"
    and "heap_ok h' (ss_blocks s')" and "ss_cached_nodes s' \<noteq> None"
    and "\<And>q. q \<in> dom (nodes h) \<Longrightarrow> nodes h' q = nodes h q"
    and "ss_root s' = ss_root s" and "ss_nodes_by_data s' = ss_nodes_by_data s"
    and "set (ss_blocks s) \<subseteq> set (ss_blocks s')"
proof -
  let ?b = "n_blocks h"
  obtain h1 c1 where l: "link_cells ?b [0..<N_NODES] (h\<lparr>n_blocks := Suc ?b\<rparr>, None) = (h1, c1)"
    by (metis surj_pair)
  from assms(3,4) l have h': "h' = h1" and s': "s' = s\<lparr>ss_cached_nodes := c1, ss_blocks := ss_blocks s @ [?b]\<rparr>"
    by (auto simp: new_block_def Let_def)
  have spec: "n_blocks h1 = Suc ?b" "chain sn_next (nodes h1) c1 (rev (map (Cell ?b) [0..<N_NODES]))"
    "dom (nodes h1) = dom (nodes h) \<union> Cell ?b ` {0..<N_NODES}"
    "\<And>q. q \<notin> Cell ?b ` {0..<N_NODES} \<Longrightarrow> nodes h1 q = nodes h q"
    using link_cells_spec [OF _ _ _ l, of "[]"] by auto
  have U: "cell_block ` U \<subseteq> set (ss_blocks s)" using assms(1) by (auto simp: pool_ok_def)
  have lt: "\<forall>b \<in> set (ss_blocks s). b < ?b" "\<forall>r \<in> dom (nodes h). cell_block r < ?b"
    using assms(2) by (auto simp: heap_ok_def)
  have "Cell ?b ` {0..<N_NODES} \<inter> U = {}" using U lt by fastforce
  then show "pool_ok (nodes h') (ss_cached_nodes s') (ss_blocks s') U"
    unfolding pool_ok_def h' s' using spec(2) U
    by (intro exI [of _ "rev (map (Cell ?b) [0..<N_NODES])"]) auto
  show "heap_ok h' (ss_blocks s')" unfolding h' s' heap_ok_def using spec(1,3) lt
    by (auto simp del: domI dom_def) (metis domI less_SucI)
  show "ss_cached_nodes s' \<noteq> None"
    unfolding s' using spec(2) by (cases c1) (auto simp: N_NODES_def)
  show "nodes h' q = nodes h q" if "q \<in> dom (nodes h)" for q
    unfolding h' using lt(2) that by (intro spec(4)) (metis imageE less_irrefl nref.sel(1))
  show "ss_root s' = ss_root s" "ss_nodes_by_data s' = ss_nodes_by_data s"
    "set (ss_blocks s) \<subseteq> set (ss_blocks s')" by (auto simp: s')
qed

lemma stack_node_new_spec:
  assumes inv: "stash_inv h s \<rho>"
  obtains h' s' r n where "stack_node_new h s = Some (h', s', r)"
    and "trie_ok (nodes h') (ss_root s') \<rho>" and "index_ok (nodes h') (ss_nodes_by_data s') \<rho>"
    and "pool_ok (nodes h') (ss_cached_nodes s') (ss_blocks s') (insert r (ran \<rho>))"
    and "heap_ok h' (ss_blocks s')" and "r \<notin> ran \<rho>"
    and "nodes h' r = Some n" and "sn_children n = None" and "sn_total n = 0" and "sn_size n = 0"
    and "\<And>q. q \<in> ran \<rho> \<Longrightarrow> nodes h' q = nodes h q"
    and "ss_root s' = ss_root s" and "ss_nodes_by_data s' = ss_nodes_by_data s"
proof -
  obtain h1 s1 where e: "(if ss_cached_nodes s = None then new_block h s else (h, s)) = (h1, s1)"
    by (metis surj_pair)
  have "(pool_ok (nodes h1) (ss_cached_nodes s1) (ss_blocks s1) (ran \<rho>) \<and> heap_ok h1 (ss_blocks s1) \<and>
      ss_cached_nodes s1 \<noteq> None \<and> ss_root s1 = ss_root s \<and> ss_nodes_by_data s1 = ss_nodes_by_data s) \<and>
      (\<forall>q. q \<in> dom (nodes h) \<longrightarrow> nodes h1 q = nodes h q)"
  proof (cases "ss_cached_nodes s = None")
    case True
    with e have nb: "new_block h s = (h1, s1)" by simp
    then show ?thesis
      using new_block_pool [OF _ stash_invD(4) [OF inv] True nb] stash_invD(3) [OF inv] True by simp
  next
    case False
    with e show ?thesis using stash_invD(3,4) [OF inv] by simp
  qed
  then have s1: "pool_ok (nodes h1) (ss_cached_nodes s1) (ss_blocks s1) (ran \<rho>)" "heap_ok h1 (ss_blocks s1)"
    "ss_cached_nodes s1 \<noteq> None" "ss_root s1 = ss_root s" "ss_nodes_by_data s1 = ss_nodes_by_data s"
    and keep: "\<And>q. q \<in> dom (nodes h) \<Longrightarrow> nodes h1 q = nodes h q"
    by blast+
  from s1(1,3) obtain r xs where ch: "chain sn_next (nodes h1) (ss_cached_nodes s1) (r # xs)"
    and dis: "set (r # xs) \<inter> ran \<rho> = {}" and sub: "cell_block ` (set (r # xs) \<union> ran \<rho>) \<subseteq> set (ss_blocks s1)"
    unfolding pool_ok_def by (metis chain.simps(1) neq_Nil_conv)
  from ch obtain nd where c: "ss_cached_nodes s1 = Some r" "nodes h1 r = Some nd"
    "chain sn_next (nodes h1) (sn_next nd) xs" by auto
  have rx: "r \<notin> set xs" using chain_distinct [OF ch] by simp
  define h' where "h' = h1\<lparr>nodes := (nodes h1)(r \<mapsto> clear_node nd)\<rparr>"
  define s' where "s' = s1\<lparr>ss_cached_nodes := sn_next nd\<rparr>"
  have r: "r \<notin> ran \<rho>" using dis by auto
  have new: "stack_node_new h s = Some (h', s', r)"
    unfolding stack_node_new_def e using c by (simp add: h'_def s'_def)
  have kp: "nodes h' q = nodes h q" if "q \<in> ran \<rho>" for q
    using keep [of q] trie_ok_node [OF stash_invD(1) [OF inv] that] r that by (auto simp: h'_def)
  show thesis
  proof (rule that [OF new])
    show "trie_ok (nodes h') (ss_root s') \<rho>"
      using trie_ok_frame [OF stash_invD(1) [OF inv], of "nodes h'"] kp s1(4) by (simp add: s'_def)
    show "index_ok (nodes h') (ss_nodes_by_data s') \<rho>"
      using index_ok_frame [OF stash_invD(2) [OF inv], of "nodes h'"] kp s1(5) by (simp add: s'_def)
    have "chain sn_next (nodes h') (sn_next nd) xs"
      unfolding h'_def using c(3) rx by (simp add: chain_upd_other)
    then show "pool_ok (nodes h') (ss_cached_nodes s') (ss_blocks s') (insert r (ran \<rho>))"
      unfolding pool_ok_def s'_def using rx dis sub by (intro exI [of _ xs]) auto
    show "heap_ok h' (ss_blocks s')"
      using s1(2) c(2) by (auto simp: heap_ok_def h'_def s'_def)
  qed (use r kp s1 in \<open>auto simp: h'_def s'_def clear_node_def\<close>)
qed

text \<open>The part of the invariant that the walk towards the root needs.\<close>

definition spine_ok :: "(nref \<rightharpoonup> stack_node) \<Rightarrow> node_map \<Rightarrow> bool" where
  "spine_ok m \<rho> \<longleftrightarrow> \<rho> [] = None \<and> (\<forall>p a r. \<rho> (p @ [a]) = Some r \<longrightarrow> stash_path \<rho> p \<and>
     (\<exists>n. m r = Some n \<and> sn_address n = a \<and> sn_parent n = \<rho> p))"

lemma trie_ok_spine: "trie_ok m root \<rho> \<Longrightarrow> spine_ok m \<rho>"
  unfolding spine_ok_def trie_ok_def by blast

lemma toplevel_walk_path:
  "spine_ok m \<rho> \<Longrightarrow> stash_path \<rho> p \<Longrightarrow> toplevel_walk m (\<rho> p) a = Some (a \<notin> set p)"
proof (induction p rule: rev_induct)
  case Nil
  then show ?case by (simp add: spine_ok_def toplevel_walk.simps)
next
  case (snoc b p)
  then obtain r where r: "\<rho> (p @ [b]) = Some r" by (auto simp: stash_path_def)
  with snoc.prems(1) obtain n where n: "m r = Some n" "sn_address n = b" "sn_parent n = \<rho> p"
    and "stash_path \<rho> p" unfolding spine_ok_def by blast
  with snoc have "toplevel_walk m (\<rho> p) a = Some (a \<notin> set p)" by blast
  then show ?case using r n by (subst toplevel_walk.simps) auto
qed

lemma find_sibling_chain:
  assumes "chain sn_siblings m l xs"
  shows "find_sibling m l a = Some (List.find (\<lambda>r. sn_address (the (m r)) = a) xs)"
  using assms
proof (induction xs arbitrary: l)
  case Nil
  then show ?case by (simp add: find_sibling.simps)
next
  case (Cons x xs)
  then show ?case by (subst find_sibling.simps) auto
qed

lemma find_sibling_trie:
  assumes t: "trie_ok m root \<rho>" and p: "stash_path \<rho> p"
  shows "find_sibling m (first_kid m root \<rho> p) a = Some (\<rho> (p @ [a]))"
proof -
  from trie_okD(6) [OF t p] obtain xs where
    ch: "chain sn_siblings m (first_kid m root \<rho> p) xs" and xs: "set xs = kids \<rho> p" by blast
  have addr: "sn_address (the (m r)) = a \<longleftrightarrow> \<rho> (p @ [a]) = Some r" if "r \<in> set xs" for r
  proof -
    from that xs obtain b where b: "\<rho> (p @ [b]) = Some r" by (auto simp: kids_def)
    from trie_okD(5) [OF t b] have "sn_address (the (m r)) = b" by auto
    with b show ?thesis using trie_ok_inj [OF t b, of "p @ [a]"] by auto
  qed
  have "List.find (\<lambda>r. sn_address (the (m r)) = a) xs = \<rho> (p @ [a])"
  proof (cases "List.find (\<lambda>r. sn_address (the (m r)) = a) xs")
    case None
    then have "\<rho> (p @ [a]) \<noteq> Some r" if "r \<in> set xs" for r
      using addr that by (auto simp: find_None_iff)
    with xs None show ?thesis by (cases "\<rho> (p @ [a])") (auto simp: kids_def)
  next
    case (Some r)
    then have "r \<in> set xs" "sn_address (the (m r)) = a" by (auto simp: find_Some_iff)
    with addr Some show ?thesis by simp
  qed
  with find_sibling_chain [OF ch] show ?thesis by simp
qed

definition loc_of :: "node_map \<Rightarrow> ptr list \<Rightarrow> location" where
  "loc_of \<rho> p = (case \<rho> p of None \<Rightarrow> Root_Cell | Some r \<Rightarrow> Children_Cell r)"

lemma load_first_kid:
  "trie_ok (nodes h) (ss_root s) \<rho> \<Longrightarrow> load h s (loc_of \<rho> p) = Some (first_kid (nodes h) (ss_root s) \<rho> p)"
proof (cases "\<rho> p")
  case (Some r)
  moreover assume "trie_ok (nodes h) (ss_root s) \<rho>"
  ultimately show ?thesis
    using trie_ok_node [of "nodes h" "ss_root s" \<rho> r] ranI [of \<rho> p r]
    by (auto simp: load_def loc_of_def first_kid_def)
qed (simp add: load_def loc_of_def first_kid_def)

lemma insert_node_eval:
  assumes new: "stack_node_new h s = Some (h1, s1, r)" and "nodes h1 r = Some n" and "r \<notin> ran \<rho>"
    and t: "trie_ok (nodes h1) (ss_root s1) \<rho>" and p: "stash_path \<rho> p"
    and nr: "nr = n\<lparr>sn_address := a, sn_siblings := first_kid (nodes h1) (ss_root s1) \<rho> p,
      sn_parent := \<rho> p, sn_toplevel := a \<notin> set p, sn_next := ss_nodes_by_data s1 a\<rparr>"
  shows "insert_node h s (loc_of \<rho> p) (\<rho> p) a = Some
    (h1\<lparr>nodes := (case \<rho> p of None \<Rightarrow> nodes h1
        | Some q \<Rightarrow> (nodes h1)(q \<mapsto> (the (nodes h1 q))\<lparr>sn_children := Some r\<rparr>))(r \<mapsto> nr)\<rparr>,
     s1\<lparr>ss_root := (case \<rho> p of None \<Rightarrow> Some r | Some q \<Rightarrow> ss_root s1),
        ss_nodes_by_data := (ss_nodes_by_data s1)(a \<mapsto> r)\<rparr>, r)"
proof (cases "\<rho> p")
  case None
  let ?m = "(nodes h1)(r \<mapsto> n\<lparr>sn_address := a, sn_siblings := first_kid (nodes h1) (ss_root s1) \<rho> p, sn_parent := \<rho> p\<rparr>)"
  have "spine_ok ?m \<rho>"
    using trie_ok_spine [OF t] assms(3) by (auto simp: spine_ok_def ran_def)
  from toplevel_walk_path [OF this p, of a] None
  show ?thesis
    using load_first_kid [OF t, of p] assms(2)
    by (simp add: insert_node_def new node_upd_def store_def loc_of_def decorate_node_def nr)
next
  case (Some q)
  then have q: "q \<in> ran \<rho>" "q \<noteq> r" using assms(3) by (auto simp: ran_def)
  from trie_ok_node [OF t q(1)] obtain nq where nq: "nodes h1 q = Some nq" by blast
  let ?m = "(nodes h1)(r \<mapsto> n\<lparr>sn_address := a, sn_siblings := first_kid (nodes h1) (ss_root s1) \<rho> p, sn_parent := \<rho> p\<rparr>,
    q \<mapsto> nq\<lparr>sn_children := Some r\<rparr>)"
  have "\<exists>n. ?m x = Some n \<and> sn_address n = b \<and> sn_parent n = \<rho> p'" if "\<rho> (p' @ [b]) = Some x" for p' b x
  proof -
    from that assms(3) have "x \<noteq> r" by (auto simp: ran_def)
    with trie_okD(5) [OF t that] nq show ?thesis by (cases "x = q") auto
  qed
  with trie_ok_spine [OF t] have "spine_ok ?m \<rho>" unfolding spine_ok_def by blast
  from toplevel_walk_path [OF this p, of a] Some
  show ?thesis
    using load_first_kid [OF t, of p] assms(2) q nq
    by (simp add: insert_node_def new node_upd_def store_def loc_of_def decorate_node_def nr fun_upd_twist)
qed

lemma trie_ok_insert:
  assumes t: "trie_ok m root \<rho>" and p: "stash_path \<rho> p" and new: "\<rho> (p @ [a]) = None"
    and r: "r \<notin> ran \<rho>" and nr: "sn_address nr = a" "sn_siblings nr = first_kid m root \<rho> p"
      "sn_parent nr = \<rho> p" "sn_toplevel nr = (a \<notin> set p)" "sn_children nr = None"
    and m': "m' = (case \<rho> p of None \<Rightarrow> m | Some q \<Rightarrow> m(q \<mapsto> (the (m q))\<lparr>sn_children := Some r\<rparr>))(r \<mapsto> nr)"
    and root': "root' = (case \<rho> p of None \<Rightarrow> Some r | Some q \<Rightarrow> root)"
  shows "trie_ok m' root' (\<rho>(p @ [a] \<mapsto> r))"
proof -
  let ?\<rho> = "\<rho>(p @ [a] \<mapsto> r)"
  note tD = trie_okD [OF t]
  have ext: "\<rho> ((p @ [a]) @ [b]) = None" for b
    using tD(4) [of "p @ [a]" b] new by (auto simp: stash_path_def)
  have fields: "map_option sn_address (m' q) = map_option sn_address (m q)"
      "map_option sn_parent (m' q) = map_option sn_parent (m q)"
      "map_option sn_toplevel (m' q) = map_option sn_toplevel (m q)"
      "map_option sn_siblings (m' q) = map_option sn_siblings (m q)"
      "\<rho> p \<noteq> Some q \<Longrightarrow> m' q = m q" if q: "q \<in> ran \<rho>" for q
    using that r trie_ok_node [OF t q] by (auto simp: m' split: option.split)
  have rp: "\<rho> p' = Some q \<Longrightarrow> q \<in> ran \<rho>" for p' q by (auto simp: ran_def)
  have sub: "kids \<rho> p' \<subseteq> ran \<rho>" for p' by (auto simp: kids_def ran_def)
  have nd: "\<exists>n. m' x = Some n \<and> sn_address n = b \<and> sn_parent n = ?\<rho> p' \<and> sn_toplevel n = (b \<notin> set p')"
    if "?\<rho> (p' @ [b]) = Some x" for p' b x
  proof (cases "p' = p \<and> b = a")
    case True
    with that have "x = r" by simp
    then show ?thesis using nr True by (simp add: m')
  next
    case False
    with that have x: "\<rho> (p' @ [b]) = Some x" by (auto split: if_splits)
    moreover have "p' \<noteq> p @ [a]" using ext [of b] x by auto
    ultimately show ?thesis
      using tD(5) [OF x] fields(1-3) [OF rp [OF x]] by (cases "m' x") auto
  qed
  have old_chain: "chain sn_siblings m' l xs" if "chain sn_siblings m l xs" "set xs \<subseteq> ran \<rho>" for l xs
    using that fields(4) by (subst chain_frame [of xs sn_siblings m' m]) auto
  have ch: "\<exists>xs. chain sn_siblings m' (first_kid m' root' ?\<rho> p') xs \<and> set xs = kids ?\<rho> p'"
    if p': "stash_path ?\<rho> p'" for p'
  proof -
    consider "p' = p @ [a]" | "p' = p" | "p' \<noteq> p @ [a]" "p' \<noteq> p" by blast
    then show ?thesis
    proof cases
      case 1
      have "kids ?\<rho> p' = {}" unfolding kids_def 1 using ext by auto
      moreover have "first_kid m' root' ?\<rho> p' = None"
        unfolding first_kid_def 1 by (simp add: m' nr)
      ultimately show ?thesis by (intro exI [of _ "[]"]) simp
    next
      case 2
      from tD(6) [OF p] obtain xs where xs: "chain sn_siblings m (first_kid m root \<rho> p) xs"
        "set xs = kids \<rho> p" by blast
      have "kids ?\<rho> p = insert r (kids \<rho> p)"
        using new by (auto simp: kids_def) (metis option.distinct(1))
      moreover have "first_kid m' root' ?\<rho> p = Some r"
        using r rp [of p] by (auto simp: first_kid_def m' root' split: option.split)
      moreover have "chain sn_siblings m' (Some r) (r # xs)"
        using old_chain [OF xs(1)] xs(2) sub nr(2) by (simp add: m')
      ultimately show ?thesis unfolding 2 using xs(2) by (intro exI [of _ "r # xs"]) simp
    next
      case 3
      then have sp: "stash_path \<rho> p'" using p' by (auto simp: stash_path_def)
      from tD(6) [OF sp] obtain xs where xs: "chain sn_siblings m (first_kid m root \<rho> p') xs"
        "set xs = kids \<rho> p'" by blast
      have "first_kid m' root' ?\<rho> p' = first_kid m root \<rho> p'"
      proof (cases "\<rho> p'")
        case None
        with sp have "p' = []" by (auto simp: stash_path_def)
        with 3 have "\<rho> p \<noteq> None" using p by (auto simp: stash_path_def)
        with None 3 show ?thesis by (auto simp: first_kid_def root')
      next
        case (Some q)
        have "\<rho> p \<noteq> Some q" using trie_ok_inj [OF t Some, of p] 3 by auto
        with fields(5) [OF rp [OF Some]] Some 3 show ?thesis by (simp add: first_kid_def)
      qed
      moreover have "kids ?\<rho> p' = kids \<rho> p'" using 3 by (auto simp: kids_def)
      ultimately show ?thesis using old_chain [OF xs(1)] xs(2) sub by auto
    qed
  qed
  have cl: "stash_path ?\<rho> p'" if "p' @ [b] \<in> dom ?\<rho>" for p' b
    using that p tD(4) [of p' b] by (auto simp: stash_path_def split: if_splits)
  have inj: "inj_on ?\<rho> (dom ?\<rho>)" using inj_on_map_upd [OF tD(3) r] .
  show ?thesis
    unfolding trie_ok_def using tD(1,2) inj cl nd ch by simp
qed

lemma insert_node_spec:
  assumes inv: "stash_inv h s \<rho>" and p: "stash_path \<rho> p" and new: "\<rho> (p @ [a]) = None"
  obtains h' s' r n where "insert_node h s (loc_of \<rho> p) (\<rho> p) a = Some (h', s', r)"
    and "stash_inv h' s' (\<rho>(p @ [a] \<mapsto> r))"
    and "nodes h' r = Some n" and "sn_total n = 0" and "sn_size n = 0" and "r \<notin> ran \<rho>"
    and "\<And>q. q \<in> ran \<rho> \<Longrightarrow> map_option sn_total (nodes h' q) = map_option sn_total (nodes h q)"
    and "\<And>q. q \<in> ran \<rho> \<Longrightarrow> map_option sn_size (nodes h' q) = map_option sn_size (nodes h q)"
proof -
  obtain h1 s1 r n where st: "stack_node_new h s = Some (h1, s1, r)"
    and t: "trie_ok (nodes h1) (ss_root s1) \<rho>" and ix: "index_ok (nodes h1) (ss_nodes_by_data s1) \<rho>"
    and po: "pool_ok (nodes h1) (ss_cached_nodes s1) (ss_blocks s1) (insert r (ran \<rho>))"
    and ho: "heap_ok h1 (ss_blocks s1)" and r: "r \<notin> ran \<rho>"
    and n: "nodes h1 r = Some n" "sn_children n = None" "sn_total n = 0" "sn_size n = 0"
    and keep: "\<And>q. q \<in> ran \<rho> \<Longrightarrow> nodes h1 q = nodes h q"
    by (rule stack_node_new_spec [OF inv]) blast
  define nr where "nr = n\<lparr>sn_address := a, sn_siblings := first_kid (nodes h1) (ss_root s1) \<rho> p,
      sn_parent := \<rho> p, sn_toplevel := a \<notin> set p, sn_next := ss_nodes_by_data s1 a\<rparr>"
  define m' where "m' = (case \<rho> p of None \<Rightarrow> nodes h1
      | Some q \<Rightarrow> (nodes h1)(q \<mapsto> (the (nodes h1 q))\<lparr>sn_children := Some r\<rparr>))(r \<mapsto> nr)"
  define h' where "h' = h1\<lparr>nodes := m'\<rparr>"
  define s' where "s' = s1\<lparr>ss_root := (case \<rho> p of None \<Rightarrow> Some r | Some q \<Rightarrow> ss_root s1),
        ss_nodes_by_data := (ss_nodes_by_data s1)(a \<mapsto> r)\<rparr>"
  have other: "map_option f (m' q) = map_option f (nodes h1 q)"
    if "q \<noteq> r" and "\<And>x v. f (x\<lparr>sn_children := v\<rparr>) = f x" for f :: "stack_node \<Rightarrow> 'x" and q
  proof (cases "\<rho> p = Some q")
    case True
    then have "q \<in> ran \<rho>" by (rule ranI)
    with trie_ok_node [OF t] obtain nq where "nodes h1 q = Some nq" by blast
    with True that show ?thesis by (simp add: m'_def)
  next
    case False
    with that(1) show ?thesis by (auto simp: m'_def split: option.split)
  qed
  have trie: "trie_ok m' (ss_root s') (\<rho>(p @ [a] \<mapsto> r))"
    by (rule trie_ok_insert [OF t p new r _ _ _ _ _ m'_def]) (simp_all add: nr_def n s'_def)
  have index: "index_ok m' (ss_nodes_by_data s') (\<rho>(p @ [a] \<mapsto> r))"
    unfolding index_ok_def
  proof
    fix b
    from ix obtain xs where xs: "chain sn_next (nodes h1) (ss_nodes_by_data s1 b) xs"
      "set xs = {r. \<exists>p. \<rho> (p @ [b]) = Some r}" unfolding index_ok_def by blast
    then have "r \<notin> set xs" using r by (auto simp: ran_def)
    then have "chain sn_next m' l xs = chain sn_next (nodes h1) l xs" for l
      by (intro chain_frame other) auto
    with xs(1) have ch: "chain sn_next m' (ss_nodes_by_data s1 b) xs" by simp
    show "\<exists>xs. chain sn_next m' (ss_nodes_by_data s' b) xs \<and>
        set xs = {x. \<exists>q. (\<rho>(p @ [a] \<mapsto> r)) (q @ [b]) = Some x}"
    proof (cases "b = a")
      case True
      have "chain sn_next m' (Some r) (r # xs)" using ch True by (simp add: m'_def nr_def)
      then show ?thesis using xs(2) True new by (intro exI [of _ "r # xs"])
        (auto simp: s'_def, metis option.distinct(1))
    next
      case False
      then show ?thesis using xs(2) ch by (intro exI [of _ xs]) (auto simp: s'_def)
    qed
  qed
  from po obtain xs where xs: "chain sn_next (nodes h1) (ss_cached_nodes s1) xs"
    "set xs \<inter> insert r (ran \<rho>) = {}" "cell_block ` (set xs \<union> insert r (ran \<rho>)) \<subseteq> set (ss_blocks s1)"
    unfolding pool_ok_def by blast
  have ran': "ran (\<rho>(p @ [a] \<mapsto> r)) = insert r (ran \<rho>)" using new by simp
  from xs(2) have "chain sn_next m' l xs = chain sn_next (nodes h1) l xs" for l
    by (intro chain_frame other) auto
  with xs(1) have "chain sn_next m' (ss_cached_nodes s1) xs" by simp
  then have pool: "pool_ok m' (ss_cached_nodes s') (ss_blocks s') (ran (\<rho>(p @ [a] \<mapsto> r)))"
    unfolding pool_ok_def ran' using xs by (intro exI [of _ xs]) (simp add: s'_def)
  have dm: "dom m' = dom (nodes h1)"
    using n(1) trie_ok_node [OF t] by (auto simp: m'_def ran_def split: option.splits if_splits)
  have "heap_ok h' (ss_blocks s')" using ho by (simp add: heap_ok_def h'_def s'_def dm)
  with trie index pool have inv': "stash_inv h' s' (\<rho>(p @ [a] \<mapsto> r))" by (simp add: stash_inv_def h'_def)
  show thesis
  proof (rule that [OF _ inv'])
    show "insert_node h s (loc_of \<rho> p) (\<rho> p) a = Some (h', s', r)"
      unfolding h'_def s'_def m'_def by (rule insert_node_eval [OF st n(1) r t p nr_def])
    show "nodes h' r = Some nr" by (simp add: h'_def m'_def)
    show "map_option sn_total (nodes h' q) = map_option sn_total (nodes h q)" if q: "q \<in> ran \<rho>" for q
      using other [of q sn_total] keep [OF q] r q by (auto simp: h'_def)
    show "map_option sn_size (nodes h' q) = map_option sn_size (nodes h q)" if q: "q \<in> ran \<rho>" for q
      using other [of q sn_size] keep [OF q] r q by (auto simp: h'_def)
  qed (use r n in \<open>auto simp: nr_def\<close>)
qed

section \<open>Adding a trace\<close>

lemma stash_inv_counters:
  assumes inv: "stash_inv h s \<rho>" and n: "nodes h r = Some n"
    and f: "sn_address n' = sn_address n" "sn_parent n' = sn_parent n" "sn_toplevel n' = sn_toplevel n"
      "sn_siblings n' = sn_siblings n" "sn_children n' = sn_children n" "sn_next n' = sn_next n"
  shows "stash_inv (h\<lparr>nodes := (nodes h)(r \<mapsto> n')\<rparr>) s \<rho>"
proof -
  let ?m = "(nodes h)(r \<mapsto> n')"
  note iD = stash_invD [OF inv]
  have "trie_ok ?m (ss_root s) \<rho>" using n f by (intro trie_ok_frame [OF iD(1)]) auto
  moreover have "index_ok ?m (ss_nodes_by_data s) \<rho>" using n f by (intro index_ok_frame [OF iD(2)]) auto
  moreover have "chain sn_next ?m l xs = chain sn_next (nodes h) l xs" for l xs
    using n f by (intro chain_frame) auto
  then have "pool_ok ?m (ss_cached_nodes s) (ss_blocks s) (ran \<rho>)" using iD(3) by (simp add: pool_ok_def)
  moreover have "dom ?m = dom (nodes h)" using n by auto
  then have "heap_ok (h\<lparr>nodes := ?m\<rparr>) (ss_blocks s)" using iD(4) by (simp add: heap_ok_def)
  ultimately show ?thesis by (simp add: stash_inv_def)
qed

text \<open>A counter of the node of a call stack; a call stack without a node counts zero.\<close>

definition counter :: "(stack_node \<Rightarrow> 'w::zero) \<Rightarrow> node_heap \<Rightarrow> node_map \<Rightarrow> ptr list \<Rightarrow> 'w" where
  "counter f h \<rho> p = (case \<rho> p of None \<Rightarrow> 0 | Some r \<Rightarrow> f (the (nodes h r)))"

lemma counter_eqI:
  assumes "\<And>q r. \<rho> q = Some r \<Longrightarrow> map_option f (nodes h' r) = map_option f (nodes h r)"
    and "trie_ok (nodes h) root \<rho>"
  shows "counter f h' \<rho> p = counter f h \<rho> p"
proof (cases "\<rho> p")
  case (Some r)
  with assms(1) [OF Some] trie_ok_node [OF assms(2), of r] ranI [of \<rho> p r]
  show ?thesis by (auto simp: counter_def)
qed (simp add: counter_def)

lemma counter_upd:
  assumes t: "trie_ok (nodes h) root \<rho>" and q: "\<rho> q = Some r" and n: "nodes h r = Some n"
  shows "counter f (h\<lparr>nodes := (nodes h)(r \<mapsto> n')\<rparr>) \<rho> p =
    (if p = q then f n' else counter f h \<rho> p)"
proof (cases "\<rho> p = Some r")
  case True
  with trie_ok_inj [OF t q, of p] have "p = q" by simp
  with q show ?thesis by (simp add: counter_def)
next
  case False
  with q have "p \<noteq> q" by auto
  with False show ?thesis by (auto simp: counter_def split: option.split)
qed

lemma add_frames_spec:
  assumes "stash_inv h s \<rho>" and "stash_path \<rho> p"
  shows "\<exists>h' s' \<rho>'. add_frames h s (loc_of \<rho> p) (\<rho> p) as sz = Some (h', s', \<rho>' (p @ as)) \<and>
    stash_inv h' s' \<rho>' \<and> \<rho> \<subseteq>\<^sub>m \<rho>' \<and> stash_path \<rho>' (p @ as) \<and>
    (\<forall>q. counter sn_total h' \<rho>' q = counter sn_total h \<rho> q +
       (if strict_prefix p q \<and> prefix q (p @ as) then word_of_int sz else 0)) \<and>
    (\<forall>q. counter sn_size h' \<rho>' q = counter sn_size h \<rho> q)"
  using assms
proof (induction as arbitrary: h s \<rho> p)
  case Nil
  have no: "strict_prefix p q \<Longrightarrow> \<not> prefix q p" for q
    by (auto simp: strict_prefix_def)
  show ?case
    by (intro exI [of _ h] exI [of _ s] exI [of _ \<rho>]) (auto simp: Nil dest: no)
next
  case (Cons a as)
  note inv = Cons.prems(1) and p = Cons.prems(2)
  have t: "trie_ok (nodes h) (ss_root s) \<rho>" by (rule stash_invD(1) [OF inv])
  have step: "\<exists>h1 s1 \<rho>1 r n. (case \<rho> (p @ [a]) of Some r \<Rightarrow> Some (h, s, r)
        | None \<Rightarrow> insert_node h s (loc_of \<rho> p) (\<rho> p) a) = Some (h1, s1, r) \<and>
      stash_inv h1 s1 \<rho>1 \<and> \<rho> \<subseteq>\<^sub>m \<rho>1 \<and> \<rho>1 (p @ [a]) = Some r \<and> nodes h1 r = Some n \<and>
      (\<forall>q. counter sn_total h1 \<rho>1 q = counter sn_total h \<rho> q) \<and>
      (\<forall>q. counter sn_size h1 \<rho>1 q = counter sn_size h \<rho> q)"
  proof (cases "\<rho> (p @ [a])")
    case None
    obtain h1 s1 r n where ins: "insert_node h s (loc_of \<rho> p) (\<rho> p) a = Some (h1, s1, r)"
      and inv1: "stash_inv h1 s1 (\<rho>(p @ [a] \<mapsto> r))" and n: "nodes h1 r = Some n" "sn_total n = 0" "sn_size n = 0"
      and tot: "\<And>q. q \<in> ran \<rho> \<Longrightarrow> map_option sn_total (nodes h1 q) = map_option sn_total (nodes h q)"
      and siz: "\<And>q. q \<in> ran \<rho> \<Longrightarrow> map_option sn_size (nodes h1 q) = map_option sn_size (nodes h q)"
      by (rule insert_node_spec [OF inv p None]) blast
    have c: "counter f h1 (\<rho>(p @ [a] \<mapsto> r)) q = counter f h \<rho> q"
      if "f n = 0" and keep: "\<And>q. q \<in> ran \<rho> \<Longrightarrow> map_option f (nodes h1 q) = map_option f (nodes h q)"
      for f :: "stack_node \<Rightarrow> 'w::zero" and q
    proof (cases "q = p @ [a]")
      case True
      with that(1) None n(1) show ?thesis by (simp add: counter_def)
    next
      case False
      then have "counter f h1 (\<rho>(p @ [a] \<mapsto> r)) q = counter f h1 \<rho> q" by (simp add: counter_def)
      also have "\<dots> = counter f h \<rho> q" by (rule counter_eqI [OF _ t]) (blast intro: keep ranI)
      finally show ?thesis .
    qed
    show ?thesis
      using None ins inv1 n(1) c [OF n(2) tot] c [OF n(3) siz]
      by (intro exI [of _ h1] exI [of _ s1] exI [of _ "\<rho>(p @ [a] \<mapsto> r)"] exI [of _ r] exI [of _ n])
        (auto simp: map_le_def)
  next
    case (Some r)
    then obtain n where "nodes h r = Some n" using trie_ok_node [OF t] by (metis ranI)
    with Some inv show ?thesis
      by (intro exI [of _ h] exI [of _ s] exI [of _ \<rho>] exI [of _ r] exI [of _ n]) simp
  qed
  then obtain h1 s1 \<rho>1 r n where e: "(case \<rho> (p @ [a]) of Some r \<Rightarrow> Some (h, s, r)
        | None \<Rightarrow> insert_node h s (loc_of \<rho> p) (\<rho> p) a) = Some (h1, s1, r)"
    and inv1: "stash_inv h1 s1 \<rho>1" and le1: "\<rho> \<subseteq>\<^sub>m \<rho>1" and r: "\<rho>1 (p @ [a]) = Some r" "nodes h1 r = Some n"
    and tot1: "\<And>q. counter sn_total h1 \<rho>1 q = counter sn_total h \<rho> q"
    and siz1: "\<And>q. counter sn_size h1 \<rho>1 q = counter sn_size h \<rho> q" by blast
  define h2 where "h2 = h1\<lparr>nodes := (nodes h1)(r \<mapsto> n\<lparr>sn_total := sn_total n + word_of_int sz\<rparr>)\<rparr>"
  have inv2: "stash_inv h2 s1 \<rho>1" unfolding h2_def by (rule stash_inv_counters [OF inv1 r(2)]) simp_all
  have t1: "trie_ok (nodes h1) (ss_root s1) \<rho>1" by (rule stash_invD(1) [OF inv1])
  have tot2: "counter sn_total h2 \<rho>1 q = counter sn_total h \<rho> q + (if q = p @ [a] then word_of_int sz else 0)" for q
    unfolding h2_def counter_upd [OF t1 r] tot1 [symmetric] using r by (simp add: counter_def)
  have siz2: "counter sn_size h2 \<rho>1 q = counter sn_size h \<rho> q" for q
    unfolding h2_def counter_upd [OF t1 r] siz1 [symmetric] using r by (simp add: counter_def)
  have p1: "stash_path \<rho>1 (p @ [a])" using r(1) by (auto simp: stash_path_def)
  from Cons.IH [OF inv2 p1] obtain h' s' \<rho>' where
    rec: "add_frames h2 s1 (loc_of \<rho>1 (p @ [a])) (\<rho>1 (p @ [a])) as sz = Some (h', s', \<rho>' ((p @ [a]) @ as))"
    and inv': "stash_inv h' s' \<rho>'" and le': "\<rho>1 \<subseteq>\<^sub>m \<rho>'" and p': "stash_path \<rho>' ((p @ [a]) @ as)"
    and tot': "\<And>q. counter sn_total h' \<rho>' q = counter sn_total h2 \<rho>1 q +
       (if strict_prefix (p @ [a]) q \<and> prefix q ((p @ [a]) @ as) then word_of_int sz else 0)"
    and siz': "\<And>q. counter sn_size h' \<rho>' q = counter sn_size h2 \<rho>1 q" by blast
  have loc1: "loc_of \<rho>1 (p @ [a]) = Children_Cell r" using r(1) by (simp add: loc_of_def)
  have run: "add_frames h s (loc_of \<rho> p) (\<rho> p) (a # as) sz = Some (h', s', \<rho>' (p @ a # as))"
    using rec e r load_first_kid [OF t, of p] find_sibling_trie [OF t p, of a]
    by (simp add: node_upd_def h2_def loc1)
  have pre: "strict_prefix p q \<and> prefix q (p @ a # as) \<longleftrightarrow>
      q = p @ [a] \<or> strict_prefix (p @ [a]) q \<and> prefix q ((p @ [a]) @ as)" for q
    by (auto simp: strict_prefix_def prefix_def) (metis append_eq_Cons_conv append_Nil append_self_conv append.assoc)+
  have ex: "\<not> (q = p @ [a] \<and> strict_prefix (p @ [a]) q)" for q by (auto simp: strict_prefix_def)
  have "counter sn_total h' \<rho>' q = counter sn_total h \<rho> q +
       (if strict_prefix p q \<and> prefix q (p @ a # as) then word_of_int sz else 0)" for q
    unfolding tot' tot2 pre using ex [of q] by auto
  moreover have "\<rho> \<subseteq>\<^sub>m \<rho>'" using le1 le' by (rule map_le_trans)
  ultimately show ?case using run inv' p' siz' siz2 by auto
qed

section \<open>What a stash holds\<close>

text \<open>
  The node of a call stack, found by the search the code itself uses; the views below are
  what the properties speak of, and they are computable.
\<close>

fun node_at :: "(nref \<rightharpoonup> stack_node) \<Rightarrow> nref option \<Rightarrow> nref option \<Rightarrow> ptr list \<Rightarrow> nref option" where
  "node_at m l found [] = found"
| "node_at m l found (a # as) = (case find_sibling m l a of
     Some (Some r) \<Rightarrow> node_at m (sn_children (the (m r))) (Some r) as | _ \<Rightarrow> None)"

definition trace_node :: "node_heap \<Rightarrow> stack_stash \<Rightarrow> ptr list \<Rightarrow> nref option" where
  "trace_node h s p = node_at (nodes h) (ss_root s) None p"

definition trace_total :: "node_heap \<Rightarrow> stack_stash \<Rightarrow> ptr list \<Rightarrow> 32 word" where
  "trace_total h s p = (case trace_node h s p of None \<Rightarrow> 0 | Some r \<Rightarrow> sn_total (the (nodes h r)))"

definition trace_size :: "node_heap \<Rightarrow> stack_stash \<Rightarrow> ptr list \<Rightarrow> 31 word" where
  "trace_size h s p = (case trace_node h s p of None \<Rightarrow> 0 | Some r \<Rightarrow> sn_size (the (nodes h r)))"

text \<open>The loop \<open>for (; stack != NULL; stack = stack->parent)\<close> of the stash's clients.\<close>

partial_function (option) frames_of :: "(nref \<rightharpoonup> stack_node) \<Rightarrow> nref option \<Rightarrow> ptr list option" where
  "frames_of m n = (case n of None \<Rightarrow> Some []
     | Some r \<Rightarrow> (case m r of None \<Rightarrow> None
        | Some nd \<Rightarrow> Option.bind (frames_of m (sn_parent nd)) (\<lambda>as. Some (sn_address nd # as))))"

definition wf_stash :: "node_heap \<Rightarrow> stack_stash \<Rightarrow> bool" where
  "wf_stash h s \<longleftrightarrow> (\<exists>\<rho>. stash_inv h s \<rho>)"

lemma stash_path_append: "trie_ok m root \<rho> \<Longrightarrow> stash_path \<rho> (p @ q) \<Longrightarrow> stash_path \<rho> p"
proof (induction q rule: rev_induct)
  case (snoc b q)
  then have "stash_path \<rho> (p @ q)"
    using trie_okD(4) [OF snoc.prems(1), of "p @ q" b] by (auto simp: stash_path_def)
  with snoc show ?case by blast
qed simp

lemma node_at_trie:
  assumes t: "trie_ok m root \<rho>"
  shows "stash_path \<rho> p \<Longrightarrow> node_at m (first_kid m root \<rho> p) (\<rho> p) as = \<rho> (p @ as)"
proof (induction as arbitrary: p)
  case Nil
  then show ?case by simp
next
  case (Cons a as)
  show ?case
  proof (cases "\<rho> (p @ [a])")
    case None
    have "\<not> stash_path \<rho> ((p @ [a]) @ as)"
      using stash_path_append [OF t, of "p @ [a]" as] None by (auto simp: stash_path_def)
    then have "\<rho> (p @ a # as) = None" by (auto simp: stash_path_def)
    with None find_sibling_trie [OF t Cons.prems, of a] show ?thesis by simp
  next
    case (Some r)
    then have "stash_path \<rho> (p @ [a])" by (auto simp: stash_path_def)
    from Cons.IH [OF this] Some find_sibling_trie [OF t Cons.prems, of a]
    show ?thesis by (simp add: first_kid_def)
  qed
qed

lemma trace_node_eq: "stash_inv h s \<rho> \<Longrightarrow> trace_node h s p = \<rho> p"
  using node_at_trie [OF stash_invD(1), of h s \<rho> "[]" p] trie_okD(2) [OF stash_invD(1), of h s \<rho>]
  by (simp add: trace_node_def first_kid_def)

lemma trace_total_eq: "stash_inv h s \<rho> \<Longrightarrow> trace_total h s p = counter sn_total h \<rho> p"
  and trace_size_eq: "stash_inv h s \<rho> \<Longrightarrow> trace_size h s p = counter sn_size h \<rho> p"
  by (simp_all add: trace_total_def trace_size_def counter_def trace_node_eq)

lemma frames_of_trie:
  "trie_ok m root \<rho> \<Longrightarrow> stash_path \<rho> p \<Longrightarrow> frames_of m (\<rho> p) = Some (rev p)"
proof (induction p rule: rev_induct)
  case Nil
  then show ?case by (simp add: trie_okD(2) frames_of.simps)
next
  case (snoc b p)
  then obtain r where r: "\<rho> (p @ [b]) = Some r" by (auto simp: stash_path_def)
  from trie_okD(5) [OF snoc.prems(1) r] obtain n where
    n: "m r = Some n" "sn_address n = b" "sn_parent n = \<rho> p" by blast
  have "stash_path \<rho> p" by (rule trie_okD(4) [OF snoc.prems(1)]) (use r in auto)
  with snoc have "frames_of m (\<rho> p) = Some (rev p)" by blast
  then show ?case using r n by (subst frames_of.simps) simp
qed

lemma stash_add_inv:
  assumes inv: "stash_inv h s \<rho>" and ne: "addrs \<noteq> []"
  shows "\<exists>h' s' \<rho>' r. stack_stash_add_trace h s addrs sz = Some (h', s', Some r) \<and>
    stash_inv h' s' \<rho>' \<and> \<rho> \<subseteq>\<^sub>m \<rho>' \<and> \<rho>' (rev addrs) = Some r \<and>
    (\<forall>p. trace_total h' s' p = trace_total h s p +
       (if p \<noteq> [] \<and> prefix p (rev addrs) then word_of_int sz else 0)) \<and>
    (\<forall>p. trace_size h' s' p = trace_size h s p + (if p = rev addrs then word_of_int sz else 0))"
proof -
  note t = stash_invD(1) [OF inv]
  have root: "loc_of \<rho> [] = Root_Cell" "\<rho> [] = None" by (simp_all add: loc_of_def trie_okD(2) [OF t])
  from add_frames_spec [OF inv stash_path_Nil, of "rev addrs" sz] obtain h1 s1 \<rho>1 where
    run: "add_frames h s Root_Cell None (rev addrs) sz = Some (h1, s1, \<rho>1 (rev addrs))"
    and inv1: "stash_inv h1 s1 \<rho>1" and le: "\<rho> \<subseteq>\<^sub>m \<rho>1" and p: "stash_path \<rho>1 (rev addrs)"
    and tot: "\<And>q. counter sn_total h1 \<rho>1 q = counter sn_total h \<rho> q +
       (if strict_prefix [] q \<and> prefix q (rev addrs) then word_of_int sz else 0)"
    and siz: "\<And>q. counter sn_size h1 \<rho>1 q = counter sn_size h \<rho> q"
    unfolding root by auto
  from p ne obtain r where r: "\<rho>1 (rev addrs) = Some r" by (auto simp: stash_path_def)
  note t1 = stash_invD(1) [OF inv1]
  from r obtain n where n: "nodes h1 r = Some n" using trie_ok_node [OF t1] by (metis ranI)
  define h2 where "h2 = h1\<lparr>nodes := (nodes h1)(r \<mapsto> n\<lparr>sn_size := sn_size n + word_of_int sz\<rparr>)\<rparr>"
  have inv2: "stash_inv h2 s1 \<rho>1" unfolding h2_def by (rule stash_inv_counters [OF inv1 n]) simp_all
  have "trace_total h2 s1 q = trace_total h s q +
      (if q \<noteq> [] \<and> prefix q (rev addrs) then word_of_int sz else 0)" for q
  proof -
    have "counter sn_total h2 \<rho>1 q = counter sn_total h1 \<rho>1 q"
      unfolding h2_def counter_upd [OF t1 r n] using r n by (simp add: counter_def)
    then show ?thesis
      unfolding trace_total_eq [OF inv2] trace_total_eq [OF inv] tot by (simp add: strict_prefix_def)
  qed
  moreover have "trace_size h2 s1 q = trace_size h s q + (if q = rev addrs then word_of_int sz else 0)" for q
    unfolding trace_size_eq [OF inv2] trace_size_eq [OF inv] siz [symmetric]
    unfolding h2_def counter_upd [OF t1 r n] using r n by (simp add: counter_def)
  moreover have "stack_stash_add_trace h s addrs sz = Some (h2, s1, Some r)"
    using ne run r n by (simp add: stack_stash_add_trace_def node_upd_def h2_def)
  ultimately show ?thesis using inv2 le r by blast
qed

section \<open>Traversal\<close>

text \<open>The calls a traversal owes to the nodes below \<open>p\<close> that start with a node of \<open>X\<close>.\<close>

definition calls_below :: "node_heap \<Rightarrow> node_map \<Rightarrow> ptr list \<Rightarrow> nref set \<Rightarrow> (ptr list \<times> 31 word) set" where
  "calls_below h \<rho> p X = {(rev q, counter sn_size h \<rho> q) | q b x.
     x \<in> X \<and> \<rho> (p @ [b]) = Some x \<and> prefix (p @ [b]) q \<and> q \<in> dom \<rho> \<and> counter sn_size h \<rho> q \<noteq> 0}"

lemma do_callback_spec:
  assumes t: "trie_ok (nodes h) root \<rho>"
  shows "stash_path \<rho> p \<Longrightarrow> chain sn_siblings (nodes h) l xs \<Longrightarrow> set xs \<subseteq> kids \<rho> p \<Longrightarrow>
    \<exists>out. do_callback (nodes h) l (rev p) = Some out \<and> distinct (map fst out) \<and>
      set out = calls_below h \<rho> p (set xs)"
proof (induction "card {q \<in> dom \<rho>. strict_prefix p q}" arbitrary: p l xs rule: less_induct)
  case less
  show ?case
    using less.prems(2,3)
  proof (induction xs arbitrary: l)
    case Nil
    then show ?case by (simp add: do_callback.simps calls_below_def)
  next
    case (Cons x xs)
    then obtain n where l: "l = Some x" and n: "nodes h x = Some n"
      and ch: "chain sn_siblings (nodes h) (sn_siblings n) xs" by auto
    have dx: "x \<notin> set xs" using chain_distinct [OF Cons.prems(1)] by simp
    from Cons.prems(2) obtain b where b: "\<rho> (p @ [b]) = Some x" by (auto simp: kids_def)
    have addr: "sn_address n = b" using trie_okD(5) [OF t b] n by auto
    have pb: "stash_path \<rho> (p @ [b])" using b by (auto simp: stash_path_def)
    have "{q \<in> dom \<rho>. strict_prefix (p @ [b]) q} \<subset> {q \<in> dom \<rho>. strict_prefix p q}"
    proof
      show "{q \<in> dom \<rho>. strict_prefix (p @ [b]) q} \<subseteq> {q \<in> dom \<rho>. strict_prefix p q}"
        by (auto simp: strict_prefix_def prefix_def)
      have "p @ [b] \<in> {q \<in> dom \<rho>. strict_prefix p q}" using b by (auto simp: strict_prefix_def)
      then show "{q \<in> dom \<rho>. strict_prefix (p @ [b]) q} \<noteq> {q \<in> dom \<rho>. strict_prefix p q}" by auto
    qed
    then have "card {q \<in> dom \<rho>. strict_prefix (p @ [b]) q} < card {q \<in> dom \<rho>. strict_prefix p q}"
      using trie_okD(1) [OF t] by (intro psubset_card_mono) auto
    note IH = less.hyps [OF this pb]
    from trie_okD(6) [OF t pb] obtain ys where
      ys: "chain sn_siblings (nodes h) (sn_children n) ys" "set ys = kids \<rho> (p @ [b])"
      using b n by (auto simp: first_kid_def)
    from IH [OF ys(1)] ys(2) obtain below where
      bl: "do_callback (nodes h) (sn_children n) (rev (p @ [b])) = Some below"
        "distinct (map fst below)" "set below = calls_below h \<rho> (p @ [b]) (set ys)" by blast
    from Cons.IH [OF ch] Cons.prems(2) obtain rest where
      rs: "do_callback (nodes h) (sn_siblings n) (rev p) = Some rest"
        "distinct (map fst rest)" "set rest = calls_below h \<rho> p (set xs)" by auto
    let ?own = "if sn_size n \<noteq> 0 then [(b # rev p, sn_size n)] else []"
    have run: "do_callback (nodes h) l (rev p) = Some (?own @ below @ rest)"
      using l n addr bl(1) rs(1) by (subst do_callback.simps) simp
    have size_n: "counter sn_size h \<rho> (p @ [b]) = sn_size n" using b n by (simp add: counter_def)
    have own: "calls_below h \<rho> p {x} = set ?own \<union> calls_below h \<rho> (p @ [b]) (kids \<rho> (p @ [b]))"
    proof -
      have only: "\<rho> (p @ [c]) = Some x \<longleftrightarrow> c = b" for c
        using trie_ok_inj [OF t b, of "p @ [c]"] b by auto
      have split: "prefix (p @ [b]) q \<and> q \<in> dom \<rho> \<longleftrightarrow>
          q = p @ [b] \<or> (\<exists>c y. \<rho> ((p @ [b]) @ [c]) = Some y \<and> prefix ((p @ [b]) @ [c]) q \<and> q \<in> dom \<rho>)" for q
      proof
        assume q: "prefix (p @ [b]) q \<and> q \<in> dom \<rho>"
        then obtain zs where zs: "q = (p @ [b]) @ zs" by (auto simp: prefix_def)
        show "q = p @ [b] \<or> (\<exists>c y. \<rho> ((p @ [b]) @ [c]) = Some y \<and> prefix ((p @ [b]) @ [c]) q \<and> q \<in> dom \<rho>)"
        proof (cases zs)
          case (Cons c cs)
          have "stash_path \<rho> ((p @ [b, c]) @ cs)" using q zs Cons by (auto simp: stash_path_def)
          from stash_path_append [OF t this] show ?thesis using q zs Cons by (auto simp: stash_path_def)
        qed (use zs in simp)
      next
        assume "q = p @ [b] \<or> (\<exists>c y. \<rho> ((p @ [b]) @ [c]) = Some y \<and> prefix ((p @ [b]) @ [c]) q \<and> q \<in> dom \<rho>)"
        then show "prefix (p @ [b]) q \<and> q \<in> dom \<rho>" using b by (auto simp: prefix_def)
      qed
      have "calls_below h \<rho> p {x} = {(rev q, counter sn_size h \<rho> q) | q.
          (prefix (p @ [b]) q \<and> q \<in> dom \<rho>) \<and> counter sn_size h \<rho> q \<noteq> 0}"
        unfolding calls_below_def using only by auto
      also have "\<dots> = set ?own \<union> calls_below h \<rho> (p @ [b]) (kids \<rho> (p @ [b]))"
        unfolding split calls_below_def kids_def using size_n
        by (auto, intro exI [of _ "p @ [b]"], simp)
      finally show ?thesis .
    qed
    have all: "calls_below h \<rho> p (set (x # xs)) = calls_below h \<rho> p {x} \<union> calls_below h \<rho> p (set xs)"
      unfolding calls_below_def by (simp only: list.set insert_iff) blast
    have d1: "fst ` calls_below h \<rho> p {x} \<inter> fst ` calls_below h \<rho> p (set xs) = {}"
    proof (rule equals0I)
      fix k assume "k \<in> fst ` calls_below h \<rho> p {x} \<inter> fst ` calls_below h \<rho> p (set xs)"
      then obtain q c d y where "\<rho> (p @ [c]) = Some x" "prefix (p @ [c]) q"
        "y \<in> set xs" "\<rho> (p @ [d]) = Some y" "prefix (p @ [d]) q"
        by (auto simp: calls_below_def)
      then have "p @ [c] = p @ [d]" by (auto simp: prefix_def)
      with \<open>\<rho> (p @ [c]) = Some x\<close> \<open>\<rho> (p @ [d]) = Some y\<close> \<open>y \<in> set xs\<close> dx show False by simp
    qed
    have d2: "rev (p @ [b]) \<notin> fst ` calls_below h \<rho> (p @ [b]) X" for X
      by (auto simp: calls_below_def prefix_def)
    have "fst ` set ?own \<union> fst ` set below = fst ` calls_below h \<rho> p {x}"
      unfolding own bl(3) ys(2) by (simp only: image_Un)
    with d1 rs(3) have "(fst ` set ?own \<union> fst ` set below) \<inter> fst ` set rest = {}" by simp
    moreover have "fst ` set ?own \<inter> fst ` set below = {}" using bl(3) d2 [of "set ys"] by auto
    moreover have "distinct (map fst ?own)" by simp
    ultimately have "distinct (map fst (?own @ below @ rest))"
      using bl(2) rs(2) unfolding map_append distinct_append set_append set_map by blast
    moreover have "set (?own @ below @ rest) = calls_below h \<rho> p (set (x # xs))"
      unfolding all own using bl(3) rs(3) ys(2) by (simp add: Un_assoc)
    ultimately show ?case using run by blast
  qed
qed

section \<open>The stash as a recorder of call stacks\<close>

definition stash_record ::
    "node_heap \<times> stack_stash \<Rightarrow> ptr list \<Rightarrow> int \<Rightarrow> (node_heap \<times> stack_stash) option" where
  "stash_record hs t sz =
     map_option (\<lambda>(h, s, r). (h, s)) (stack_stash_add_trace (fst hs) (snd hs) (rev t) sz)"

lemma stash_add:
  assumes "wf_stash h s" and "addrs \<noteq> []"
  shows "\<exists>h' s' r. stack_stash_add_trace h s addrs sz = Some (h', s', Some r) \<and> wf_stash h' s' \<and>
    trace_node h' s' (rev addrs) = Some r \<and>
    (\<forall>p q. trace_node h s p = Some q \<longrightarrow> trace_node h' s' p = Some q) \<and>
    (\<forall>p. trace_total h' s' p = trace_total h s p +
       (if p \<noteq> [] \<and> prefix p (rev addrs) then word_of_int sz else 0)) \<and>
    (\<forall>p. trace_size h' s' p = trace_size h s p + (if p = rev addrs then word_of_int sz else 0))"
proof -
  from assms(1) obtain \<rho> where inv: "stash_inv h s \<rho>" by (auto simp: wf_stash_def)
  from stash_add_inv [OF inv assms(2), of sz] obtain h' s' \<rho>' r where
    run: "stack_stash_add_trace h s addrs sz = Some (h', s', Some r)" and inv': "stash_inv h' s' \<rho>'"
    and le: "\<rho> \<subseteq>\<^sub>m \<rho>'" and r: "\<rho>' (rev addrs) = Some r"
    and cnt: "\<forall>p. trace_total h' s' p = trace_total h s p +
       (if p \<noteq> [] \<and> prefix p (rev addrs) then word_of_int sz else 0)"
      "\<forall>p. trace_size h' s' p = trace_size h s p + (if p = rev addrs then word_of_int sz else 0)" by blast
  have "trace_node h' s' p = Some q" if "trace_node h s p = Some q" for p q
    using that le by (auto simp: trace_node_eq [OF inv] trace_node_eq [OF inv'] map_le_def dom_def)
  with run inv' r cnt show ?thesis
    by (auto simp: wf_stash_def trace_node_eq [OF inv'])
qed

interpretation stash_rec: trace_recorder "\<lambda>(h, s). wf_stash h s" "\<lambda>t. t \<noteq> []" stash_record
  "\<lambda>(h, s). trace_total h s" "\<lambda>(h, s). trace_size h s" word_of_int word_of_int
proof unfold_locales
  fix st :: "node_heap \<times> stack_stash" and t :: "ptr list" and z :: int
  obtain h s where st: "st = (h, s)" by (cases st)
  assume "case st of (h, s) \<Rightarrow> wf_stash h s" and "t \<noteq> []"
  then obtain h' s' r where run: "stack_stash_add_trace h s (rev t) z = Some (h', s', Some r)"
    and "wf_stash h' s'"
    and "\<forall>p. trace_total h' s' p = trace_total h s p + (if p \<noteq> [] \<and> prefix p t then word_of_int z else 0)"
    and "\<forall>p. trace_size h' s' p = trace_size h s p + (if p = t then word_of_int z else 0)"
    using stash_add [of h s "rev t" z] by (auto simp: st)
  then show "\<exists>st'. stash_record st t z = Some st' \<and> (case st' of (h, s) \<Rightarrow> wf_stash h s) \<and>
      (\<forall>p. (case st' of (h, s) \<Rightarrow> trace_total h s) p = (case st of (h, s) \<Rightarrow> trace_total h s) p +
         (if p \<noteq> [] \<and> prefix p t then word_of_int z else 0)) \<and>
      (\<forall>p. (case st' of (h, s) \<Rightarrow> trace_size h s) p = (case st of (h, s) \<Rightarrow> trace_size h s) p +
         (if p = t then word_of_int z else 0))"
    by (intro exI [of _ "(h', s')"]) (simp add: stash_record_def st)
qed

lemma wf_stash_new: "heap_ok h [] \<Longrightarrow> wf_stash h (stack_stash_new d)"
  using stash_inv_new unfolding wf_stash_def by blast

lemma trace_new: "trace_total h (stack_stash_new d) p = 0" "trace_size h (stack_stash_new d) p = 0"
  by (cases p; simp add: trace_total_def trace_size_def trace_node_def stack_stash_new_def
      create_stack_stash_def find_sibling.simps)+

lemma stash_records_new:
  assumes "heap_ok h0 []" and "list_all (\<lambda>(t, z). t \<noteq> []) ts"
  shows "\<exists>h s. record_all stash_record (h0, stack_stash_new d) ts = Some (h, s) \<and> wf_stash h s \<and>
    (\<forall>p. trace_total h s p = weight_of word_of_int (\<lambda>t. p \<noteq> [] \<and> prefix p t) ts) \<and>
    (\<forall>p. trace_size h s p = weight_of word_of_int (\<lambda>t. p = t) ts)"
proof -
  have "list_all ((\<lambda>t. t \<noteq> []) \<circ> fst) ts" using assms(2) by (auto simp: list_all_iff)
  from stash_rec.record_all_spec [of "(h0, stack_stash_new d)", OF _ this] wf_stash_new [OF assms(1), of d]
  obtain h s where "record_all stash_record (h0, stack_stash_new d) ts = Some (h, s)" "wf_stash h s"
    "\<forall>p. trace_total h s p = trace_total h0 (stack_stash_new d) p + weight_of word_of_int (\<lambda>t. p \<noteq> [] \<and> prefix p t) ts"
    "\<forall>p. trace_size h s p = trace_size h0 (stack_stash_new d) p + weight_of word_of_int (\<lambda>t. p = t) ts"
    by fastforce
  then show ?thesis by (auto simp: trace_new)
qed

lemma foreach_spec:
  assumes "stash_inv h s \<rho>"
  shows "\<exists>out. stack_stash_foreach h s = Some out \<and> distinct (map fst out) \<and>
    set out = {(rev q, trace_size h s q) | q. trace_size h s q \<noteq> 0}"
proof -
  note t = stash_invD(1) [OF assms]
  from trie_okD(6) [OF t stash_path_Nil] obtain xs where
    xs: "chain sn_siblings (nodes h) (ss_root s) xs" "set xs = kids \<rho> []"
    by (auto simp: first_kid_def trie_okD(2) [OF t])
  from do_callback_spec [OF t stash_path_Nil xs(1)] xs(2) obtain out where
    out: "do_callback (nodes h) (ss_root s) [] = Some out" "distinct (map fst out)"
      "set out = calls_below h \<rho> [] (kids \<rho> [])" by auto
  have dom: "\<exists>b x. \<rho> [b] = Some x \<and> prefix [b] q" if "\<rho> q = Some y" for q y
  proof (cases q)
    case Nil
    with that trie_okD(2) [OF t] show ?thesis by simp
  next
    case (Cons b bs)
    with that stash_path_append [OF t, of "[b]" bs] show ?thesis by (auto simp: stash_path_def)
  qed
  have nz: "counter sn_size h \<rho> q \<noteq> 0 \<Longrightarrow> q \<in> dom \<rho>" for q
    by (auto simp: counter_def split: option.splits)
  have "calls_below h \<rho> [] (kids \<rho> []) = {(rev q, trace_size h s q) | q. trace_size h s q \<noteq> 0}"
    unfolding calls_below_def trace_size_eq [OF assms] kids_def using dom nz by fastforce
  with out show ?thesis by (auto simp: stack_stash_foreach_def)
qed

section \<open>The index by address\<close>

lemma index_chain:
  assumes inv: "stash_inv h s \<rho>"
  shows "\<exists>xs. chain sn_next (nodes h) (stack_stash_find_node s a) xs \<and> distinct xs \<and>
    (\<forall>r. r \<in> set xs \<longleftrightarrow> (\<exists>p. trace_node h s (p @ [a]) = Some r))"
proof -
  from stash_invD(2) [OF inv] obtain xs where "chain sn_next (nodes h) (ss_nodes_by_data s a) xs"
    "set xs = {r. \<exists>p. \<rho> (p @ [a]) = Some r}" unfolding index_ok_def by blast
  then show ?thesis
    by (intro exI [of _ xs]) (auto simp: stack_stash_find_node_def trace_node_eq [OF inv] chain_distinct)
qed

text \<open>
  The sum over an address' chain of the totals of its toplevel nodes: the weight of the
  traces that pass through the address.
\<close>

definition address_total :: "node_heap \<Rightarrow> nref list \<Rightarrow> 32 word" where
  "address_total h xs = (\<Sum>r \<leftarrow> xs. if sn_toplevel (the (nodes h r)) then sn_total (the (nodes h r)) else 0)"

lemma address_total_sum:
  assumes inv: "stash_inv h s \<rho>" and "distinct xs" and xs: "set xs = {r. \<exists>p. \<rho> (p @ [a]) = Some r}"
  shows "address_total h xs = (\<Sum>p \<in> {p \<in> dom \<rho>. first_for a p}. trace_total h s p)"
proof -
  note t = stash_invD(1) [OF inv]
  let ?D = "{p \<in> dom \<rho>. last p = a}"
  have ne: "p \<noteq> []" if "p \<in> dom \<rho>" for p using that trie_okD(2) [OF t] by auto
  have snoc: "p = butlast p @ [a]" if "p \<in> ?D" for p
    using that ne [of p] append_butlast_last_id [of p] by simp
  have img: "set xs = (\<lambda>p. the (\<rho> p)) ` ?D"
  proof
    show "set xs \<subseteq> (\<lambda>p. the (\<rho> p)) ` ?D"
    proof
      fix r assume "r \<in> set xs"
      then obtain p where "\<rho> (p @ [a]) = Some r" using xs by blast
      then show "r \<in> (\<lambda>p. the (\<rho> p)) ` ?D" by (intro image_eqI [of _ _ "p @ [a]"]) auto
    qed
    show "(\<lambda>p. the (\<rho> p)) ` ?D \<subseteq> set xs"
    proof
      fix r assume "r \<in> (\<lambda>p. the (\<rho> p)) ` ?D"
      then obtain p where "p \<in> ?D" "r = the (\<rho> p)" by blast
      with snoc [OF this(1)] show "r \<in> set xs" unfolding xs by (auto intro: exI [of _ "butlast p"])
    qed
  qed
  have inj: "inj_on (\<lambda>p. the (\<rho> p)) ?D"
    using trie_okD(3) [OF t] by (auto simp: inj_on_def) (metis domI option.sel)
  let ?g = "\<lambda>r. if sn_toplevel (the (nodes h r)) then sn_total (the (nodes h r)) else 0"
  have "address_total h xs = sum ?g (set xs)"
    unfolding address_total_def using assms(2) by (rule sum_list_distinct_conv_sum_set)
  also have "\<dots> = (\<Sum>p \<in> ?D. ?g (the (\<rho> p)))" unfolding img by (simp add: sum.reindex [OF inj])
  also have "\<dots> = (\<Sum>p \<in> ?D. if first_for a p then trace_total h s p else 0)"
  proof (rule sum.cong [OF refl])
    fix p assume p: "p \<in> ?D"
    then obtain r where r: "\<rho> (butlast p @ [a]) = Some r" using snoc [OF p] by auto
    from trie_okD(5) [OF t this] obtain n where n: "nodes h r = Some n"
      "sn_toplevel n = (a \<notin> set (butlast p))" by blast
    have "first_for a p \<longleftrightarrow> a \<notin> set (butlast p)"
      using snoc [OF p] by (auto simp: first_for_def)
    moreover have "\<rho> p = Some r" using r snoc [OF p] by simp
    ultimately show "?g (the (\<rho> p)) = (if first_for a p then trace_total h s p else 0)"
      using n by (simp add: trace_total_eq [OF inv] counter_def)
  qed
  also have "\<dots> = (\<Sum>p \<in> {p \<in> ?D. first_for a p}. trace_total h s p)"
    by (rule sum.inter_filter [symmetric]) (simp add: trie_okD(1) [OF t])
  also have "{p \<in> ?D. first_for a p} = {p \<in> dom \<rho>. first_for a p}" by (auto simp: first_for_def)
  finally show ?thesis .
qed

lemma address_total_records:
  assumes h0: "heap_ok h0 []" and ts: "list_all (\<lambda>(t, z). t \<noteq> []) ts"
    and run: "record_all stash_record (h0, stack_stash_new d) ts = Some (h, s)"
  shows "\<exists>xs. chain sn_next (nodes h) (stack_stash_find_node s a) xs \<and>
    address_total h xs = weight_of word_of_int (\<lambda>t. a \<in> set t) ts"
proof -
  from stash_records_new [OF h0 ts, of d] run have "wf_stash h s"
    and tot: "\<And>p. trace_total h s p = weight_of word_of_int (\<lambda>t. p \<noteq> [] \<and> prefix p t) ts" by auto
  then obtain \<rho> where inv: "stash_inv h s \<rho>" by (auto simp: wf_stash_def)
  from index_chain [OF inv, of a] obtain xs where
    xs: "chain sn_next (nodes h) (stack_stash_find_node s a) xs" "distinct xs"
      "set xs = {r. \<exists>p. \<rho> (p @ [a]) = Some r}" by (auto simp: trace_node_eq [OF inv])
  let ?P = "dom \<rho> \<union> (\<Union>t \<in> fst ` set ts. set (prefixes t))"
  have fin: "finite ?P" using trie_okD(1) [OF stash_invD(1) [OF inv]] by auto
  have "address_total h xs = (\<Sum>p \<in> {p \<in> dom \<rho>. first_for a p}. trace_total h s p)"
    by (rule address_total_sum [OF inv xs(2,3)])
  also have "\<dots> = (\<Sum>p \<in> {p \<in> ?P. first_for a p}. trace_total h s p)"
  proof (rule sum.mono_neutral_left)
    show "finite {p \<in> ?P. first_for a p}" using fin by (rule rev_finite_subset) auto
  qed (auto simp: trace_total_eq [OF inv] counter_def split: option.splits)
  also have "\<dots> = weight_of word_of_int (\<lambda>t. a \<in> set t) ts"
    unfolding tot by (rule inclusive_weight [OF fin]) force
  finally show ?thesis using xs(1) by blast
qed

section \<open>Properties\<close>

text \<open>A heap before the first allocation, for the closed instances.\<close>

definition empty_heap :: node_heap where
  "empty_heap = \<lparr>nodes = Map.empty, n_blocks = 0, junk = (\<lambda>r. \<lparr>sn_address = 0, sn_total = 7, sn_size = 7,
     sn_toplevel = True, sn_parent = Some r, sn_siblings = Some r, sn_children = Some r, sn_next = None\<rparr>)\<rparr>"

lemma heap_ok_empty [simp]: "heap_ok empty_heap []"
  by (simp add: heap_ok_def empty_heap_def)

lemma frames_of_node:
  assumes "wf_stash h s" and "trace_node h s p = Some r"
  shows "frames_of (nodes h) (Some r) = Some (rev p)"
proof -
  from assms(1) obtain \<rho> where inv: "stash_inv h s \<rho>" by (auto simp: wf_stash_def)
  with assms(2) have r: "\<rho> p = Some r" by (simp add: trace_node_eq)
  then have "stash_path \<rho> p" by (auto simp: stash_path_def)
  from frames_of_trie [OF stash_invD(1) [OF inv] this] r show ?thesis by simp
qed

text \<open>
  Property C8: \<open>stack_stash_add_trace\<close> returns on every well-formed stash and every trace.
  It keeps the stash well-formed, returns the node of the trace, adds the size to the total of
  every non-empty outer part of the trace and to the size of the trace itself, changes no
  other counter, and moves no node that was there before. An empty trace is ignored.
\<close>

theorem add_trace_correct:
  assumes "wf_stash h s"
  shows "if addrs = [] then stack_stash_add_trace h s addrs sz = Some (h, s, None)
    else \<exists>h' s' r. stack_stash_add_trace h s addrs sz = Some (h', s', Some r) \<and>
      wf_stash h' s' \<and> trace_node h' s' (rev addrs) = Some r \<and>
      (\<forall>p q. trace_node h s p = Some q \<longrightarrow> trace_node h' s' p = Some q) \<and>
      (\<forall>p. trace_total h' s' p = trace_total h s p +
         (if p \<noteq> [] \<and> prefix p (rev addrs) then word_of_int sz else 0)) \<and>
      (\<forall>p. trace_size h' s' p = trace_size h s p + (if p = rev addrs then word_of_int sz else 0))"
  using stash_add [OF assms] by (simp add: stack_stash_add_trace_def)

theorem add_trace_correct_witness:
  "\<exists>h' s' r. stack_stash_add_trace empty_heap (stack_stash_new False) [3, 2, 1] (-1) = Some (h', s', Some r) \<and>
     trace_total h' s' [1, 2] = - 1 \<and> trace_size h' s' [1, 2] = 0 \<and> trace_size h' s' [1, 2, 3] = - 1"
  using add_trace_correct [OF wf_stash_new [OF heap_ok_empty, of False], of "[3, 2, 1]" "- 1"]
  by (auto simp: trace_new prefix_def)

text \<open>
  Property C9: a recorded trace can be read back. Walking from the node that
  \<open>stack_stash_add_trace\<close> returned along \<open>parent\<close>, as the leak report and the profile do,
  gives the frames that were recorded, innermost first; and the walk from any node of an
  older trace gives what it gave before.
\<close>

theorem add_trace_roundtrip:
  assumes "wf_stash h s" and "addrs \<noteq> []"
    and "stack_stash_add_trace h s addrs sz = Some (h', s', res)"
  shows "frames_of (nodes h') res = Some addrs \<and>
    (\<forall>p q. trace_node h s p = Some q \<longrightarrow>
       frames_of (nodes h') (Some q) = Some (rev p) \<and> frames_of (nodes h) (Some q) = Some (rev p))"
proof -
  from stash_add [OF assms(1,2), of sz] assms(3) obtain r where
    new: "wf_stash h' s'" "trace_node h' s' (rev addrs) = Some r" "res = Some r"
    and keep: "\<forall>p q. trace_node h s p = Some q \<longrightarrow> trace_node h' s' p = Some q" by auto
  show ?thesis
    using frames_of_node [OF new(1,2)] new(3) frames_of_node [OF new(1)] frames_of_node [OF assms(1)] keep
    by auto
qed

theorem add_trace_roundtrip_witness:
  "\<exists>h' s' res. stack_stash_add_trace empty_heap (stack_stash_new False) [3, 2, 1] 5 = Some (h', s', res) \<and>
     frames_of (nodes h') res = Some [3, 2, 1]"
proof -
  have wf: "wf_stash empty_heap (stack_stash_new False)" by (simp add: wf_stash_new)
  from stash_add [OF wf, of "[3, 2, 1]" 5] obtain h' s' r where
    run: "stack_stash_add_trace empty_heap (stack_stash_new False) [3, 2, 1] 5 = Some (h', s', Some r)" by auto
  from add_trace_roundtrip [OF wf _ run] show ?thesis using run by auto
qed

text \<open>
  Property C10: after any sequence of recorded traces, a traversal of the stash makes exactly
  one call for each distinct trace whose sizes do not cancel out, and hands it the sum of the
  sizes (in the 31 bits of the field) recorded for it; the trace is passed innermost first.
\<close>

theorem foreach_after_records:
  assumes "heap_ok h0 []" and "list_all (\<lambda>(t, z). t \<noteq> []) ts"
  shows "\<exists>h s out. record_all stash_record (h0, stack_stash_new d) ts = Some (h, s) \<and>
    stack_stash_foreach h s = Some out \<and> distinct (map fst out) \<and>
    (\<forall>tr n. (tr, n) \<in> set out \<longleftrightarrow> n = weight_of word_of_int (\<lambda>t. rev tr = t) ts \<and> n \<noteq> 0)"
proof -
  from stash_records_new [OF assms, of d] obtain h s where
    hs: "record_all stash_record (h0, stack_stash_new d) ts = Some (h, s)" "wf_stash h s"
    and size: "\<And>p. trace_size h s p = weight_of word_of_int (\<lambda>t. p = t) ts" by blast
  from hs(2) obtain \<rho> where "stash_inv h s \<rho>" by (auto simp: wf_stash_def)
  from foreach_spec [OF this] obtain out where
    out: "stack_stash_foreach h s = Some out" "distinct (map fst out)"
      "set out = {(rev q, trace_size h s q) | q. trace_size h s q \<noteq> 0}" by blast
  have "(tr, n) \<in> set out \<longleftrightarrow> n = weight_of word_of_int (\<lambda>t. rev tr = t) ts \<and> n \<noteq> 0" for tr n
    unfolding out(3) size by (auto intro: exI [of _ "rev tr"])
  with hs(1) out(1,2) show ?thesis by blast
qed

theorem foreach_after_records_witness:
  "\<exists>h s out. record_all stash_record (empty_heap, stack_stash_new False)
       [([1, 2], 4), ([1], 2), ([1, 2], 3)] = Some (h, s) \<and>
     stack_stash_foreach h s = Some out \<and> ([2, 1], 7) \<in> set out \<and> ([1], 2) \<in> set out"
proof -
  from foreach_after_records [OF heap_ok_empty, of "[([1, 2], 4), ([1], 2), ([1, 2], 3)]" False]
  obtain h s out where "record_all stash_record (empty_heap, stack_stash_new False)
      [([1, 2], 4), ([1], 2), ([1, 2], 3)] = Some (h, s)"
    and "stack_stash_foreach h s = Some out"
    and "\<forall>tr n. (tr, n) \<in> set out \<longleftrightarrow>
      n = weight_of word_of_int (\<lambda>t. rev tr = t) [([1, 2], 4), ([1], 2), ([1, 2], 3)] \<and> n \<noteq> 0"
    by (auto simp del: record_all.simps weight_of_Cons)
  then show ?thesis by (intro exI conjI) auto
qed

text \<open>
  Property C11: the index by address is complete and counts recursion once. After any sequence
  of recorded traces, the chain that \<open>stack_stash_find_node\<close> returns for an address links
  every node of the address, and the totals of its toplevel nodes sum up to the sizes of the
  traces that contain the address, each trace once however often the address recurs in it.
\<close>

theorem find_node_inclusive_total:
  assumes "heap_ok h0 []" and "list_all (\<lambda>(t, z). t \<noteq> []) ts"
    and "record_all stash_record (h0, stack_stash_new d) ts = Some (h, s)"
  shows "\<exists>xs. chain sn_next (nodes h) (stack_stash_find_node s a) xs \<and>
    address_total h xs = weight_of word_of_int (\<lambda>t. a \<in> set t) ts"
  using address_total_records [OF assms] .

theorem find_node_inclusive_total_witness:
  "\<exists>h s xs. record_all stash_record (empty_heap, stack_stash_new False)
       [([1, 2, 1], 4), ([2], 2)] = Some (h, s) \<and>
     chain sn_next (nodes h) (stack_stash_find_node s 1) xs \<and> address_total h xs = 4"
proof -
  from stash_records_new [OF heap_ok_empty, of "[([1, 2, 1], 4), ([2], 2)]" False] obtain h s where
    run: "record_all stash_record (empty_heap, stack_stash_new False) [([1, 2, 1], 4), ([2], 2)] = Some (h, s)"
    by auto
  from find_node_inclusive_total [OF heap_ok_empty _ run, of 1] run show ?thesis by auto
qed



end
