(* ===== verification/Protocol.thy ===== *)
theory Protocol
  imports Prelude
begin

text \<open>
  The messages between the traced program and the profiler (lib/memintercept.h). The code
  overlays the variants in a union; no part of the program reads a field of a variant it did
  not write, so the model keeps the fields side by side. \<open>ALLOC\<close> messages are followed on
  the wire by \<open>stack_size\<close> return addresses.
\<close>

datatype mi_operation =
  MI_MALLOC | MI_REALLOC | MI_FREE | MI_TIME | MI_EXEC | MI_NEW | MI_FORK | MI_CLONE | MI_EXIT

record mi_info =
  operation :: mi_operation
  i_pid :: pid
  i_seqno :: u32
  old_ptr :: ptr
  new_ptr :: ptr
  i_size :: "64 word"
  stack_size :: u32
  new_pid :: pid

text \<open>\<open>MIInfo info = { 0 }\<close>.\<close>

definition zero_info :: mi_info where
  "zero_info = \<lparr>operation = MI_MALLOC, i_pid = 0, i_seqno = 0, old_ptr = 0, new_ptr = 0, i_size = 0,
     stack_size = 0, new_pid = 0\<rparr>"

end
