(* ===== verification/Process_Data.thy ===== *)
theory Process_Data
  imports Protocol Stackstash
begin

text \<open>
  The data of the profiler: blocks and maps (src/memprof.h), symbols and queued commands
  (src/process.c), traced processes (src/process.h), and what the program learns from the
  operating system and from the BFD glue in \<open>bfdutils.c\<close>, a file the repository does not
  hold; both are the fields of the record \<open>env\<close>, over which everything is generic.
\<close>

section \<open>Blocks\<close>

type_synonym bref = nat

record block =
  b_flags :: u32
  b_addr :: ptr
  b_size :: u32
  b_stack :: "nref option"
  b_refcount :: u32

definition BLOCK_MARKED :: u32 where "BLOCK_MARKED = 1"
definition BLOCK_IS_ROOT :: u32 where "BLOCK_IS_ROOT = 2"

text \<open>The block structures the profiler has allocated; \<open>g_new\<close> hands out a fresh one.\<close>

record block_heap =
  blocks :: "bref \<rightharpoonup> block"
  n_new :: nat

definition block_new :: "block \<Rightarrow> block_heap \<Rightarrow> block_heap \<times> bref" where
  "block_new b h = (h\<lparr>blocks := (blocks h)(n_new h \<mapsto> b), n_new := Suc (n_new h)\<rparr>, n_new h)"

definition block_unref :: "bref \<Rightarrow> block_heap \<Rightarrow> block_heap option" where
  "block_unref r h = (case blocks h r of None \<Rightarrow> None
     | Some b \<Rightarrow>
         let b = b\<lparr>b_refcount := b_refcount b - 1\<rparr> in
         Some (h\<lparr>blocks := (if b_refcount b = 0 then (blocks h)(r := None) else (blocks h)(r \<mapsto> b))\<rparr>))"

section \<open>Maps and symbols\<close>

text \<open>
  The profile compares symbol names as pointers, so a string carries where its pointer came
  from besides its characters.
\<close>

datatype str_origin = Literal | Strdup nat | Inode_Name nat | Bfd_Name nat

datatype cstr = CStr (str_origin: str_origin) (text_of: string)

record symbol =
  s_addr :: "64 word"
  s_size :: "64 word"
  s_name :: cstr

text \<open>What the program reads of an \<open>asymbol\<close> of the BFD library.\<close>

record asymbol =
  as_function :: bool
  as_section :: string
  as_value :: "64 word"
  as_name :: string

record mp_map =
  m_addr :: "64 word"
  m_size :: "64 word"
  m_name :: "cstr option"
  m_symbols :: "symbol list option"
  m_syms :: "asymbol list option"
  m_do_offset :: bool
  m_prepared :: bool

text \<open>What identifies a file: the number of its device (\<open>makedev\<close>) and its inode number.\<close>

datatype inode_key = Inode_Key (key_device: int) (key_inode: int)

text \<open>
  The fields that \<open>sscanf\<close> fills from a line of \<open>/proc/PID/maps\<close>; \<open>ml_count\<close> is its
  result, the number of fields it could fill.
\<close>

record maps_line =
  ml_count :: nat
  ml_start :: "64 word"
  ml_end :: "64 word"
  ml_perms :: string
  ml_key :: inode_key
  ml_file :: string

section \<open>Processes\<close>

datatype process_status = MP_PROCESS_INIT | MP_PROCESS_STARTING | MP_PROCESS_RUNNING
  | MP_PROCESS_EXITING | MP_PROCESS_DEFUNCT | MP_PROCESS_DETACHED

type_synonym pref = nat
type_synonym sref = nat

record command =
  c_info :: mi_info
  c_stack :: "nref option"

text \<open>
  \<open>p_input_channel\<close> is the descriptor of the connection, \<open>p_input_tag\<close> says whether the
  main loop watches it; \<open>p_strings\<close> counts the strings the process has duplicated.
\<close>

record mp_process =
  p_status :: process_status
  p_pid :: pid
  p_program_name :: "string option"
  p_clone_of :: "pref option"
  p_parent :: "pref option"
  p_seqno :: u32
  p_bytes_used :: u32
  p_n_allocations :: u32
  p_input_tag :: bool
  p_input_channel :: "nat option"
  p_map_list :: "mp_map list"
  p_bad_pages :: "ptr list"
  p_block_table :: "(ptr \<rightharpoonup> bref) option"
  p_stack_stash :: "sref option"
  p_command_queue :: "command list"
  p_follow_fork :: bool
  p_follow_exec :: bool
  p_strings :: nat

section \<open>The environment\<close>

text \<open>
  \<^item> \<open>proc_maps\<close>: the lines of \<open>/proc/PID/maps\<close>, \<open>None\<close> if it cannot be opened;
  \<^item> \<open>proc_stat\<close>: the text of \<open>/proc/PID/stat\<close>, \<open>None\<close> if it cannot be opened;
  \<^item> \<open>file_id\<close>, \<open>exe_id\<close>: device and inode of a file and of \<open>/proc/PID/exe\<close>, \<open>None\<close>
    if \<open>stat\<close> fails; \<open>dir_entries\<close>: a directory, \<open>None\<close> if it cannot be opened;
  \<^item> \<open>sort_symbols\<close>: \<open>qsort\<close> with \<open>compare_address\<close> (any order of equal addresses);
  \<^item> \<open>read_bfd\<close>, \<open>demangle\<close>, \<open>find_line\<close>, \<open>map_sections\<close>: the functions of \<open>bfdutils.c\<close>.
\<close>

record env =
  proc_maps :: "pid \<Rightarrow> string list option"
  proc_stat :: "pid \<Rightarrow> string option"
  file_id :: "string \<Rightarrow> inode_key option"
  exe_id :: "pid \<Rightarrow> inode_key option"
  dir_entries :: "string \<Rightarrow> string list option"
  sort_symbols :: "symbol list \<Rightarrow> symbol list"
  read_bfd :: "mp_map \<Rightarrow> mp_map"
  demangle :: "mp_map \<Rightarrow> string \<Rightarrow> cstr"
  find_line :: "mp_map \<Rightarrow> 64 word \<Rightarrow> (string option \<times> string \<times> u32) option"
  map_sections :: "mp_map \<Rightarrow> (ptr \<times> u32) list"

section \<open>What is observable\<close>

text \<open>
  The lines \<open>process_dump_stack\<close> prints (with a file and line, with a function name only,
  with the bare address), and the effects the process and server code has outside the data
  structures: signals to the user interface, warnings, and writes to and closes of the
  descriptors of a connection.
\<close>

datatype dump_line = Dump_Line string string u32 | Dump_Function string | Dump_Address ptr

datatype event =
    Block_Not_Found ptr pid
  | Dump dump_line
  | Status_Changed pref
  | Reset pref
  | Process_Created pref
  | Response nat bool
  | Shutdown nat
  | Close nat
  | Terminate pid
  | Trace_Attach pid
  | Trace_Detach pid
  | Signal_Stop pid
  | Signal_Continue pid
  | Close_Memory
  | Warning string

end
