(* ===== verification/Inode.thy ===== *)
theory Inode
  imports Process_Data
begin

text \<open>
  The table from device and inode to file name (src/inode.c), consulted for the lines of
  \<open>/proc/PID/maps\<close> that carry no name. \<open>inode_hash\<close> and \<open>inode_compare\<close> make the pair the
  key; a first lookup fills the table from five library directories. The names it hands out
  belong to the table, so two lookups of one file give the same pointer.
\<close>

record inode_state =
  inode_table :: "(inode_key \<rightharpoonup> cstr) option"
  n_inodes :: nat

definition no_inodes :: inode_state where
  "no_inodes = \<lparr>inode_table = None, n_inodes = 0\<rparr>"

text \<open>
  \<open>read_inode\<close>: the table keeps the first name it learns for a file. (Its
  \<open>g_return_if_fail (path != NULL)\<close> cannot fail: every caller has a string.)
\<close>

definition read_inode :: "env \<Rightarrow> string \<Rightarrow> inode_state \<Rightarrow> inode_state" where
  "read_inode env path s =
     (let t = (case inode_table s of None \<Rightarrow> Map.empty | Some t \<Rightarrow> t) in
      case file_id env path of None \<Rightarrow> s\<lparr>inode_table := Some t\<rparr>
      | Some k \<Rightarrow>
          if t k = None
          then s\<lparr>inode_table := Some (t(k \<mapsto> CStr (Inode_Name (n_inodes s)) path)),
                 n_inodes := Suc (n_inodes s)\<rparr>
          else s\<lparr>inode_table := Some t\<rparr>)"

definition inode_directories :: "string list" where
  "inode_directories = [''/lib'', ''/usr/lib'', ''/usr/X11R6/lib'', ''/usr/local/lib'', ''/opt/gnome/lib'']"

text \<open>The buffer the path is printed to holds 1022 characters and the terminator.\<close>

definition entry_path :: "string \<Rightarrow> string \<Rightarrow> string" where
  "entry_path dir name = take 1022 (dir @ ''/'' @ name)"

fun read_entries :: "env \<Rightarrow> string \<Rightarrow> string list \<Rightarrow> inode_state \<Rightarrow> inode_state" where
  "read_entries env dir [] s = s"
| "read_entries env dir (n # ns) s = read_entries env dir ns (read_inode env (entry_path dir n) s)"

fun read_directories :: "env \<Rightarrow> string list \<Rightarrow> inode_state \<Rightarrow> inode_state" where
  "read_directories env [] s = s"
| "read_directories env (d # ds) s =
     read_directories env ds
       (case dir_entries env d of None \<Rightarrow> s | Some ns \<Rightarrow> read_entries env d ns s)"

definition read_inodes :: "env \<Rightarrow> inode_state \<Rightarrow> inode_state" where
  "read_inodes env s = read_directories env inode_directories s"

text \<open>
  \<open>g_hash_table_lookup\<close> on the table that is still \<open>NULL\<close> because no directory had an entry
  reports a violated precondition and answers \<open>NULL\<close>.
\<close>

definition locate_inode :: "env \<Rightarrow> inode_key \<Rightarrow> inode_state \<Rightarrow> inode_state \<times> cstr option" where
  "locate_inode env k s =
     (let s = (if inode_table s = None then read_inodes env s else s) in
      (s, case inode_table s of None \<Rightarrow> None | Some t \<Rightarrow> t k))"

section \<open>The table is sound and never forgets\<close>

text \<open>Every name in the table was the name of its device and inode when it was entered.\<close>

definition inodes_ok :: "env \<Rightarrow> inode_state \<Rightarrow> bool" where
  "inodes_ok env s \<longleftrightarrow>
     (\<forall>t k c. inode_table s = Some t \<longrightarrow> t k = Some c \<longrightarrow>
        file_id env (text_of c) = Some k \<and> (\<exists>i < n_inodes s. str_origin c = Inode_Name i))"

definition knows :: "inode_state \<Rightarrow> inode_key \<Rightarrow> cstr option" where
  "knows s k = (case inode_table s of None \<Rightarrow> None | Some t \<Rightarrow> t k)"

lemma inodes_okD:
  "inodes_ok env s \<Longrightarrow> knows s k = Some c \<Longrightarrow>
   file_id env (text_of c) = Some k \<and> (\<exists>i < n_inodes s. str_origin c = Inode_Name i)"
  unfolding inodes_ok_def knows_def by (auto split: option.splits)

lemma inodes_okI:
  "(\<And>k c. knows s k = Some c \<Longrightarrow>
     file_id env (text_of c) = Some k \<and> (\<exists>i < n_inodes s. str_origin c = Inode_Name i)) \<Longrightarrow>
   inodes_ok env s"
  unfolding inodes_ok_def knows_def by auto

lemma knows_read_inode:
  "knows (read_inode env path s) k =
     (if file_id env path = Some k \<and> knows s k = None
      then Some (CStr (Inode_Name (n_inodes s)) path) else knows s k)"
  by (auto simp: read_inode_def knows_def Let_def split: option.splits)

lemma n_inodes_read_inode: "n_inodes s \<le> n_inodes (read_inode env path s)"
  "file_id env path = Some k \<Longrightarrow> knows s k = None \<Longrightarrow>
   n_inodes (read_inode env path s) = Suc (n_inodes s)"
  by (auto simp: read_inode_def knows_def Let_def split: option.splits)

lemma inodes_ok_read_inode:
  assumes "inodes_ok env s"
  shows "inodes_ok env (read_inode env path s)"
proof (rule inodes_okI)
  fix k c
  assume k: "knows (read_inode env path s) k = Some c"
  show "file_id env (text_of c) = Some k \<and>
      (\<exists>i < n_inodes (read_inode env path s). str_origin c = Inode_Name i)"
  proof (cases "file_id env path = Some k \<and> knows s k = None")
    case True
    with k have "c = CStr (Inode_Name (n_inodes s)) path" by (simp add: knows_read_inode)
    with True show ?thesis by (simp add: n_inodes_read_inode(2))
  next
    case False
    with k have "knows s k = Some c" by (auto simp: knows_read_inode split: if_splits)
    with inodes_okD [OF assms this] n_inodes_read_inode(1) [of s env path] show ?thesis
      by (meson less_le_trans)
  qed
qed

text \<open>What the operations share: they keep the table sound and never change an entry.\<close>

definition inodes_grow :: "env \<Rightarrow> inode_state \<Rightarrow> inode_state \<Rightarrow> bool" where
  "inodes_grow env s s' \<longleftrightarrow> (inodes_ok env s \<longrightarrow> inodes_ok env s') \<and>
     (\<forall>k c. knows s k = Some c \<longrightarrow> knows s' k = Some c)"

lemma inodes_grow_refl [simp]: "inodes_grow env s s"
  by (simp add: inodes_grow_def)

lemma inodes_grow_trans: "inodes_grow env a b \<Longrightarrow> inodes_grow env b c \<Longrightarrow> inodes_grow env a c"
  by (simp add: inodes_grow_def)

lemma read_inode_grow: "inodes_grow env s (read_inode env path s)"
  by (simp add: inodes_grow_def inodes_ok_read_inode knows_read_inode)

lemma read_entries_grow: "inodes_grow env s (read_entries env d ns s)"
  by (induction env d ns s rule: read_entries.induct)
    (simp_all, blast intro: inodes_grow_trans read_inode_grow)

lemma read_directories_grow: "inodes_grow env s (read_directories env ds s)"
proof (induction env ds s rule: read_directories.induct)
  case (2 env d ds s)
  show ?case
  proof (cases "dir_entries env d")
    case None
    with 2 show ?thesis by simp
  next
    case (Some ns)
    with 2 show ?thesis by simp (blast intro: inodes_grow_trans read_entries_grow)
  qed
qed simp

lemma locate_inode_grow: "inodes_grow env s (fst (locate_inode env k s))"
  by (simp add: locate_inode_def Let_def read_inodes_def read_directories_grow)

lemma locate_inode_knows: "snd (locate_inode env k s) = knows (fst (locate_inode env k s)) k"
  by (simp add: locate_inode_def Let_def knows_def)

text \<open>Property C18: a name that \<open>locate_inode\<close> returns is the name of a file with the device and
  inode asked for, and it is the same pointer at every later lookup, whatever is asked in
  between.\<close>

theorem locate_inode_sound_stable:
  assumes "inodes_ok env s" and "locate_inode env k s = (s', Some c)"
    and "locate_inode env j s' = (s'', r)"
  shows "file_id env (text_of c) = Some k \<and> locate_inode env k s'' = (s'', Some c) \<and>
    inodes_ok env s''"
proof (intro conjI)
  have s': "inodes_grow env s s'" "knows s' k = Some c"
    using locate_inode_grow [of env s k] locate_inode_knows [of env k s] assms(2) by simp_all
  have s'': "inodes_grow env s' s''" using locate_inode_grow [of env s' j] assms(3) by simp
  have k: "knows s'' k = Some c" using s' s'' by (simp add: inodes_grow_def)
  have ok: "inodes_ok env s'" using s'(1) assms(1) by (simp add: inodes_grow_def)
  with s'' show "inodes_ok env s''" by (simp add: inodes_grow_def)
  show "file_id env (text_of c) = Some k" using inodes_okD [OF ok s'(2)] by simp
  show "locate_inode env k s'' = (s'', Some c)"
    using k by (auto simp: locate_inode_def Let_def knows_def split: option.splits)
qed

text \<open>An instance: two library directories hold one file under two names.\<close>

definition lib_env :: env where
  "lib_env = \<lparr>proc_maps = (\<lambda>_. None), proc_stat = (\<lambda>_. None),
     file_id = (\<lambda>p. if p = ''/lib/libc.so.6'' \<or> p = ''/usr/lib/libc.so'' then Some (Inode_Key 8 17)
       else None),
     exe_id = (\<lambda>_. None),
     dir_entries = (\<lambda>d. if d = ''/lib'' then Some [''libc.so.6''] else
       if d = ''/usr/lib'' then Some [''libc.so'', ''gone''] else None),
     sort_symbols = id, read_bfd = id, demangle = (\<lambda>m n. CStr Literal n), find_line = (\<lambda>m a. None),
     map_sections = (\<lambda>m. [])\<rparr>"

theorem locate_inode_sound_stable_witness:
  "let s' = fst (locate_inode lib_env (Inode_Key 8 17) no_inodes);
       s'' = fst (locate_inode lib_env (Inode_Key 8 18) s');
       c = CStr (Inode_Name 0) ''/lib/libc.so.6''
   in file_id lib_env (text_of c) = Some (Inode_Key 8 17) \<and>
      locate_inode lib_env (Inode_Key 8 17) s'' = (s'', Some c) \<and> inodes_ok lib_env s''"
proof -
  have "inodes_ok lib_env no_inodes" by (simp add: inodes_ok_def no_inodes_def)
  moreover have "snd (locate_inode lib_env (Inode_Key 8 17) no_inodes) =
      Some (CStr (Inode_Name 0) ''/lib/libc.so.6'')"
    by (simp add: locate_inode_def no_inodes_def read_inodes_def inode_directories_def lib_env_def
        entry_path_def read_inode_def)
  ultimately show ?thesis
    unfolding Let_def by (intro locate_inode_sound_stable) (auto simp: prod_eq_iff)
qed

end
