(* ===== verification/Proc_Maps.thy ===== *)
theory Proc_Maps
  imports Process_Data
begin

text \<open>
  What \<open>sscanf\<close> makes of a line of \<open>/proc/PID/maps\<close>. Both readers of the program use the same
  layout, but src/process.c scans the addresses as hexadecimal numbers (\<open>%lx\<close>) and
  src/leakdetect.c as decimal ones (\<open>%lu\<close>). A conversion skips white space, takes the longest
  prefix it can use and fails if that is empty, and the first failure ends the scan; signs and
  the prefix \<open>0x\<close>, which the kernel does not print, are left out.
\<close>

definition is_space :: "char \<Rightarrow> bool" where
  "is_space c \<longleftrightarrow> c \<in> {CHR '' '', CHR 0x09, CHR 0x0A}"

definition digit_of :: "char \<Rightarrow> int option" where
  "digit_of c = (let n = of_char c :: int in
     if 48 \<le> n \<and> n \<le> 57 then Some (n - 48)
     else if 97 \<le> n \<and> n \<le> 102 then Some (n - 87)
     else if 65 \<le> n \<and> n \<le> 70 then Some (n - 55)
     else None)"

definition is_digit :: "int \<Rightarrow> char \<Rightarrow> bool" where
  "is_digit base c \<longleftrightarrow> (case digit_of c of None \<Rightarrow> False | Some d \<Rightarrow> d < base)"

fun number_of :: "int \<Rightarrow> int \<Rightarrow> string \<Rightarrow> int" where
  "number_of base acc [] = acc"
| "number_of base acc (c # cs) = number_of base (acc * base + the (digit_of c)) cs"

definition scan_number :: "int \<Rightarrow> string \<Rightarrow> (int \<times> string) option" where
  "scan_number base s =
     (let s = dropWhile is_space s; ds = takeWhile (is_digit base) s in
      if ds = [] then None else Some (number_of base 0 ds, dropWhile (is_digit base) s))"

definition scan_word :: "nat \<Rightarrow> string \<Rightarrow> (string \<times> string) option" where
  "scan_word n s =
     (let s = dropWhile is_space s; w = take n (takeWhile (\<lambda>c. \<not> is_space c) s) in
      if w = [] then None else Some (w, drop (length w) s))"

definition scan_literal :: "char \<Rightarrow> string \<Rightarrow> string option" where
  "scan_literal c s = (case s of [] \<Rightarrow> None | d # s \<Rightarrow> if d = c then Some s else None)"

text \<open>An \<open>unsigned long\<close> that is too large becomes the largest one.\<close>

definition ulong :: "int \<Rightarrow> 64 word" where
  "ulong n = of_int (min n (2 ^ 64 - 1))"

definition makedev :: "int \<Rightarrow> int \<Rightarrow> int" where
  "makedev major minor = (major mod 2 ^ 32) * 2 ^ 32 + minor mod 2 ^ 32"

definition no_line :: maps_line where
  "no_line = \<lparr>ml_count = 0, ml_start = 0, ml_end = 0, ml_perms = [], ml_key = Inode_Key 0 0, ml_file = []\<rparr>"

text \<open>
  \<open>"%lx-%lx %15s %*x %x:%x %lu %255s"\<close> with the bases of the addresses and of the device
  numbers as arguments; \<open>ml_count\<close> is the number of fields that were filled.
\<close>

definition parse_maps_line :: "int \<Rightarrow> int \<Rightarrow> string \<Rightarrow> maps_line" where
  "parse_maps_line abase dbase s =
     (case scan_number abase s of None \<Rightarrow> no_line
      | Some (start, s) \<Rightarrow> let l = no_line\<lparr>ml_count := 1, ml_start := ulong start\<rparr> in
        (case Option.bind (scan_literal CHR ''-'' s) (scan_number abase) of None \<Rightarrow> l
         | Some (end, s) \<Rightarrow> let l = l\<lparr>ml_count := 2, ml_end := ulong end\<rparr> in
           (case scan_word 15 s of None \<Rightarrow> l
            | Some (perms, s) \<Rightarrow> let l = l\<lparr>ml_count := 3, ml_perms := perms\<rparr> in
              (case Option.bind (scan_number 16 s) (\<lambda>(_, s). scan_number dbase s) of None \<Rightarrow> l
               | Some (major, s) \<Rightarrow> let l = l\<lparr>ml_count := 4\<rparr> in
                 (case Option.bind (scan_literal CHR '':'' s) (scan_number dbase) of None \<Rightarrow> l
                  | Some (minor, s) \<Rightarrow> let l = l\<lparr>ml_count := 5\<rparr> in
                    (case scan_number 10 s of None \<Rightarrow> l
                     | Some (ino, s) \<Rightarrow>
                         let l = l\<lparr>ml_count := 6, ml_key := Inode_Key (makedev major minor) ino\<rparr> in
                         (case scan_word 255 s of None \<Rightarrow> l
                          | Some (file, _) \<Rightarrow> l\<lparr>ml_count := 7, ml_file := file\<rparr>)))))))"

lemma dropWhile_digits:
  "list_all (is_digit b) ds \<Longrightarrow> \<not> is_digit b c \<Longrightarrow>
   takeWhile (is_digit b) (ds @ c # s) = ds \<and> dropWhile (is_digit b) (ds @ c # s) = c # s"
  by (induction ds) auto

lemma digit_not_space: "is_digit b c \<Longrightarrow> \<not> is_space c"
  by (auto simp: is_digit_def is_space_def digit_of_def)

text \<open>A number that a character other than the literal follows ends the scan.\<close>

lemma parse_wrong_literal:
  assumes "list_all (is_digit b) ds" and "ds \<noteq> []" and "\<not> is_digit b c" and "c \<noteq> CHR ''-''"
  shows "ml_count (parse_maps_line b d (ds @ c # s)) = 1"
proof -
  from assms(1,2) obtain e es where "ds = e # es" "is_digit b e" by (cases ds) auto
  then have "dropWhile is_space (ds @ c # s) = ds @ c # s" using digit_not_space by auto
  with dropWhile_digits [OF assms(1,3), of s] have
    "scan_number b (ds @ c # s) = Some (number_of b 0 ds, c # s)"
    using assms(2) by (simp add: scan_number_def)
  with assms(4) show ?thesis by (simp add: parse_maps_line_def scan_literal_def no_line_def)
qed

end
