(* ===== verification/Binary_Search.thy ===== *)
theory Binary_Search
  imports Prelude
begin

text \<open>
  The loop that src/process.c (symbols) and src/leakdetect.c (blocks) share, word for word: it
  narrows a pair of 32 bit indices until they are neighbours. \<open>key i\<close> is the address of the
  element at index \<open>i\<close>, \<open>None\<close> past the end of the array. The condition \<open>first < last - 1\<close> is
  computed on \<open>guint\<close>s and wraps around when \<open>last\<close> is 0.
\<close>

partial_function (option) bracket_loop :: "(nat \<Rightarrow> ptr option) \<Rightarrow> ptr \<Rightarrow> u32 \<Rightarrow> u32 \<Rightarrow> u32 option" where
  "bracket_loop key a first lst =
     (if first < lst - 1
      then let middle = (first + lst) div 2 in
        (case key (unat middle) of None \<Rightarrow> None
         | Some k \<Rightarrow> if a < k then bracket_loop key a first middle
                    else bracket_loop key a middle lst)
      else Some first)"

text \<open>
  Between two indices in the array, with \<open>a\<close> below the upper one, the loop ends between two
  neighbours. Nothing here needs the array to be sorted.
\<close>

lemma bracket_loop_bracket:
  "unat first < unat lst \<Longrightarrow> unat lst < n \<Longrightarrow> n \<le> 2 ^ 31 \<Longrightarrow>
   (\<And>i. i < n \<Longrightarrow> key i = Some (f i)) \<Longrightarrow> a < f (unat lst) \<Longrightarrow>
   \<exists>i. bracket_loop key a first lst = Some i \<and> unat first \<le> unat i \<and> unat i < unat lst \<and>
     a < f (Suc (unat i)) \<and> (i = first \<or> f (unat i) \<le> a)"
proof (induction "unat lst - unat first" arbitrary: first lst rule: less_induct)
  case less
  have nz: "lst \<noteq> 0" using less.prems(1) by auto
  show ?case
  proof (cases "first < lst - 1")
    case False
    then have "unat lst - 1 \<le> unat first" using nz by (simp add: word_less_nat_alt unat_pred)
    with less.prems have "unat lst = Suc (unat first)" by simp
    with False less.prems show ?thesis by (subst bracket_loop.simps) simp
  next
    case True
    let ?m = "(first + lst) div 2"
    have gap: "unat first < unat lst - 1" using True nz by (simp add: word_less_nat_alt unat_pred)
    have m: "unat ?m = (unat first + unat lst) div 2" using less.prems by (intro unat_mid) simp
    then have b: "unat first < unat ?m" "unat ?m < unat lst" using gap by auto
    then have at: "key (unat ?m) = Some (f (unat ?m))" using less.prems by simp
    show ?thesis
    proof (cases "a < f (unat ?m)")
      case lt: True
      have "unat ?m - unat first < unat lst - unat first" using b by simp
      from less.hyps [OF this b(1) _ less.prems(3,4) lt] b less.prems(2) obtain i where
        "bracket_loop key a first ?m = Some i" "unat first \<le> unat i" "unat i < unat ?m"
        "a < f (Suc (unat i))" "i = first \<or> f (unat i) \<le> a" by auto
      with True at lt b show ?thesis by (subst bracket_loop.simps) (auto simp: Let_def)
    next
      case ge: False
      have "unat lst - unat ?m < unat lst - unat first" using b by simp
      from less.hyps [OF this b(2) less.prems(2,3,4,5)] obtain i where
        "bracket_loop key a ?m lst = Some i" "unat ?m \<le> unat i" "unat i < unat lst"
        "a < f (Suc (unat i))" "i = ?m \<or> f (unat i) \<le> a" by auto
      with True at ge b show ?thesis by (subst bracket_loop.simps) (auto simp: Let_def)
    qed
  qed
qed

text \<open>Started with both indices at 0, below the first element, the loop never ends.\<close>

lemma bracket_loop_hangs:
  assumes "key 0 = Some k" and "a < k"
  shows "bracket_loop key a 0 0 = None"
proof -
  have wrap: "(0 :: u32) < 0 - 1" by (simp add: word_gt_0)
  let ?P = "\<lambda>key a first lst (y :: u32).
    \<not> (first = 0 \<and> lst = (0 :: u32) \<and> (\<exists>k :: ptr. key (0 :: nat) = Some k \<and> a < k))"
  have "?P key a first lst y" if "bracket_loop key a first lst = Some y" for key a first lst y
    by (rule bracket_loop.raw_induct [where P = ?P, OF _ that])
      (use wrap in \<open>fastforce simp: Let_def split: if_splits\<close>)
  with assms show ?thesis by (cases "bracket_loop key a 0 0") blast+
qed

end
