(* ===== verification/Symbols.thy ===== *)
theory Symbols
  imports Inode Proc_Maps Binary_Search Stackstash_Inv
begin

text \<open>
  From addresses to symbols (src/process.c): the maps of a process, the symbols of a map, the
  binary search for the symbol of an address, the lines of a stack dump. The functions return
  the process (which caches maps and pages without a map), the table of inodes and their
  result; \<open>None\<close> is a run that crashes or never returns.
\<close>

section \<open>The symbols of a map\<close>

definition compare_address :: "symbol \<Rightarrow> symbol \<Rightarrow> int" where
  "compare_address a b = (if s_addr a < s_addr b then -1 else if s_addr a = s_addr b then 0 else 1)"

definition text_symbol :: "asymbol \<Rightarrow> bool" where
  "text_symbol a \<longleftrightarrow> as_function a \<and> as_section a = ''.text''"

fun collect_symbols :: "env \<Rightarrow> mp_map \<Rightarrow> asymbol list \<Rightarrow> symbol list" where
  "collect_symbols env m [] = []"
| "collect_symbols env m (a # as) =
     (if text_symbol a
      then \<lparr>s_addr = as_value a, s_size = 0, s_name = demangle env m (as_name a)\<rparr>
             # collect_symbols env m as
      else collect_symbols env m as)"

definition prepare_map :: "env \<Rightarrow> mp_map \<Rightarrow> mp_map" where
  "prepare_map env m =
     (if m_prepared m then m
      else let m = read_bfd env (m\<lparr>m_prepared := True\<rparr>) in
        case m_syms m of None \<Rightarrow> m
        | Some syms \<Rightarrow>
            let result = sort_symbols env (collect_symbols env m syms);
                m = m\<lparr>m_symbols := Some result\<rparr>
            in if \<not> m_do_offset m \<and> result \<noteq> [] \<and> s_addr (last result) < m_addr m
               then m\<lparr>m_do_offset := True\<rparr> else m)"

section \<open>The maps of a process\<close>

text \<open>A line that maps executable code privately adds a map at the front of the list.\<close>

definition read_map_line :: "env \<Rightarrow> maps_line \<Rightarrow> mp_process \<times> inode_state \<Rightarrow> mp_process \<times> inode_state" where
  "read_map_line env l ps =
     (let (p, s) = ps in
      if ml_count l \<ge> 6 \<and> ml_perms l = ''r-xp'' then
        let (p, s, name) =
              (if ml_count l = 7
               then (p\<lparr>p_strings := Suc (p_strings p)\<rparr>, s, Some (CStr (Strdup (p_strings p)) (ml_file l)))
               else let (s, name) = locate_inode env (ml_key l) s in (p, s, name));
            do_offset = (case name of None \<Rightarrow> True
              | Some c \<Rightarrow> (case file_id env (text_of c) of None \<Rightarrow> True
                 | Some k1 \<Rightarrow> (case exe_id env (p_pid p) of None \<Rightarrow> True
                    | Some k2 \<Rightarrow> k1 \<noteq> k2)));
            m = \<lparr>m_addr = ml_start l, m_size = ml_end l - ml_start l, m_name = name,
                 m_symbols = None, m_syms = None, m_do_offset = do_offset, m_prepared = False\<rparr>
        in (p\<lparr>p_map_list := m # p_map_list p\<rparr>, s)
      else (p, s))"

fun read_map_lines ::
    "env \<Rightarrow> maps_line list \<Rightarrow> mp_process \<times> inode_state \<Rightarrow> mp_process \<times> inode_state" where
  "read_map_lines env [] ps = ps"
| "read_map_lines env (l # ls) ps = read_map_lines env ls (read_map_line env l ps)"

text \<open>The code reads from the stream without a check that \<open>fopen\<close> succeeded.\<close>

definition process_read_maps ::
    "env \<Rightarrow> mp_process \<times> inode_state \<Rightarrow> (mp_process \<times> inode_state) option" where
  "process_read_maps env ps =
     (let (p, s) = ps in
      case proc_maps env (p_pid p) of None \<Rightarrow> None
      | Some ls \<Rightarrow> Some (read_map_lines env (map (parse_maps_line 16 16) ls) (p\<lparr>p_map_list := []\<rparr>, s)))"

definition in_map :: "mp_map \<Rightarrow> ptr \<Rightarrow> bool" where
  "in_map m a \<longleftrightarrow> m_addr m \<le> a \<and> a < m_addr m + m_size m"

text \<open>The index of the first map that covers an address.\<close>

fun real_locate_map :: "mp_map list \<Rightarrow> ptr \<Rightarrow> nat option" where
  "real_locate_map [] a = None"
| "real_locate_map (m # ms) a =
     (if in_map m a then Some 0 else map_option Suc (real_locate_map ms a))"

definition MP_PAGE_SIZE :: ptr where "MP_PAGE_SIZE = 4096"

definition page_addr :: "ptr \<Rightarrow> ptr" where
  "page_addr a = a - a mod MP_PAGE_SIZE"

text \<open>The end of \<open>locate_map\<close>: the map found is prepared in place.\<close>

definition use_map :: "env \<Rightarrow> nat \<Rightarrow> mp_process \<Rightarrow> mp_process \<times> mp_map" where
  "use_map env i p =
     (let m = p_map_list p ! i;
          m = (if m_prepared m then m else prepare_map env m)
      in (p\<lparr>p_map_list := (p_map_list p)[i := m]\<rparr>, m))"

definition locate_map ::
    "env \<Rightarrow> ptr \<Rightarrow> mp_process \<times> inode_state \<Rightarrow> (mp_process \<times> inode_state \<times> mp_map option) option" where
  "locate_map env a ps =
     (case real_locate_map (p_map_list (fst ps)) a of
        Some i \<Rightarrow> let (p, m) = use_map env i (fst ps) in Some (p, snd ps, Some m)
      | None \<Rightarrow>
          if page_addr a \<in> set (p_bad_pages (fst ps)) then Some (fst ps, snd ps, None)
          else (case process_read_maps env ps of None \<Rightarrow> None
            | Some (p, s) \<Rightarrow> (case real_locate_map (p_map_list p) a of
                Some i \<Rightarrow> let (p, m) = use_map env i p in Some (p, s, Some m)
              | None \<Rightarrow> Some (p\<lparr>p_bad_pages := page_addr a # p_bad_pages p\<rparr>, s, None))))"

section \<open>The symbol of an address\<close>

text \<open>The loop of the binary search, on the addresses of the symbols.\<close>

definition symbol_search :: "symbol list \<Rightarrow> ptr \<Rightarrow> u32 \<Rightarrow> u32 \<Rightarrow> u32 option" where
  "symbol_search data = bracket_loop (\<lambda>i. map_option s_addr (at data i))"

definition find_symbol :: "symbol list \<Rightarrow> ptr \<Rightarrow> cstr option" where
  "find_symbol data a =
     (let lst = of_nat (length data) - 1 in
      case at data (unat lst) of None \<Rightarrow> None
      | Some y \<Rightarrow>
          if a < s_addr y
          then do { first \<leftarrow> symbol_search data a 0 lst; x \<leftarrow> at data (unat first); Some (s_name x) }
          else Some (s_name y))"

definition process_locate_symbol ::
    "env \<Rightarrow> ptr \<Rightarrow> mp_process \<times> inode_state \<Rightarrow> (mp_process \<times> inode_state \<times> cstr option) option" where
  "process_locate_symbol env a ps =
     (case locate_map env a ps of None \<Rightarrow> None
      | Some (p, s, None) \<Rightarrow> Some (p, s, Some (CStr Literal ''<unknown map>''))
      | Some (p, s, Some m) \<Rightarrow>
          (case m_symbols m of None \<Rightarrow> Some (p, s, m_name m)
           | Some data \<Rightarrow>
               if data = [] then Some (p, s, m_name m)
               else do {
                 n \<leftarrow> find_symbol data (if m_do_offset m then a - m_addr m else a);
                 Some (p, s, Some n)
               }))"

section \<open>Lines and dumps\<close>

definition process_find_line ::
    "env \<Rightarrow> ptr \<Rightarrow> mp_process \<times> inode_state \<Rightarrow>
     (mp_process \<times> inode_state \<times> (string option \<times> string \<times> u32) option) option" where
  "process_find_line env a ps =
     (case locate_map env a ps of None \<Rightarrow> None
      | Some (p, s, None) \<Rightarrow> Some (p, s, None)
      | Some (p, s, Some m) \<Rightarrow>
          Some (p, s, find_line env m (if m_do_offset m then a - m_addr m else a)))"

definition dump_frame ::
    "env \<Rightarrow> ptr \<Rightarrow> mp_process \<times> inode_state \<Rightarrow> (mp_process \<times> inode_state \<times> dump_line) option" where
  "dump_frame env a ps = do {
     (p, s, r) \<leftarrow> process_find_line env a ps;
     Some (p, s, case r of None \<Rightarrow> Dump_Address a
       | Some (Some file, f, line) \<Rightarrow> Dump_Line f file line
       | Some (None, f, line) \<Rightarrow> Dump_Function f)
   }"

partial_function (option) process_dump_stack ::
    "env \<Rightarrow> (nref \<rightharpoonup> stack_node) \<Rightarrow> nref option \<Rightarrow> mp_process \<times> inode_state \<Rightarrow>
     (mp_process \<times> inode_state \<times> dump_line list) option" where
  "process_dump_stack env m stack ps =
     (case stack of None \<Rightarrow> Some (fst ps, snd ps, [])
      | Some r \<Rightarrow> (case m r of None \<Rightarrow> None
         | Some nd \<Rightarrow>
             Option.bind (dump_frame env (sn_address nd) ps) (\<lambda>psl.
             Option.bind (process_dump_stack env m (sn_parent nd) (fst psl, fst (snd psl))) (\<lambda>psls.
             Some (fst psls, fst (snd psls), snd (snd psl) # snd (snd psls))))))"

fun prepare_sections :: "env \<Rightarrow> mp_map list \<Rightarrow> mp_map list \<times> (ptr \<times> u32) list" where
  "prepare_sections env [] = ([], [])"
| "prepare_sections env (m # ms) =
     (let m = (if m_prepared m then m else prepare_map env m);
          (ms, calls) = prepare_sections env ms
      in (m # ms, map_sections env m @ calls))"

text \<open>The calls \<open>process_sections\<close> makes to its function argument, in order.\<close>

definition process_sections ::
    "env \<Rightarrow> mp_process \<times> inode_state \<Rightarrow> (mp_process \<times> inode_state \<times> (ptr \<times> u32) list) option" where
  "process_sections env ps = do {
     (p, s) \<leftarrow> process_read_maps env ps;
     let (ms, calls) = prepare_sections env (p_map_list p);
     Some (p\<lparr>p_map_list := ms\<rparr>, s, calls)
   }"

section \<open>The search\<close>

lemma symbol_search_bracket:
  "unat first < unat lst \<Longrightarrow> unat lst < length data \<Longrightarrow> length data \<le> 2 ^ 31 \<Longrightarrow>
   a < s_addr (data ! unat lst) \<Longrightarrow>
   \<exists>i. symbol_search data a first lst = Some i \<and> unat first \<le> unat i \<and> unat i < unat lst \<and>
     a < s_addr (data ! Suc (unat i)) \<and> (i = first \<or> s_addr (data ! unat i) \<le> a)"
  unfolding symbol_search_def
  by (rule bracket_loop_bracket [where f = "\<lambda>i. s_addr (data ! i)"]) (simp_all add: at_def)

lemma symbol_search_hangs:
  assumes "a < s_addr (data ! 0)" and "data \<noteq> []"
  shows "symbol_search data a 0 0 = None"
  unfolding symbol_search_def
  by (rule bracket_loop_hangs [where k = "s_addr (data ! 0)"]) (use assms in \<open>simp_all add: at_def\<close>)

definition sorted_symbols :: "symbol list \<Rightarrow> bool" where
  "sorted_symbols data \<longleftrightarrow> sorted (map s_addr data)"

lemma sorted_symbolsD:
  "sorted_symbols data \<Longrightarrow> i \<le> j \<Longrightarrow> j < length data \<Longrightarrow> s_addr (data ! i) \<le> s_addr (data ! j)"
  using sorted_nth_mono [of "map s_addr data" i j] by (simp add: sorted_symbols_def)

text \<open>What the search of a sorted array answers, on each of its branches.\<close>

definition nearest :: "symbol list \<Rightarrow> ptr \<Rightarrow> nat \<Rightarrow> bool" where
  "nearest data a i \<longleftrightarrow> i < length data \<and> s_addr (data ! i) \<le> a \<and>
     (\<forall>j < length data. s_addr (data ! j) \<le> a \<longrightarrow> j \<le> i)"

lemma find_symbol_spec:
  assumes s: "sorted_symbols data" and ne: "data \<noteq> []" and len: "length data \<le> 2 ^ 31"
  shows "if s_addr (hd data) \<le> a
    then \<exists>i. find_symbol data a = Some (s_name (data ! i)) \<and> nearest data a i
    else find_symbol data a = (if length data = 1 then None else Some (s_name (hd data)))"
proof -
  define lst :: u32 where "lst = of_nat (length data) - 1"
  have "unat (of_nat (length data) :: u32) = length data"
    using len by (intro unat_of_nat_small) simp
  moreover from this ne have "(of_nat (length data) :: u32) \<noteq> 0" by auto
  ultimately have l: "unat lst = length data - 1" unfolding lst_def by (simp add: unat_pred)
  have lt: "unat lst < length data" using l ne by (cases data) simp_all
  have hd: "hd data = data ! 0" using ne by (simp add: hd_conv_nth)
  have fs: "find_symbol data a = (if a < s_addr (data ! unat lst)
      then do { first \<leftarrow> symbol_search data a 0 lst; x \<leftarrow> at data (unat first); Some (s_name x) }
      else Some (s_name (data ! unat lst)))"
    using lt by (simp add: find_symbol_def lst_def [symmetric] at_in Let_def)
  show ?thesis
  proof (cases "a < s_addr (data ! unat lst)")
    case False
    have mono: "s_addr (data ! j) \<le> s_addr (data ! unat lst)" if "j < length data" for j
      using sorted_symbolsD [OF s _ lt, of j] l that by simp
    have "nearest data a (unat lst)" using False lt l by (auto simp: nearest_def)
    moreover have "s_addr (hd data) \<le> a" using mono [of 0] False ne hd by (simp add: not_less)
    ultimately show ?thesis using False fs by auto
  next
    case True
    show ?thesis
    proof (cases "length data = 1")
      case one: True
      then have z: "lst = 0" using l by (simp add: unat_eq_zero)
      with True have "a < s_addr (hd data)" using hd by simp
      moreover have "find_symbol data a = None"
        using fs True z symbol_search_hangs [of a data] ne by simp
      ultimately show ?thesis using one by auto
    next
      case False
      then have "0 < length data - 1" using ne by (cases data) (auto simp: neq_Nil_conv)
      then have "unat (0 :: u32) < unat lst" using l by simp
      from symbol_search_bracket [OF this lt len True] obtain i where
        i: "symbol_search data a 0 lst = Some i" "unat i < unat lst"
          "a < s_addr (data ! Suc (unat i))" "i = 0 \<or> s_addr (data ! unat i) \<le> a" by auto
      have res: "find_symbol data a = Some (s_name (data ! unat i))"
        using fs True i lt by (simp add: at_in)
      show ?thesis
      proof (cases "s_addr (hd data) \<le> a")
        case le: True
        have "j \<le> unat i" if "j < length data" "s_addr (data ! j) \<le> a" for j
        proof (rule ccontr)
          assume "\<not> j \<le> unat i"
          with sorted_symbolsD [OF s, of "Suc (unat i)" j] that have
            "s_addr (data ! Suc (unat i)) \<le> s_addr (data ! j)" by simp
          with that i(3) show False by simp
        qed
        moreover have "s_addr (data ! unat i) \<le> a" using i(4) le hd by auto
        ultimately have "nearest data a (unat i)" using i(2) lt by (simp add: nearest_def)
        with res le show ?thesis by auto
      next
        case gt: False
        have "i = 0"
        proof (rule ccontr)
          assume "i \<noteq> 0"
          with i(4) have "s_addr (data ! unat i) \<le> a" by simp
          moreover have "s_addr (data ! 0) \<le> s_addr (data ! unat i)"
            using sorted_symbolsD [OF s, of 0 "unat i"] i(2) lt by simp
          ultimately show False using gt hd by simp
        qed
        with res gt False hd show ?thesis by simp
      qed
    qed
  qed
qed

section \<open>The maps stay sound\<close>

text \<open>
  What is relied on: \<open>qsort\<close> sorts by \<open>compare_address\<close>; \<open>read_bfd\<close> fills in symbols of the
  object file and leaves the fields it does not own alone (an object file has fewer than
  \<open>2 ^ 31\<close> symbols).
\<close>

definition qsort_ok :: "env \<Rightarrow> bool" where
  "qsort_ok env \<longleftrightarrow> (\<forall>xs. mset (sort_symbols env xs) = mset xs \<and>
     sorted_wrt (\<lambda>a b. compare_address a b \<le> 0) (sort_symbols env xs))"

definition bfd_ok :: "env \<Rightarrow> bool" where
  "bfd_ok env \<longleftrightarrow> (\<forall>m. m_addr (read_bfd env m) = m_addr m \<and> m_size (read_bfd env m) = m_size m \<and>
     m_symbols (read_bfd env m) = m_symbols m \<and> m_prepared (read_bfd env m) = m_prepared m \<and>
     (\<forall>syms. m_syms (read_bfd env m) = Some syms \<longrightarrow> length syms < 2 ^ 31))"

definition map_ok :: "mp_map \<Rightarrow> bool" where
  "map_ok m \<longleftrightarrow> (\<not> m_prepared m \<longrightarrow> m_symbols m = None) \<and>
     (\<forall>data. m_symbols m = Some data \<longrightarrow> sorted_symbols data \<and> length data < 2 ^ 31 \<and>
        (\<exists>syms. m_syms m = Some syms \<and> s_addr ` set data = as_value ` {a \<in> set syms. text_symbol a}))"

definition maps_ok :: "mp_process \<Rightarrow> bool" where
  "maps_ok p \<longleftrightarrow> (\<forall>m \<in> set (p_map_list p). map_ok m)"

lemma compare_address_le: "compare_address a b \<le> 0 \<longleftrightarrow> s_addr a \<le> s_addr b"
  by (auto simp: compare_address_def)

lemma qsort_okD:
  assumes "qsort_ok env"
  shows "mset (sort_symbols env xs) = mset xs" "sorted_symbols (sort_symbols env xs)"
  using assms by (simp_all add: qsort_ok_def sorted_symbols_def sorted_map compare_address_le)

lemma collect_symbols_addr:
  "s_addr ` set (collect_symbols env m as) = as_value ` {a \<in> set as. text_symbol a}"
  by (induction as) auto

lemma length_collect: "length (collect_symbols env m as) \<le> length as"
  by (induction as) auto

lemma prepare_map_ok:
  assumes q: "qsort_ok env" and b: "bfd_ok env" and m: "map_ok m"
  shows "map_ok (prepare_map env m)" "m_prepared (prepare_map env m)"
    "in_map (prepare_map env m) a \<longleftrightarrow> in_map m a"
proof -
  let ?m = "read_bfd env (m\<lparr>m_prepared := True\<rparr>)"
  have bfd: "m_addr ?m = m_addr m" "m_size ?m = m_size m" "m_symbols ?m = m_symbols m" "m_prepared ?m"
    "\<And>syms. m_syms ?m = Some syms \<Longrightarrow> length syms < 2 ^ 31"
    using b by (simp_all add: bfd_ok_def)
  have "map_ok (prepare_map env m) \<and> m_prepared (prepare_map env m) \<and>
      (in_map (prepare_map env m) a \<longleftrightarrow> in_map m a)"
  proof (cases "m_prepared m")
    case True
    with m show ?thesis by (simp add: prepare_map_def)
  next
    case fresh: False
    with m have "m_symbols m = None" by (simp add: map_ok_def)
    show ?thesis
    proof (cases "m_syms ?m")
      case None
      with fresh bfd \<open>m_symbols m = None\<close> show ?thesis
        by (simp add: prepare_map_def map_ok_def in_map_def)
    next
      case (Some syms)
      let ?cs = "collect_symbols env ?m syms"
      have set: "set (sort_symbols env ?cs) = set ?cs"
        using qsort_okD(1) [OF q, of ?cs] by (metis set_mset_mset)
      have len: "length (sort_symbols env ?cs) = length ?cs"
        using qsort_okD(1) [OF q, of ?cs] by (metis size_mset)
      have "length ?cs < 2 ^ 31"
        using length_collect [of env ?m syms] bfd(5) [OF Some] by simp
      with set len Some fresh bfd qsort_okD(2) [OF q] show ?thesis
        by (simp add: prepare_map_def map_ok_def in_map_def collect_symbols_addr Let_def)
    qed
  qed
  then show "map_ok (prepare_map env m)" "m_prepared (prepare_map env m)"
    "in_map (prepare_map env m) a \<longleftrightarrow> in_map m a" by simp_all
qed

lemma maps_ok_upd [simp]:
  "maps_ok (p\<lparr>p_bad_pages := bs\<rparr>) = maps_ok p" "maps_ok (p\<lparr>p_strings := n\<rparr>) = maps_ok p"
  by (simp_all add: maps_ok_def)

lemma read_map_line_ok: "maps_ok (fst ps) \<Longrightarrow> maps_ok (fst (read_map_line env l ps))"
  by (cases ps)
    (auto simp: read_map_line_def Let_def maps_ok_def map_ok_def split: prod.splits)

lemma read_map_lines_ok: "maps_ok (fst ps) \<Longrightarrow> maps_ok (fst (read_map_lines env ls ps))"
  by (induction env ls ps rule: read_map_lines.induct) (simp_all add: read_map_line_ok)

lemma process_read_maps_ok: "process_read_maps env ps = Some ps' \<Longrightarrow> maps_ok (fst ps')"
  unfolding process_read_maps_def
  by (cases ps) (auto simp: Let_def maps_ok_def [of "p_map_list_update _ _"]
      intro!: read_map_lines_ok split: option.splits)

lemma real_locate_map_Some:
  "real_locate_map ms a = Some i \<Longrightarrow> i < length ms \<and> in_map (ms ! i) a \<and> (\<forall>j < i. \<not> in_map (ms ! j) a)"
proof (induction ms a arbitrary: i rule: real_locate_map.induct)
  case (2 m ms a)
  show ?case
  proof (cases "in_map m a")
    case True
    with 2 show ?thesis by simp
  next
    case False
    with 2 obtain k where "real_locate_map ms a = Some k" "i = Suc k" by auto
    with 2 False show ?thesis by (auto simp: less_Suc_eq_0_disj)
  qed
qed simp

lemma real_locate_map_None: "real_locate_map ms a = None \<longleftrightarrow> (\<forall>m \<in> set ms. \<not> in_map m a)"
  by (induction ms a rule: real_locate_map.induct) auto

lemma use_map_ok:
  assumes env: "qsort_ok env" "bfd_ok env" and p: "maps_ok p"
    and i: "real_locate_map (p_map_list p) a = Some i" and u: "use_map env i p = (p', m)"
  shows "maps_ok p' \<and> m \<in> set (p_map_list p') \<and> in_map m a \<and> m_prepared m"
proof -
  let ?m = "p_map_list p ! i"
  from real_locate_map_Some [OF i] have i': "i < length (p_map_list p)" "in_map ?m a" by auto
  then have ok: "map_ok ?m" using p by (simp add: maps_ok_def)
  have m: "m = (if m_prepared ?m then ?m else prepare_map env ?m)"
    "p' = p\<lparr>p_map_list := (p_map_list p)[i := m]\<rparr>"
    using u by (auto simp: use_map_def Let_def)
  have "map_ok m \<and> in_map m a \<and> m_prepared m"
    using prepare_map_ok [OF env ok] ok i'(2) m(1) by simp
  moreover have "set ((p_map_list p)[i := m]) \<subseteq> insert m (set (p_map_list p))"
    by (rule set_update_subset_insert)
  moreover have "m \<in> set ((p_map_list p)[i := m])" using i'(1) by (rule set_update_memI)
  ultimately show ?thesis using p m(2) by (auto simp: maps_ok_def)
qed

lemma locate_map_ok:
  assumes env: "qsort_ok env" "bfd_ok env" and p: "maps_ok (fst ps)"
    and r: "locate_map env a ps = Some (p', s', r)"
  shows "maps_ok p' \<and>
    (case r of None \<Rightarrow> page_addr a \<in> set (p_bad_pages p') \<and> (\<forall>m \<in> set (p_map_list p'). \<not> in_map m a)
     | Some m \<Rightarrow> m \<in> set (p_map_list p') \<and> in_map m a \<and> m_prepared m)"
proof (cases "real_locate_map (p_map_list (fst ps)) a")
  case (Some i)
  with r use_map_ok [OF env p Some] show ?thesis
    by (cases "use_map env i (fst ps)") (auto simp: locate_map_def)
next
  case none: None
  show ?thesis
  proof (cases "page_addr a \<in> set (p_bad_pages (fst ps))")
    case True
    with none r p real_locate_map_None [of "p_map_list (fst ps)" a] show ?thesis
      by (auto simp: locate_map_def)
  next
    case False
    with none r obtain q t where q: "process_read_maps env ps = Some (q, t)"
      by (auto simp: locate_map_def split: option.splits)
    then have ok: "maps_ok q" using process_read_maps_ok by fastforce
    show ?thesis
    proof (cases "real_locate_map (p_map_list q) a")
      case None
      with none False q r ok real_locate_map_None [of "p_map_list q" a] show ?thesis
        by (auto simp: locate_map_def)
    next
      case (Some i)
      with none False q r use_map_ok [OF env ok Some] show ?thesis
        by (cases "use_map env i q") (auto simp: locate_map_def)
    qed
  qed
qed

section \<open>Lookups only touch the caches of a process\<close>

definition recached :: "mp_process \<Rightarrow> mp_process \<Rightarrow> bool" where
  "recached p p' \<longleftrightarrow>
     (\<exists>ms bs n. p' = p\<lparr>p_map_list := ms, p_bad_pages := bs, p_strings := n\<rparr>)"

lemma recachedI:
  "p' = p\<lparr>p_map_list := p_map_list p', p_bad_pages := p_bad_pages p', p_strings := p_strings p'\<rparr> \<Longrightarrow>
   recached p p'"
  unfolding recached_def by blast

lemma recached_refl [simp, intro]: "recached p p"
  by (rule recachedI) simp

lemma recached_trans [trans]: "recached p q \<Longrightarrow> recached q r \<Longrightarrow> recached p r"
  by (rule recachedI) (auto simp: recached_def)

lemma recached_upd [intro, simp]:
  "recached p (p\<lparr>p_map_list := ms\<rparr>)" "recached p (p\<lparr>p_bad_pages := bs\<rparr>)"
  "recached p (p\<lparr>p_strings := n\<rparr>)"
  by (rule recachedI, simp)+

lemma recached_frame [frame_rules]:
  assumes "recached p p'"
  shows "p_status p' = p_status p" "p_pid p' = p_pid p" "p_clone_of p' = p_clone_of p"
    "p_parent p' = p_parent p" "p_seqno p' = p_seqno p" "p_bytes_used p' = p_bytes_used p"
    "p_n_allocations p' = p_n_allocations p" "p_input_tag p' = p_input_tag p"
    "p_input_channel p' = p_input_channel p" "p_block_table p' = p_block_table p"
    "p_stack_stash p' = p_stack_stash p" "p_command_queue p' = p_command_queue p"
    "p_follow_fork p' = p_follow_fork p" "p_follow_exec p' = p_follow_exec p"
    "p_program_name p' = p_program_name p"
  using assms unfolding recached_def by auto

lemma read_map_line_frame: "recached (fst ps) (fst (read_map_line env l ps))"
  by (cases ps) (auto simp: read_map_line_def Let_def intro!: recachedI split: prod.splits)

lemma read_map_lines_frame: "recached (fst ps) (fst (read_map_lines env ls ps))"
  by (induction env ls ps rule: read_map_lines.induct)
    (auto intro: recached_trans read_map_line_frame)

lemma process_read_maps_frame:
  assumes "process_read_maps env ps = Some ps'"
  shows "recached (fst ps) (fst ps')"
proof -
  obtain p s where ps: "ps = (p, s)" by (cases ps)
  from assms ps obtain ls where "ps' = read_map_lines env ls (p\<lparr>p_map_list := []\<rparr>, s)"
    by (auto simp: process_read_maps_def split: option.splits)
  then have "recached (p\<lparr>p_map_list := []\<rparr>) (fst ps')"
    using read_map_lines_frame [of "(p\<lparr>p_map_list := []\<rparr>, s)" env ls] by simp
  with ps show ?thesis by (auto intro: recached_trans [rotated])
qed

lemma use_map_frame: "use_map env i p = (p', m) \<Longrightarrow> recached p p'"
  by (auto simp: use_map_def Let_def)

lemma locate_map_frame:
  assumes "locate_map env a ps = Some (p', s', r)"
  shows "recached (fst ps) p'"
proof (cases "process_read_maps env ps")
  case None
  with assms use_map_frame [of env _ "fst ps"] show ?thesis
    by (auto simp: locate_map_def split: option.splits if_splits prod.splits)
next
  case (Some qt)
  obtain q t where qt: "qt = (q, t)" by (cases qt)
  have q: "recached (fst ps) q" using process_read_maps_frame [OF Some] qt by simp
  have u: "recached (fst ps) p'" if "use_map env i q = (p', m)" for i m
    using q use_map_frame [OF that] by (rule recached_trans)
  have b: "recached (fst ps) (q\<lparr>p_bad_pages := bs\<rparr>)" for bs
    using q by (rule recached_trans) simp
  from assms Some qt use_map_frame [of env _ "fst ps"] u b show ?thesis
    by (auto simp: locate_map_def split: option.splits if_splits prod.splits)
qed

lemma locate_map_total:
  "proc_maps env (p_pid (fst ps)) \<noteq> None \<Longrightarrow> \<exists>p' s' r. locate_map env a ps = Some (p', s', r)"
  by (cases ps)
    (auto simp: locate_map_def process_read_maps_def Let_def split: option.splits prod.splits)

lemma dump_frame_total:
  assumes "proc_maps env (p_pid (fst ps)) \<noteq> None"
  shows "\<exists>p' s' l. dump_frame env a ps = Some (p', s', l) \<and> recached (fst ps) p'"
proof -
  from locate_map_total [OF assms] obtain p' s' r where
    r: "locate_map env a ps = Some (p', s', r)" by blast
  have "recached (fst ps) p'" by (rule locate_map_frame [OF r])
  with r show ?thesis by (cases r) (simp_all add: dump_frame_def process_find_line_def)
qed

text \<open>The dump of a stack that can be walked prints a line for each frame.\<close>

lemma process_dump_stack_total:
  "frames_of m stack = Some as \<Longrightarrow> proc_maps env (p_pid (fst ps)) \<noteq> None \<Longrightarrow>
   \<exists>p' s' ls. process_dump_stack env m stack ps = Some (p', s', ls) \<and> recached (fst ps) p' \<and>
     length ls = length as"
proof (induction as arbitrary: stack ps)
  case Nil
  then have "stack = None"
    by (subst (asm) frames_of.simps) (auto split: option.splits Option.bind_splits)
  then show ?case by (subst process_dump_stack.simps) auto
next
  case (Cons a as)
  then obtain r nd where r: "stack = Some r" "m r = Some nd" "sn_address nd = a"
    "frames_of m (sn_parent nd) = Some as"
    by (subst (asm) frames_of.simps) (auto split: option.splits Option.bind_splits)
  from dump_frame_total [OF Cons.prems(2), of a] obtain p1 s1 l where
    l: "dump_frame env a ps = Some (p1, s1, l)" "recached (fst ps) p1" by blast
  have "proc_maps env (p_pid (fst (p1, s1))) \<noteq> None"
    using Cons.prems(2) l(2) by (simp add: frame_rules)
  from Cons.IH [OF r(4) this] obtain p' s' ls where
    ls: "process_dump_stack env m (sn_parent nd) (p1, s1) = Some (p', s', ls)"
      "recached p1 p'" "length ls = length as" by auto
  have "recached (fst ps) p'" using l(2) ls(2) by (rule recached_trans)
  with r l ls show ?case by (subst process_dump_stack.simps) simp
qed

section \<open>Dumps as a walk followed by lookups\<close>

fun dump_frames ::
    "env \<Rightarrow> ptr list \<Rightarrow> mp_process \<times> inode_state \<Rightarrow> (mp_process \<times> inode_state \<times> dump_line list) option" where
  "dump_frames env [] ps = Some (fst ps, snd ps, [])"
| "dump_frames env (a # as) ps = do {
     (p, s, l) \<leftarrow> dump_frame env a ps;
     (p, s, ls) \<leftarrow> dump_frames env as (p, s);
     Some (p, s, l # ls)
   }"

lemma dump_stack_frames:
  "frames_of m stack = Some as \<Longrightarrow> process_dump_stack env m stack ps = dump_frames env as ps"
proof (induction as arbitrary: stack ps)
  case Nil
  then have "stack = None"
    by (subst (asm) frames_of.simps) (auto split: option.splits Option.bind_splits)
  then show ?case by (subst process_dump_stack.simps) auto
next
  case (Cons a as)
  then obtain r nd where r: "stack = Some r" "m r = Some nd" "sn_address nd = a"
    "frames_of m (sn_parent nd) = Some as"
    by (subst (asm) frames_of.simps) (auto split: option.splits Option.bind_splits)
  have "process_dump_stack env m (sn_parent nd) = dump_frames env as"
    using Cons.IH [OF r(4)] by blast
  with r show ?case
    by (subst process_dump_stack.simps) (auto simp: case_prod_beta intro!: Option.bind_cong)
qed

lemma dump_stack_walk:
  "process_dump_stack env m stack ps = Some r \<Longrightarrow> frames_of m stack \<noteq> None"
proof -
  let ?P = "\<lambda>(env :: env) m stack (ps :: mp_process \<times> inode_state) (r :: mp_process \<times> inode_state \<times> dump_line list).
    frames_of m stack \<noteq> None"
  assume r: "process_dump_stack env m stack ps = Some r"
  have "?P env m stack ps r"
  proof (rule process_dump_stack.raw_induct [where P = ?P, OF _ r])
    fix f :: "env \<Rightarrow> (nref \<rightharpoonup> stack_node) \<Rightarrow> nref option \<Rightarrow> mp_process \<times> inode_state \<Rightarrow>
      (mp_process \<times> inode_state \<times> dump_line list) option"
    fix env m stack ps y
    assume IH: "\<And>env m stack ps y. f env m stack ps = Some y \<Longrightarrow> frames_of m stack \<noteq> None"
      and y: "(case stack of None \<Rightarrow> Some (fst ps, snd ps, [])
        | Some r \<Rightarrow> (case m r of None \<Rightarrow> None
           | Some nd \<Rightarrow>
               Option.bind (dump_frame env (sn_address nd) ps) (\<lambda>psl.
               Option.bind (f env m (sn_parent nd) (fst psl, fst (snd psl))) (\<lambda>psls.
               Some (fst psls, fst (snd psls), snd (snd psl) # snd (snd psls)))))) = Some y"
    show "frames_of m stack \<noteq> None"
    proof (cases stack)
      case None
      then show ?thesis by (subst frames_of.simps) simp
    next
      case (Some r)
      with y obtain nd where nd: "m r = Some nd" by (auto split: option.splits)
      with y Some obtain p s z where "f env m (sn_parent nd) (p, s) = Some z"
        by (auto simp: bind_eq_Some)
      from IH [OF this] nd Some show ?thesis by (subst frames_of.simps) auto
    qed
  qed
  then show ?thesis .
qed

lemma dump_stack_eq:
  "process_dump_stack env m stack ps = Option.bind (frames_of m stack) (\<lambda>as. dump_frames env as ps)"
proof (cases "frames_of m stack")
  case None
  with dump_stack_walk [of env m stack ps] have "process_dump_stack env m stack ps = None"
    by (cases "process_dump_stack env m stack ps") auto
  with None show ?thesis by simp
qed (simp add: dump_stack_frames)

section \<open>Lookups do not read the queue of commands\<close>

abbreviation with_queue :: "command list \<Rightarrow> mp_process \<Rightarrow> mp_process" where
  "with_queue q p \<equiv> p\<lparr>p_command_queue := q\<rparr>"

lemma read_map_line_queue:
  "read_map_line env l (with_queue q p, s) = apfst (with_queue q) (read_map_line env l (p, s))"
  by (cases p) (auto simp: read_map_line_def Let_def split: prod.splits option.splits)

lemma read_map_lines_queue:
  "read_map_lines env ls (with_queue q p, s) = apfst (with_queue q) (read_map_lines env ls (p, s))"
proof (induction ls arbitrary: p s)
  case (Cons l ls)
  then show ?case by (cases "read_map_line env l (p, s)") (simp add: read_map_line_queue)
qed simp

lemma process_read_maps_queue:
  "process_read_maps env (with_queue q p, s) =
   map_option (apfst (with_queue q)) (process_read_maps env (p, s))"
  using read_map_lines_queue [of env _ q "p\<lparr>p_map_list := []\<rparr>" s]
  by (cases p) (auto simp: process_read_maps_def split: option.splits)

lemma use_map_queue: "use_map env i (with_queue q p) = apfst (with_queue q) (use_map env i p)"
  by (cases p) (simp add: use_map_def Let_def)

lemma bad_pages_queue: "with_queue q p\<lparr>p_bad_pages := bs\<rparr> = with_queue q (p\<lparr>p_bad_pages := bs\<rparr>)"
  by (cases p) simp

lemma locate_map_queue:
  "locate_map env a (with_queue q p, s) =
   map_option (apfst (with_queue q)) (locate_map env a (p, s))"
proof (cases "real_locate_map (p_map_list p) a")
  case (Some i)
  then show ?thesis
    by (cases "use_map env i p") (simp add: locate_map_def use_map_queue)
next
  case none: None
  show ?thesis
  proof (cases "page_addr a \<in> set (p_bad_pages p) \<or> process_read_maps env (p, s) = None")
    case True
    with none show ?thesis by (auto simp: locate_map_def process_read_maps_queue)
  next
    case False
    then obtain p1 s1 where p1: "process_read_maps env (p, s) = Some (p1, s1)" by auto
    show ?thesis
    proof (cases "real_locate_map (p_map_list p1) a")
      case None
      with none False p1 show ?thesis
        by (simp add: locate_map_def process_read_maps_queue bad_pages_queue)
    next
      case (Some i)
      with none False p1 show ?thesis
        by (cases "use_map env i p1") (simp add: locate_map_def process_read_maps_queue use_map_queue)
    qed
  qed
qed

lemma dump_frame_queue:
  "dump_frame env a (with_queue q p, s) =
   map_option (apfst (with_queue q)) (dump_frame env a (p, s))"
  by (auto simp: dump_frame_def process_find_line_def locate_map_queue split: option.splits)

lemma dump_frames_queue:
  "dump_frames env as (with_queue q p, s) =
   map_option (apfst (with_queue q)) (dump_frames env as (p, s))"
proof (induction as arbitrary: p s)
  case (Cons a as)
  show ?case
  proof (cases "dump_frame env a (p, s)")
    case (Some r)
    obtain p1 s1 l where "r = (p1, s1, l)" by (cases r)
    with Some Cons [of p1 s1] show ?thesis
      by (cases "dump_frames env as (p1, s1)") (auto simp: dump_frame_queue)
  qed (simp add: dump_frame_queue)
qed simp

lemma dump_stack_queue:
  "process_dump_stack env m stack (with_queue q p, s) =
   map_option (apfst (with_queue q)) (process_dump_stack env m stack (p, s))"
  by (cases "frames_of m stack") (simp_all add: dump_stack_eq dump_frames_queue)

section \<open>Properties\<close>

text \<open>
  Property C15: the symbol of an address, on every branch. When \<open>locate_map\<close> finds a map, it is a
  prepared map of the process that covers the address. Without symbols the answer is the name
  of the map. Otherwise, if the address (relative to the map where \<open>do_offset\<close> says so) is at
  or above the first symbol, the answer is the last symbol at or below it. Below the first
  symbol the answer is the first symbol, unless the map has just one: then the search does
  not return.
\<close>

theorem locate_symbol_correct:
  assumes "qsort_ok env" and "bfd_ok env" and "maps_ok p"
    and "locate_map env a (p, s) = Some (p', s', Some m)"
  shows "maps_ok p' \<and> m \<in> set (p_map_list p') \<and> in_map m a \<and> m_prepared m \<and>
    (m_symbols m \<in> {None, Some []} \<longrightarrow> process_locate_symbol env a (p, s) = Some (p', s', m_name m)) \<and>
    (\<forall>data. m_symbols m = Some data \<and> data \<noteq> [] \<longrightarrow>
       (let off = (if m_do_offset m then a - m_addr m else a) in
        if s_addr (hd data) \<le> off
        then \<exists>i. process_locate_symbol env a (p, s) = Some (p', s', Some (s_name (data ! i))) \<and>
               nearest data off i
        else process_locate_symbol env a (p, s) =
               (if length data = 1 then None else Some (p', s', Some (s_name (hd data))))))"
proof -
  have l: "maps_ok p'" "m \<in> set (p_map_list p')" "in_map m a" "m_prepared m"
    using locate_map_ok [OF assms(1,2) _ assms(4)] assms(3) by simp_all
  have some: "process_locate_symbol env a (p, s) =
      map_option (\<lambda>n. (p', s', Some n)) (find_symbol data (if m_do_offset m then a - m_addr m else a))"
    if "m_symbols m = Some data" "data \<noteq> []" for data
    using that assms(4)
    by (cases "find_symbol data (if m_do_offset m then a - m_addr m else a)")
      (simp_all add: process_locate_symbol_def)
  have none: "process_locate_symbol env a (p, s) = Some (p', s', m_name m)"
    if "m_symbols m \<in> {None, Some []}"
    using that assms(4) by (auto simp: process_locate_symbol_def)
  have data: "sorted_symbols data \<and> length data \<le> 2 ^ 31" if "m_symbols m = Some data" for data
    using l(1,2) that by (auto simp: maps_ok_def map_ok_def)
  show ?thesis
  proof (intro conjI l impI allI none)
    fix data assume d: "m_symbols m = Some data \<and> data \<noteq> []"
    define off where "off = (if m_do_offset m then a - m_addr m else a)"
    from find_symbol_spec [of data off] d data
    show "let off = (if m_do_offset m then a - m_addr m else a) in
        if s_addr (hd data) \<le> off
        then \<exists>i. process_locate_symbol env a (p, s) = Some (p', s', Some (s_name (data ! i))) \<and>
               nearest data off i
        else process_locate_symbol env a (p, s) =
               (if length data = 1 then None else Some (p', s', Some (s_name (hd data))))"
      unfolding off_def [symmetric] Let_def by (auto simp: some off_def [symmetric])
  qed
qed

text \<open>An instance: a program that maps its code at \<open>0x1000\<close>, with three symbols.\<close>

definition prog_syms :: "asymbol list" where
  "prog_syms = [\<lparr>as_function = True, as_section = ''.text'', as_value = 0x1200, as_name = ''main''\<rparr>,
     \<lparr>as_function = True, as_section = ''.text'', as_value = 0x1100, as_name = ''helper''\<rparr>,
     \<lparr>as_function = False, as_section = ''.data'', as_value = 0x1300, as_name = ''table''\<rparr>,
     \<lparr>as_function = True, as_section = ''.text'', as_value = 0x1400, as_name = ''last''\<rparr>]"

definition prog_env :: env where
  "prog_env = lib_env\<lparr>
     proc_maps := (\<lambda>_. Some [''00001000-00002000 r-xp 00000000 08:02 30 /bin/prog'']),
     file_id := (\<lambda>f. if f = ''/bin/prog'' then Some (Inode_Key 8 30) else None),
     exe_id := (\<lambda>_. Some (Inode_Key 8 30)),
     sort_symbols := sort_key s_addr,
     read_bfd := (\<lambda>m. m\<lparr>m_syms := Some prog_syms\<rparr>)\<rparr>"

definition running_process :: "pid \<Rightarrow> mp_process" where
  "running_process pid = \<lparr>p_status = MP_PROCESS_RUNNING, p_pid = pid, p_program_name = None,
     p_clone_of = None, p_parent = None, p_seqno = 0, p_bytes_used = 0, p_n_allocations = 0,
     p_input_tag = False, p_input_channel = None, p_map_list = [], p_bad_pages = [],
     p_block_table = None, p_stack_stash = None, p_command_queue = [], p_follow_fork = False,
     p_follow_exec = False, p_strings = 0\<rparr>"

lemma prog_line: "parse_maps_line 16 16 ''00001000-00002000 r-xp 00000000 08:02 30 /bin/prog'' =
    \<lparr>ml_count = 7, ml_start = 0x1000, ml_end = 0x2000, ml_perms = ''r-xp'',
      ml_key = Inode_Key (8 * 2 ^ 32 + 2) 30, ml_file = ''/bin/prog''\<rparr>"
  by code_simp

lemma prog_env_ok: "qsort_ok prog_env" "bfd_ok prog_env"
proof -
  have "sorted_wrt (\<lambda>a b. compare_address a b \<le> 0) (sort_key s_addr xs)" for xs
    using sorted_sort_key [of s_addr xs] unfolding compare_address_le sorted_map .
  then show "qsort_ok prog_env" by (simp add: qsort_ok_def prog_env_def)
  show "bfd_ok prog_env" by (simp add: bfd_ok_def prog_env_def prog_syms_def)
qed

definition prog_map :: mp_map where
  "prog_map = \<lparr>m_addr = 0x1000, m_size = 0x1000, m_name = Some (CStr (Strdup 0) ''/bin/prog''),
     m_symbols = Some [
       \<lparr>s_addr = 0x1100, s_size = 0, s_name = CStr Literal ''helper''\<rparr>,
       \<lparr>s_addr = 0x1200, s_size = 0, s_name = CStr Literal ''main''\<rparr>,
       \<lparr>s_addr = 0x1400, s_size = 0, s_name = CStr Literal ''last''\<rparr>],
     m_syms = Some prog_syms, m_do_offset = False, m_prepared = True\<rparr>"

lemma prog_locate: "locate_map prog_env 0x1280 (running_process 7, no_inodes) =
    Some ((running_process 7)\<lparr>p_map_list := [prog_map], p_strings := 1\<rparr>, no_inodes, Some prog_map)"
  by (simp add: locate_map_def running_process_def process_read_maps_def prog_env_def lib_env_def prog_line
      read_map_line_def in_map_def use_map_def prepare_map_def prog_syms_def text_symbol_def
      prog_map_def Let_def)

theorem locate_symbol_correct_witness:
  "\<exists>i. process_locate_symbol prog_env 0x1280 (running_process 7, no_inodes) =
     Some ((running_process 7)\<lparr>p_map_list := [prog_map], p_strings := 1\<rparr>, no_inodes,
       Some (s_name (the (m_symbols prog_map) ! i))) \<and>
     nearest (the (m_symbols prog_map)) 0x1280 i"
proof -
  have "maps_ok (running_process 7)" by (simp add: maps_ok_def running_process_def)
  from locate_symbol_correct [OF prog_env_ok this prog_locate] show ?thesis
    by (simp add: prog_map_def)
qed


text \<open>
  Property C17: a page that no map covers is looked up once. After a lookup that found no map,
  a lookup in the same page that the maps do not cover either changes nothing, reads nothing
  (the answer is the same whatever \<open>/proc\<close> now says) and finds no map.
\<close>

theorem bad_page_looked_up_once:
  assumes "locate_map env a ps = Some (p', s', None)" and "page_addr b = page_addr a"
    and "real_locate_map (p_map_list p') b = None"
  shows "locate_map env' b (p', s') = Some (p', s', None)"
proof -
  have "page_addr a \<in> set (p_bad_pages p')"
    using assms(1) by (auto simp: locate_map_def split: option.splits if_splits prod.splits)
  with assms show ?thesis by (simp add: locate_map_def)
qed

theorem bad_page_looked_up_once_witness:
  "locate_map lib_env 0x5010
     ((running_process 7)\<lparr>p_map_list := [(prog_map\<lparr>m_prepared := False, m_symbols := None, m_syms := None\<rparr>)],
       p_bad_pages := [0x5000], p_strings := 1\<rparr>, no_inodes) =
   Some ((running_process 7)\<lparr>p_map_list := [(prog_map\<lparr>m_prepared := False, m_symbols := None, m_syms := None\<rparr>)],
       p_bad_pages := [0x5000], p_strings := 1\<rparr>, no_inodes, None)"
  by (rule bad_page_looked_up_once [where env = prog_env and a = "0x5FFF" and ps = "(running_process 7, no_inodes)"])
    (simp_all add: locate_map_def running_process_def process_read_maps_def prog_env_def lib_env_def prog_line
      read_map_line_def in_map_def page_addr_def MP_PAGE_SIZE_def prog_map_def)

end
