(* ===== verification/Sequencer.thy ===== *)
theory Sequencer
  imports Prelude
begin

text \<open>
  The contract between a stream of numbered commands and the process that executes them. The
  threads and clones of a traced program share one counter of sequence numbers but write to
  different sockets, so commands reach the profiler in any order; \<open>process_command\<close> executes a
  command when its number is due, holds the others back in a sorted queue, and drains the
  queue after each command it executes. The locale states what such a consumer promises, and
  derives that the order of arrival does not matter.
\<close>

fun run_in_order :: "('c \<Rightarrow> 's \<Rightarrow> 's option) \<Rightarrow> 'c list \<Rightarrow> 's \<Rightarrow> 's option" where
  "run_in_order step [] s = Some s"
| "run_in_order step (c # cs) s = Option.bind (step c s) (run_in_order step cs)"

lemma run_in_order_append:
  "run_in_order step (xs @ ys) s = Option.bind (run_in_order step xs s) (run_in_order step ys)"
  by (induction xs arbitrary: s) (auto split: Option.bind_split)

lemma run_in_order_take:
  assumes "run_in_order step cs s = Some s'"
  shows "\<exists>t. run_in_order step (take k cs) s = Some t"
proof -
  have "run_in_order step (take k cs @ drop k cs) s = Some s'" using assms by simp
  then show ?thesis unfolding run_in_order_append by (auto simp: bind_eq_Some)
qed

text \<open>The commands are numbered consecutively from \<open>n\<close>, without a wrap-around.\<close>

definition numbered :: "('c \<Rightarrow> u32) \<Rightarrow> u32 \<Rightarrow> 'c list \<Rightarrow> bool" where
  "numbered seq n cs \<longleftrightarrow> unat n + length cs < 2 ^ 32 \<and>
     (\<forall>j < length cs. seq (cs ! j) = n + of_nat j)"

definition index_from :: "('c \<Rightarrow> u32) \<Rightarrow> u32 \<Rightarrow> 'c \<Rightarrow> nat" where
  "index_from seq n c = unat (seq c) - unat n"

lemma numbered_seq:
  assumes "numbered seq n cs" and "j < length cs"
  shows "unat (seq (cs ! j)) = unat n + j" "index_from seq n (cs ! j) = j"
proof -
  have "unat n + j < 2 ^ 32" using assms by (simp add: numbered_def)
  then have "unat (n + of_nat j) = unat n + j"
    by (simp add: unat_word_ariths unat_of_nat)
  then show "unat (seq (cs ! j)) = unat n + j" using assms by (simp add: numbered_def)
  then show "index_from seq n (cs ! j) = j" by (simp add: index_from_def)
qed

lemma numbered_inj: "numbered seq n cs \<Longrightarrow> inj_on seq (set cs)"
  by (intro inj_onI) (metis in_set_conv_nth numbered_seq(2) index_from_def)

lemma numbered_distinct: "numbered seq n cs \<Longrightarrow> distinct cs"
  by (metis distinct_conv_nth numbered_seq(2))

locale sequencer =
  fixes seq :: "'c \<Rightarrow> u32"
    and next_no :: "'s \<Rightarrow> u32"
    and queue :: "'s \<Rightarrow> 'c list"
    and set_queue :: "'c list \<Rightarrow> 's \<Rightarrow> 's"
    and insert_cmd :: "'c \<Rightarrow> 'c list \<Rightarrow> 'c list"
    and execute :: "'c \<Rightarrow> 's \<Rightarrow> 's option"
    and deliver :: "'c \<Rightarrow> 's \<Rightarrow> 's option"
    and drain :: "'s \<Rightarrow> 's option"
  assumes queue_set [simp]: "queue (set_queue q s) = q"
    and set_set [simp]: "set_queue q (set_queue r s) = set_queue q s"
    and set_id [simp]: "set_queue (queue s) s = s"
    and next_set [simp]: "next_no (set_queue q s) = next_no s"
    and insert_mset: "mset (insert_cmd c q) = add_mset c (mset q)"
    and insert_sorted: "sorted (map seq q) \<Longrightarrow> sorted (map seq (insert_cmd c q))"
    and execute_next: "execute c s = Some s' \<Longrightarrow> next_no s' = next_no s + 1"
    and execute_queue: "execute c (set_queue q s) = map_option (set_queue q) (execute c s)"
    and deliver_early: "seq c \<noteq> next_no s \<Longrightarrow>
      deliver c s = Some (set_queue (insert_cmd c (queue s)) s)"
    and deliver_due: "seq c = next_no s \<Longrightarrow> deliver c s = Option.bind (execute c s) drain"
    and drain_empty: "queue s = [] \<Longrightarrow> drain s = Some s"
    and drain_early: "queue s = c # q \<Longrightarrow> seq c \<noteq> next_no s \<Longrightarrow> drain s = Some s"
    and drain_due: "queue s = c # q \<Longrightarrow> seq c = next_no s \<Longrightarrow>
      drain s = Option.bind (deliver c (set_queue q s)) drain"
begin

text \<open>A queue that holds nothing due is left alone.\<close>

definition waiting :: "'s \<Rightarrow> bool" where
  "waiting s \<longleftrightarrow> (case queue s of [] \<Rightarrow> True | c # q \<Rightarrow> seq c \<noteq> next_no s)"

lemma drain_waiting: "waiting s \<Longrightarrow> drain s = Some s"
  by (auto simp: waiting_def drain_empty drain_early split: list.splits)

text \<open>Executing does not look at the queue.\<close>

lemma run_queue:
  "run_in_order execute cs (set_queue q s) = map_option (set_queue q) (run_in_order execute cs s)"
proof (induction cs arbitrary: s)
  case (Cons c cs)
  then show ?case by (cases "execute c s") (simp_all add: execute_queue)
qed simp

lemma run_next:
  "run_in_order execute cs s = Some t \<Longrightarrow> next_no t = next_no s + of_nat (length cs)"
proof (induction cs arbitrary: s)
  case (Cons c cs)
  then obtain u where "execute c s = Some u" "run_in_order execute cs u = Some t"
    by (auto simp: bind_eq_Some)
  with Cons.IH [of u] show ?case by (simp add: execute_next)
qed simp

lemma numbered_tail:
  assumes "numbered seq n (c # cs)"
  shows "seq c = n" "numbered seq (n + 1) cs"
proof -
  from assms show "seq c = n" by (auto simp: numbered_def)
  have "unat n + 1 < 2 ^ 32" using assms by (simp add: numbered_def)
  then have "unat (n + 1) = unat n + 1" by (simp add: unat_word_ariths)
  moreover have "seq (cs ! j) = n + 1 + of_nat j" if "j < length cs" for j
  proof -
    have "seq ((c # cs) ! Suc j) = n + of_nat (Suc j)"
      using assms that unfolding numbered_def by (metis Suc_less_eq length_Cons)
    then show ?thesis by simp
  qed
  ultimately show "numbered seq (n + 1) cs" using assms by (simp add: numbered_def)
qed

text \<open>
  Draining executes the longest prefix of the queue that is due. \<open>cs\<close> are the commands from
  the next number on, in order.
\<close>

lemma drain_prefix:
  "queue s = q \<Longrightarrow> run_in_order execute cs s = Some s' \<Longrightarrow> numbered seq (next_no s) cs \<Longrightarrow>
   set q \<subseteq> set cs \<Longrightarrow> distinct q \<Longrightarrow>
   \<exists>k t. drain s = Some (set_queue (drop k q) t) \<and> run_in_order execute (take k cs) s = Some t \<and>
     k \<le> length q \<and> take k q = take k cs \<and> waiting (set_queue (drop k q) t)"
proof (induction q arbitrary: s cs s')
  case Nil
  then have "waiting s" by (simp add: waiting_def)
  moreover have "set_queue [] s = s" using Nil(1) set_id [of s] by simp
  ultimately show ?case by (intro exI [of _ 0] exI [of _ s]) (simp add: drain_waiting)
next
  case (Cons c q)
  show ?case
  proof (cases "seq c = next_no s")
    case False
    with Cons.prems(1) have "waiting s" by (simp add: waiting_def)
    moreover have "set_queue (c # q) s = s" using Cons.prems(1) set_id [of s] by simp
    ultimately show ?thesis by (intro exI [of _ 0] exI [of _ s]) (simp add: drain_waiting)
  next
    case True
    from Cons.prems(4) obtain d cs' where cs: "cs = d # cs'" by (cases cs) auto
    have num: "seq d = next_no s" "numbered seq (next_no s + 1) cs'"
      using numbered_tail Cons.prems(3) cs by auto
    have "d = c"
      by (rule inj_onD [OF numbered_inj [OF Cons.prems(3)]]) (use True num cs Cons.prems(4) in auto)
    with Cons.prems(2) cs obtain t where t: "execute c s = Some t"
      "run_in_order execute cs' t = Some s'" by (auto simp: bind_eq_Some)
    have run: "run_in_order execute cs' (set_queue q t) = Some (set_queue q s')"
      using t(2) by (simp add: run_queue)
    have "numbered seq (next_no (set_queue q t)) cs'"
      using num(2) execute_next [OF t(1)] by simp
    moreover have "set q \<subseteq> set cs'" "distinct q"
      using Cons.prems(4,5) cs \<open>d = c\<close> by auto
    moreover have "queue (set_queue q t) = q" by (rule queue_set)
    ultimately obtain k u where
      k: "drain (set_queue q t) = Some (set_queue (drop k q) u)"
        "run_in_order execute (take k cs') (set_queue q t) = Some u" "k \<le> length q"
        "take k q = take k cs'" "waiting (set_queue (drop k q) u)"
      using Cons.IH [OF _ run] by blast
    from k(2) obtain v where v: "run_in_order execute (take k cs') t = Some v" "u = set_queue q v"
      by (auto simp: run_queue)
    have "deliver c (set_queue q s) = Some (set_queue (drop k q) v)"
      using True t(1) k(1) v(2) by (simp add: deliver_due execute_queue)
    then have "drain s = Some (set_queue (drop k q) v)"
      using Cons.prems(1) True k(5) v(2) by (simp add: drain_due drain_waiting)
    then show ?thesis using k v t(1) cs \<open>d = c\<close>
      by (intro exI [of _ "Suc k"] exI [of _ v]) simp
  qed
qed

text \<open>
  What has been delivered so far determines the state: the longest prefix that has arrived
  completely is executed, the rest waits in order.
\<close>

definition arrived :: "'c list \<Rightarrow> 's \<Rightarrow> 'c set \<Rightarrow> 's \<Rightarrow> bool" where
  "arrived cs s D st \<longleftrightarrow>
     (\<exists>k t q. st = set_queue q t \<and> run_in_order execute (take k cs) s = Some t \<and> k \<le> length cs \<and>
        sorted (map seq q) \<and> distinct q \<and> set q = D - set (take k cs) \<and>
        set (take k cs) \<subseteq> D \<and> (k < length cs \<longrightarrow> cs ! k \<notin> D))"

lemma numbered_drop:
  assumes "numbered seq n cs" and "k \<le> length cs"
  shows "numbered seq (n + of_nat k) (drop k cs)"
proof -
  have "unat n + k < 2 ^ 32" using assms by (simp add: numbered_def)
  then have "unat (n + of_nat k) = unat n + k" by (simp add: unat_word_ariths unat_of_nat)
  with assms show ?thesis by (simp add: numbered_def add.assoc)
qed

text \<open>The head of a sorted queue is due if the command that is due is in it at all.\<close>

lemma waiting_due:
  assumes num: "numbered seq n cs" and q: "sorted (map seq q)" "set q \<subseteq> set (drop k cs)"
    and k: "k < length cs" and w: "waiting (set_queue q t)" and nt: "next_no t = n + of_nat k"
  shows "cs ! k \<notin> set q"
proof
  assume mem: "cs ! k \<in> set q"
  then obtain h q' where h: "q = h # q'" by (cases q) auto
  with q(2) have "h \<in> set (drop k cs)" by simp
  then obtain i where "i < length (drop k cs)" "h = drop k cs ! i" by (auto simp: in_set_conv_nth)
  then have i: "k + i < length cs" "h = cs ! (k + i)" using k by simp_all
  have "seq h \<le> seq (cs ! k)" using q(1) mem h by auto
  then have "i = 0" using numbered_seq(1) [OF num] i k by (simp add: word_le_nat_alt)
  with i have "seq h = n + of_nat k" using num k by (simp add: numbered_def)
  with w h nt show False by (simp add: waiting_def)
qed

lemma deliver_arrived:
  assumes num: "numbered seq (next_no s) cs" and run: "run_in_order execute cs s = Some s'"
    and st: "arrived cs s D st" and c: "c \<in> set cs" "c \<notin> D" and D: "D \<subseteq> set cs"
  shows "\<exists>st'. deliver c st = Some st' \<and> arrived cs s (insert c D) st'"
proof -
  from st obtain k t q where k: "st = set_queue q t" "run_in_order execute (take k cs) s = Some t"
    "k \<le> length cs" "sorted (map seq q)" "distinct q" "set q = D - set (take k cs)"
    "set (take k cs) \<subseteq> D" "k < length cs \<longrightarrow> cs ! k \<notin> D"
    unfolding arrived_def by blast
  have nt: "next_no t = next_no s + of_nat k" using run_next [OF k(2)] k(3) by simp
  have dist: "distinct cs" by (rule numbered_distinct [OF num])
  have c_take: "c \<notin> set (take k cs)" using k(7) c(2) by auto
  show ?thesis
  proof (cases "k < length cs \<and> c = cs ! k")
    case False
    have "seq c \<noteq> next_no t"
    proof
      assume due: "seq c = next_no t"
      from c(1) obtain j where j: "j < length cs" "c = cs ! j" by (auto simp: in_set_conv_nth)
      have "unat (next_no s) + k < 2 ^ 32" using num k(3) by (simp add: numbered_def)
      then have "unat (next_no t) = unat (next_no s) + k"
        unfolding nt by (simp add: unat_word_ariths unat_of_nat)
      with due numbered_seq(1) [OF num j(1)] j(2) have "j = k" by simp
      with j False show False by simp
    qed
    then have "deliver c st = Some (set_queue (insert_cmd c q) t)"
      using k(1) by (simp add: deliver_early)
    moreover have "arrived cs s (insert c D) (set_queue (insert_cmd c q) t)"
      unfolding arrived_def
    proof (intro exI conjI)
      have "mset (insert_cmd c q) = mset (c # q)" by (simp add: insert_mset)
      then have "distinct (insert_cmd c q) = distinct (c # q)" "set (insert_cmd c q) = set (c # q)"
        by (rule mset_eq_imp_distinct_iff, rule mset_eq_setD)
      then show "distinct (insert_cmd c q)" "set (insert_cmd c q) = insert c D - set (take k cs)"
        using k(5,6) c(2) c_take by auto
    qed (use k insert_sorted False in auto)
    ultimately show ?thesis by blast
  next
    case True
    let ?cs = "drop (Suc k) cs"
    have split: "take (Suc k) cs = take k cs @ [c]" using True by (simp add: take_Suc_conv_app_nth)
    have "run_in_order execute (take (Suc k) cs @ ?cs) s = Some s'" using run by simp
    then obtain t1 where t1: "run_in_order execute (take (Suc k) cs) s = Some t1"
      "run_in_order execute ?cs t1 = Some s'" unfolding run_in_order_append by (auto simp: bind_eq_Some)
    then have ex: "execute c t = Some t1"
      using k(2) unfolding split run_in_order_append by (simp add: bind_eq_Some)
    have due: "seq c = next_no t" using nt num True by (simp add: numbered_def)
    have n1: "next_no t1 = next_no s + of_nat (Suc k)" using run_next [OF t1(1)] True by simp
    have num1: "numbered seq (next_no t1) ?cs"
      unfolding n1 by (rule numbered_drop [OF num]) (use True in simp)
    have cs_set: "set cs = set (take (Suc k) cs) \<union> set ?cs"
      by (metis append_take_drop_id set_append)
    have sub: "set q \<subseteq> set ?cs" using k(6) D c(2) cs_set split by auto
    have runq: "run_in_order execute ?cs (set_queue q t1) = Some (set_queue q s')"
      using t1(2) by (simp add: run_queue)
    have numq: "numbered seq (next_no (set_queue q t1)) ?cs" using num1 by simp
    from drain_prefix [OF queue_set runq numq sub k(5)] obtain l u where
      l: "drain (set_queue q t1) = Some (set_queue (drop l q) u)"
        "run_in_order execute (take l ?cs) (set_queue q t1) = Some u" "l \<le> length q"
        "take l q = take l ?cs" "waiting (set_queue (drop l q) u)" by blast
    from l(2) obtain v where v: "run_in_order execute (take l ?cs) t1 = Some v" "u = set_queue q v"
      by (auto simp: run_queue)
    let ?k = "Suc k + l"
    have "length (take l q) = length (take l ?cs)" using l(4) by simp
    then have "l \<le> length ?cs" using l(3) by (simp only: length_take min_def split: if_splits)
    moreover have "k < length cs" using True by simp
    ultimately have lcs: "?k \<le> length cs" by simp
    have tk: "take ?k cs = take k cs @ c # take l q"
      using split l(4) by (simp only: take_add) simp
    have setq: "set q = set (take l q) \<union> set (drop l q)" "set (take l q) \<inter> set (drop l q) = {}"
      using k(5) by (metis append_take_drop_id set_append, metis append_take_drop_id distinct_append)
    have "deliver c st = Some (set_queue (drop l q) v)"
      using k(1) due ex l(1) v(2) by (simp add: deliver_due execute_queue)
    moreover have "arrived cs s (insert c D) (set_queue (drop l q) v)"
      unfolding arrived_def
    proof (intro exI conjI)
      show run_v: "run_in_order execute (take ?k cs) s = Some v"
        using t1(1) v(1) by (simp only: take_add run_in_order_append) simp
      show "?k \<le> length cs" by (rule lcs)
      show sorted: "sorted (map seq (drop l q))" using k(4) by (metis drop_map sorted_wrt_drop)
      show "distinct (drop l q)" using k(5) by simp
      show setd: "set (drop l q) = insert c D - set (take ?k cs)"
        unfolding tk using setq k(6) c(2) by auto
      show "set (take ?k cs) \<subseteq> insert c D" unfolding tk using k(6,7) setq(1) by auto
      show "?k < length cs \<longrightarrow> cs ! ?k \<notin> insert c D"
      proof
        assume lt: "?k < length cs"
        have "next_no v = next_no s + of_nat ?k" using run_next [OF run_v] lt by simp
        moreover have "waiting (set_queue (drop l q) v)" using l(5) v(2) by simp
        moreover have "set (drop l q) \<subseteq> set (drop ?k cs)"
        proof -
          have "set ?cs = set (take l ?cs) \<union> set (drop l ?cs)" by (metis append_take_drop_id set_append)
          with sub setq l(4) show ?thesis by (auto simp: add.commute)
        qed
        ultimately have "cs ! ?k \<notin> set (drop l q)" using waiting_due [OF num sorted _ lt] by blast
        moreover have "cs ! ?k \<notin> set (take ?k cs)"
          using dist lt by (auto simp: in_set_conv_nth nth_eq_iff_index_eq)
        ultimately show "cs ! ?k \<notin> insert c D" using setd by blast
      qed
    qed (rule refl)
    ultimately show ?thesis by blast
  qed
qed

lemma arrived_start: "queue s = [] \<Longrightarrow> arrived cs s {} s"
  unfolding arrived_def using set_id [of s]
  by (intro exI [of _ 0] exI [of _ s] exI [of _ "[]"]) simp

lemma deliver_all:
  assumes num: "numbered seq (next_no s) cs" and run: "run_in_order execute cs s = Some s'"
  shows "arrived cs s D st \<Longrightarrow> D \<subseteq> set cs \<Longrightarrow> set ds \<subseteq> set cs \<Longrightarrow> distinct ds \<Longrightarrow>
    set ds \<inter> D = {} \<Longrightarrow> \<exists>st'. run_in_order deliver ds st = Some st' \<and> arrived cs s (D \<union> set ds) st'"
proof (induction ds arbitrary: st D)
  case Nil
  then show ?case by simp
next
  case (Cons c ds)
  then have c: "c \<in> set cs" "c \<notin> D" by auto
  from deliver_arrived [OF num run Cons.prems(1) c Cons.prems(2)] obtain st1 where
    st1: "deliver c st = Some st1" "arrived cs s (insert c D) st1" by blast
  have "set ds \<inter> insert c D = {}" using Cons.prems by auto
  with Cons.IH [OF st1(2)] Cons.prems c obtain st' where
    "run_in_order deliver ds st1 = Some st'" "arrived cs s (insert c D \<union> set ds) st'" by auto
  with st1(1) show ?case by simp
qed

text \<open>When everything has arrived, the result is that of the order of the numbers.\<close>

lemma any_order:
  assumes num: "numbered seq (next_no s) cs" and run: "run_in_order execute cs s = Some s'"
    and q: "queue s = []" and ds: "mset ds = mset cs"
  shows "run_in_order deliver ds s = Some s'"
proof -
  have set: "set ds = set cs" using ds by (rule mset_eq_setD)
  have "distinct ds" using mset_eq_imp_distinct_iff [OF ds] numbered_distinct [OF num] by simp
  with deliver_all [OF num run arrived_start [OF q], of ds] set obtain st' where
    st': "run_in_order deliver ds s = Some st'" "arrived cs s (set cs) st'" by auto
  then obtain k t p where k: "st' = set_queue p t" "run_in_order execute (take k cs) s = Some t"
    "k \<le> length cs" "set p = set cs - set (take k cs)" "k < length cs \<longrightarrow> cs ! k \<notin> set cs"
    unfolding arrived_def by blast
  then have "k = length cs" by (metis le_neq_implies_less nth_mem)
  with k run have "p = []" "t = s'" by simp_all
  moreover have "set_queue [] s' = s'"
  proof -
    have "run_in_order execute cs (set_queue [] s) = Some (set_queue [] s')"
      using run by (simp add: run_queue)
    moreover have "set_queue [] s = s" using q set_id [of s] by simp
    ultimately show ?thesis using run by simp
  qed
  ultimately show ?thesis using st'(1) k(1) by simp
qed

text \<open>At every moment before that, a command waits exactly when an earlier one is missing.\<close>

lemma partial_order:
  assumes num: "numbered seq (next_no s) cs" and run: "run_in_order execute cs s = Some s'"
    and q: "queue s = []" and ds: "set ds \<subseteq> set cs" "distinct ds"
  shows "\<exists>k t p. run_in_order deliver ds s = Some (set_queue p t) \<and> k \<le> length cs \<and>
    run_in_order execute (take k cs) s = Some t \<and>
    set (take k cs) \<subseteq> set ds \<and> (k < length cs \<longrightarrow> cs ! k \<notin> set ds) \<and>
    sorted (map seq p) \<and> distinct p \<and> set p = set ds - set (take k cs)"
proof -
  from deliver_all [OF num run arrived_start [OF q], of ds] ds obtain st' where
    "run_in_order deliver ds s = Some st'" "arrived cs s (set ds) st'" by auto
  then show ?thesis unfolding arrived_def by blast
qed

end

end
