(* ===== verification/Process_Command.thy ===== *)
theory Process_Command
  imports Symbols Sequencer
begin

text \<open>
  The commands of a traced process (src/process.c): the queue that puts them in order and
  \<open>process_command\<close>, which applies an allocation, a reallocation or a release to the table of
  live blocks and keeps the two totals that the user interface shows.
\<close>

section \<open>The queue\<close>

definition queue_compare :: "command \<Rightarrow> command \<Rightarrow> int" where
  "queue_compare a b =
     (if i_seqno (c_info a) < i_seqno (c_info b) then -1
      else if i_seqno (c_info a) > i_seqno (c_info b) then 1 else 0)"

text \<open>\<open>g_list_insert_sorted\<close>: in front of the first element that is not smaller.\<close>

fun g_list_insert_sorted :: "('a \<Rightarrow> 'a \<Rightarrow> int) \<Rightarrow> 'a \<Rightarrow> 'a list \<Rightarrow> 'a list" where
  "g_list_insert_sorted cmp x [] = [x]"
| "g_list_insert_sorted cmp x (y # ys) =
     (if cmp x y > 0 then y # g_list_insert_sorted cmp x ys else x # y # ys)"

definition queue_command :: "mi_info \<Rightarrow> nref option \<Rightarrow> mp_process \<Rightarrow> mp_process" where
  "queue_command info stack p =
     p\<lparr>p_command_queue :=
       g_list_insert_sorted queue_compare \<lparr>c_info = info, c_stack = stack\<rparr> (p_command_queue p)\<rparr>"

text \<open>The first command of the queue, if it is due.\<close>

definition unqueue_command :: "mp_process \<Rightarrow> (mi_info \<times> nref option \<times> mp_process) option" where
  "unqueue_command p = (case p_command_queue p of [] \<Rightarrow> None
     | c # q \<Rightarrow>
         if i_seqno (c_info c) = p_seqno p then Some (c_info c, c_stack c, p\<lparr>p_command_queue := q\<rparr>)
         else None)"

section \<open>Applying a command\<close>

text \<open>
  What \<open>process_command\<close> reads and writes: the process, the blocks, the table of inodes, and
  the warnings and dumps it prints.
\<close>

record proc_state =
  st_proc :: mp_process
  st_blocks :: block_heap
  st_inodes :: inode_state
  st_log :: "event list"

definition get_block_table :: "mp_process \<Rightarrow> mp_process \<times> (ptr \<rightharpoonup> bref)" where
  "get_block_table p = (case p_block_table p of
       None \<Rightarrow> (p\<lparr>p_block_table := Some Map.empty\<rparr>, Map.empty)
     | Some t \<Rightarrow> (p, t))"

text \<open>The part of the command that releases the block at \<open>old_ptr\<close>.\<close>

definition release_old ::
    "env \<Rightarrow> (nref \<rightharpoonup> stack_node) \<Rightarrow> mi_info \<Rightarrow> nref option \<Rightarrow> (ptr \<rightharpoonup> bref) \<Rightarrow> proc_state \<Rightarrow>
     (proc_state \<times> (ptr \<rightharpoonup> bref)) option" where
  "release_old env m info stack t st =
     (if old_ptr info = 0 then Some (st, t)
      else (case t (old_ptr info) of
        None \<Rightarrow> do {
          (p, s, ls) \<leftarrow> process_dump_stack env m stack (st_proc st, st_inodes st);
          Some (st\<lparr>st_proc := p, st_inodes := s,
            st_log := st_log st @ Block_Not_Found (old_ptr info) (p_pid p) # map Dump ls\<rparr>, t)
        }
      | Some r \<Rightarrow> do {
          b \<leftarrow> blocks (st_blocks st) r;
          h \<leftarrow> block_unref r (st_blocks st);
          let p = st_proc st;
          let t = t(old_ptr info := None);
          Some (st\<lparr>st_proc := p\<lparr>p_block_table := Some t, p_bytes_used := p_bytes_used p - b_size b,
              p_n_allocations := p_n_allocations p - 1\<rparr>, st_blocks := h\<rparr>, t)
        }))"

text \<open>The part that enters the block at \<open>new_ptr\<close>, unless a block is known there already.\<close>

definition enter_new ::
    "mi_info \<Rightarrow> nref option \<Rightarrow> (ptr \<rightharpoonup> bref) \<Rightarrow> proc_state \<Rightarrow> proc_state" where
  "enter_new info stack t st =
     (if new_ptr info \<noteq> 0 \<and> t (new_ptr info) = None
      then let (h, r) = block_new \<lparr>b_flags = 0, b_addr = new_ptr info, b_size = ucast (i_size info),
                   b_stack = stack, b_refcount = 1\<rparr> (st_blocks st);
               p = st_proc st
           in st\<lparr>st_proc := p\<lparr>p_n_allocations := p_n_allocations p + 1,
                  p_bytes_used := p_bytes_used p + ucast (i_size info),
                  p_block_table := Some (t(new_ptr info \<mapsto> r))\<rparr>,
                st_blocks := h\<rparr>
      else st)"

definition alloc_command ::
    "env \<Rightarrow> (nref \<rightharpoonup> stack_node) \<Rightarrow> mi_info \<Rightarrow> nref option \<Rightarrow> proc_state \<Rightarrow> proc_state option" where
  "alloc_command env m info stack st =
     (let (p, t) = get_block_table (st_proc st) in
      do {
        (st, t) \<leftarrow> release_old env m info stack t (st\<lparr>st_proc := p\<rparr>);
        Some (enter_new info stack t st)
      })"

text \<open>\<open>MI_TIME\<close> is turned into an allocation of one byte at the sequence number.\<close>

definition time_info :: "u32 \<Rightarrow> mi_info \<Rightarrow> mi_info" where
  "time_info n info = info\<lparr>old_ptr := 0, new_ptr := ucast n, i_size := 1\<rparr>"

text \<open>
  The \<open>switch\<close>, after \<open>process->seqno++\<close>. The code changes its \<open>info\<close> argument in place, so
  the result holds it too. \<open>None\<close> is the \<open>g_assert_not_reached\<close>.
\<close>

definition execute_command ::
    "env \<Rightarrow> (nref \<rightharpoonup> stack_node) \<Rightarrow> mi_info \<Rightarrow> nref option \<Rightarrow> proc_state \<Rightarrow>
     (mi_info \<times> proc_state) option" where
  "execute_command env m info stack st =
     (let p = st_proc st; st = st\<lparr>st_proc := p\<lparr>p_seqno := p_seqno p + 1\<rparr>\<rparr> in
      case operation info of
        MI_NEW \<Rightarrow> None | MI_FORK \<Rightarrow> None | MI_CLONE \<Rightarrow> None | MI_EXEC \<Rightarrow> None
      | MI_EXIT \<Rightarrow> Some (info, st)
      | MI_TIME \<Rightarrow>
          let info = time_info (p_seqno (st_proc st)) info in
          map_option (Pair info) (alloc_command env m info stack st)
      | _ \<Rightarrow> map_option (Pair info) (alloc_command env m info stack st))"

text \<open>
  \<open>process_command\<close> and the loop at its end. The loop hands \<open>info\<close> on, and with it the last
  command that was executed, to the caller.
\<close>

function (domintros) process_command ::
    "env \<Rightarrow> (nref \<rightharpoonup> stack_node) \<Rightarrow> mi_info \<Rightarrow> nref option \<Rightarrow> proc_state \<Rightarrow>
     (mi_info \<times> proc_state) option"
  and drain_queue ::
    "env \<Rightarrow> (nref \<rightharpoonup> stack_node) \<Rightarrow> mi_info \<Rightarrow> proc_state \<Rightarrow> (mi_info \<times> proc_state) option" where
  "process_command env m info stack st =
     (if i_seqno info \<noteq> p_seqno (st_proc st)
      then Some (info, st\<lparr>st_proc := queue_command info stack (st_proc st)\<rparr>)
      else Option.bind (execute_command env m info stack st) (\<lambda>(info, st). drain_queue env m info st))"
| "drain_queue env m info st =
     (case unqueue_command (st_proc st) of
        None \<Rightarrow> Some (info, st)
      | Some (info, stack, p) \<Rightarrow>
          Option.bind (process_command env m info stack (st\<lparr>st_proc := p\<rparr>))
            (\<lambda>(info, st). drain_queue env m info st))"
  by pat_completeness auto

section \<open>Execution leaves the queue alone\<close>

lemma find_line_frame: "process_find_line env a ps = Some (p', s', r) \<Longrightarrow> recached (fst ps) p'"
  by (auto simp: process_find_line_def dest: locate_map_frame split: option.splits)

lemma dump_frames_frame:
  "dump_frames env as ps = Some (p', s', ls) \<Longrightarrow> recached (fst ps) p'"
proof (induction as arbitrary: ps ls)
  case (Cons a as)
  then obtain p1 s1 l ls' where a: "dump_frame env a ps = Some (p1, s1, l)"
    "dump_frames env as (p1, s1) = Some (p', s', ls')" by (auto simp: bind_eq_Some)
  from a(1) obtain r where "process_find_line env a ps = Some (p1, s1, r)"
    by (auto simp: dump_frame_def bind_eq_Some)
  then have "recached (fst ps) p1" by (rule find_line_frame)
  also have "recached p1 p'" using Cons.IH [OF a(2)] by simp
  finally show ?case .
qed simp

lemma dump_stack_frame:
  "process_dump_stack env m stack ps = Some (p', s', ls) \<Longrightarrow> recached (fst ps) p'"
  by (auto simp: dump_stack_eq bind_eq_Some dest: dump_frames_frame)

abbreviation st_queue :: "proc_state \<Rightarrow> command list" where
  "st_queue st \<equiv> p_command_queue (st_proc st)"

definition set_st_queue :: "command list \<Rightarrow> proc_state \<Rightarrow> proc_state" where
  "set_st_queue q st = st\<lparr>st_proc := with_queue q (st_proc st)\<rparr>"

lemma set_st_queue_simps [simp]:
  "st_proc (set_st_queue q st) = with_queue q (st_proc st)"
  "st_blocks (set_st_queue q st) = st_blocks st" "st_inodes (set_st_queue q st) = st_inodes st"
  "st_log (set_st_queue q st) = st_log st"
  by (simp_all add: set_st_queue_def)

lemma set_st_queue_twice:
  "set_st_queue q (set_st_queue r st) = set_st_queue q st" "set_st_queue (st_queue st) st = st"
  by (simp_all add: set_st_queue_def)

lemma with_queue_out:
  "with_queue q p\<lparr>p_block_table := t\<rparr> = with_queue q (p\<lparr>p_block_table := t\<rparr>)"
  "with_queue q p\<lparr>p_seqno := n\<rparr> = with_queue q (p\<lparr>p_seqno := n\<rparr>)"
  "with_queue q p\<lparr>p_bytes_used := n\<rparr> = with_queue q (p\<lparr>p_bytes_used := n\<rparr>)"
  "with_queue q p\<lparr>p_n_allocations := n\<rparr> = with_queue q (p\<lparr>p_n_allocations := n\<rparr>)"
  by (cases p, simp)+

lemma set_st_queue_out:
  "set_st_queue q st\<lparr>st_proc := with_queue q p\<rparr> = set_st_queue q (st\<lparr>st_proc := p\<rparr>)"
  "set_st_queue q st\<lparr>st_blocks := h\<rparr> = set_st_queue q (st\<lparr>st_blocks := h\<rparr>)"
  "set_st_queue q st\<lparr>st_inodes := i\<rparr> = set_st_queue q (st\<lparr>st_inodes := i\<rparr>)"
  "set_st_queue q st\<lparr>st_log := l\<rparr> = set_st_queue q (st\<lparr>st_log := l\<rparr>)"
  by (simp_all add: set_st_queue_def)

lemmas queue_out = with_queue_out set_st_queue_out

lemma get_block_table_queue:
  "get_block_table (with_queue q p) = apfst (with_queue q) (get_block_table p)"
  by (simp add: get_block_table_def queue_out split: option.splits)

lemma release_old_queue:
  "release_old env m info stack t (set_st_queue q st) =
   map_option (apfst (set_st_queue q)) (release_old env m info stack t st)"
proof (cases "old_ptr info = 0")
  case False
  show ?thesis
  proof (cases "t (old_ptr info)")
    case None
    then show ?thesis using False
      by (cases "process_dump_stack env m stack (st_proc st, st_inodes st)")
        (auto simp: release_old_def dump_stack_queue queue_out)
  next
    case (Some r)
    then show ?thesis using False
      by (cases "blocks (st_blocks st) r"; cases "block_unref r (st_blocks st)")
        (auto simp: release_old_def Let_def queue_out)
  qed
qed (simp add: release_old_def)

lemma enter_new_queue: "enter_new info stack t (set_st_queue q st) = set_st_queue q (enter_new info stack t st)"
  by (simp add: enter_new_def block_new_def Let_def queue_out)

lemma alloc_command_queue:
  "alloc_command env m info stack (set_st_queue q st) =
   map_option (set_st_queue q) (alloc_command env m info stack st)"
proof -
  obtain p t where p: "get_block_table (st_proc st) = (p, t)" by (cases "get_block_table (st_proc st)")
  then show ?thesis
    by (cases "release_old env m info stack t (st\<lparr>st_proc := p\<rparr>)")
      (auto simp: alloc_command_def get_block_table_queue queue_out release_old_queue enter_new_queue)
qed

lemma execute_command_queue:
  "execute_command env m info stack (set_st_queue q st) =
   map_option (apsnd (set_st_queue q)) (execute_command env m info stack st)"
  by (simp add: execute_command_def Let_def queue_out alloc_command_queue option.map_comp comp_def
      split: mi_operation.split)

section \<open>Execution moves to the next number\<close>

lemma release_old_frame:
  assumes "release_old env m info stack t st = Some (st', t')"
  shows "p_seqno (st_proc st') = p_seqno (st_proc st) \<and> st_queue st' = st_queue st"
proof (cases "old_ptr info = 0 \<or> t (old_ptr info) \<noteq> None")
  case True
  with assms show ?thesis
    by (auto simp: release_old_def Let_def bind_eq_Some split: if_splits option.splits)
next
  case False
  with assms obtain p s ls where
    d: "process_dump_stack env m stack (st_proc st, st_inodes st) = Some (p, s, ls)" "st_proc st' = p"
    by (auto simp: release_old_def bind_eq_Some split: if_splits option.splits)
  from dump_stack_frame [OF d(1)] d(2) show ?thesis by (simp add: frame_rules)
qed

lemma alloc_command_frame:
  assumes "alloc_command env m info stack st = Some st'"
  shows "p_seqno (st_proc st') = p_seqno (st_proc st) \<and> st_queue st' = st_queue st"
proof -
  obtain p t where p: "get_block_table (st_proc st) = (p, t)" by (cases "get_block_table (st_proc st)")
  then have "p_seqno p = p_seqno (st_proc st)" "p_command_queue p = st_queue st"
    by (auto simp: get_block_table_def split: option.splits)
  moreover from assms p obtain st1 t1 where "release_old env m info stack t (st\<lparr>st_proc := p\<rparr>) = Some (st1, t1)"
    "st' = enter_new info stack t1 st1" by (auto simp: alloc_command_def bind_eq_Some)
  ultimately show ?thesis
    using release_old_frame [of env m info stack t "st\<lparr>st_proc := p\<rparr>" st1 t1]
    by (simp add: enter_new_def block_new_def Let_def)
qed

lemma execute_command_frame:
  assumes "execute_command env m info stack st = Some (info', st')"
  shows "p_seqno (st_proc st') = p_seqno (st_proc st) + 1 \<and> st_queue st' = st_queue st"
  using assms alloc_command_frame
  by (cases "operation info") (fastforce simp: execute_command_def Let_def)+

section \<open>Every command is processed\<close>

lemma unqueue_command_Some:
  "unqueue_command p = Some (info, stack, p') \<longleftrightarrow>
   (\<exists>q. p_command_queue p = \<lparr>c_info = info, c_stack = stack\<rparr> # q \<and> p' = with_queue q p \<and>
     i_seqno info = p_seqno p)"
proof (cases "p_command_queue p")
  case (Cons c q)
  then show ?thesis by (cases c) (auto simp: unqueue_command_def)
qed (simp add: unqueue_command_def)

abbreviation "pc_dom \<equiv> process_command_drain_queue_dom"

text \<open>
  A command that is due does not lengthen the queue, so the loop gets shorter queues. (A
  command that is not due is queued; it makes no further call.)
\<close>

lemma drain_queue_terminates:
  "length (st_queue st) \<le> n \<Longrightarrow>
   pc_dom (Inr (env, m, info, st)) \<and>
   (\<forall>info' st'. drain_queue env m info st = Some (info', st') \<longrightarrow> length (st_queue st') \<le> n)"
proof (induction n arbitrary: info st)
  case 0
  then have empty: "unqueue_command (st_proc st) = None" by (simp add: unqueue_command_def)
  then have "pc_dom (Inr (env, m, info, st))"
    by - (rule process_command_drain_queue.domintros(2), simp_all)
  with empty 0 show ?case by (auto simp: drain_queue.psimps)
next
  case (Suc n)
  show ?case
  proof (cases "unqueue_command (st_proc st)")
    case None
    then have "pc_dom (Inr (env, m, info, st))"
      by - (rule process_command_drain_queue.domintros(2), simp_all)
    with None Suc.prems show ?thesis by (auto simp: drain_queue.psimps)
  next
    case (Some r)
    obtain i k p where r: "r = (i, k, p)" by (cases r)
    with Some obtain q where q: "st_queue st = \<lparr>c_info = i, c_stack = k\<rparr> # q" "p = with_queue q (st_proc st)"
      "i_seqno i = p_seqno (st_proc st)" by (auto simp: unqueue_command_Some)
    let ?st = "st\<lparr>st_proc := p\<rparr>"
    have len: "length (st_queue ?st) \<le> n" using Suc.prems q by simp
    have ex: "pc_dom (Inr (env, m, i', st1)) \<and>
        (\<forall>info' st'. drain_queue env m i' st1 = Some (info', st') \<longrightarrow> length (st_queue st') \<le> n)"
      if "execute_command env m i k ?st = Some (i', st1)" for i' st1
      by (rule Suc.IH) (use execute_command_frame [OF that] len in simp)
    have dom: "pc_dom (Inl (env, m, i, k, ?st))"
      by (rule process_command_drain_queue.domintros(1)) (use ex in blast)
    have shorter: "length (st_queue st') \<le> n" if "process_command env m i k ?st = Some (i', st')" for i' st'
      using that ex q dom by (auto simp: process_command.psimps bind_eq_Some)
    have rest: "pc_dom (Inr (env, m, i', st'))" "\<And>info' st''. drain_queue env m i' st' = Some (info', st'') \<Longrightarrow>
        length (st_queue st'') \<le> n" if "process_command env m i k ?st = Some (i', st')" for i' st'
      using Suc.IH [OF shorter [OF that]] by blast+
    have d: "pc_dom (Inr (env, m, info, st))"
      by (rule process_command_drain_queue.domintros(2)) (use Some r dom rest(1) in auto)
    have "length (st_queue st'') \<le> Suc n" if "drain_queue env m info st = Some (info', st'')" for info' st''
      using that d Some r rest(2) by (fastforce simp: drain_queue.psimps bind_eq_Some)
    with d show ?thesis by blast
  qed
qed

termination process_command
proof (rule allI)
  fix x :: "env \<times> (nref \<rightharpoonup> stack_node) \<times> mi_info \<times> nref option \<times> proc_state +
    env \<times> (nref \<rightharpoonup> stack_node) \<times> mi_info \<times> proc_state"
  show "pc_dom x"
  proof (cases x)
    case (Inr y)
    then show ?thesis using drain_queue_terminates [OF order_refl] by (cases y) auto
  next
    case (Inl y)
    obtain env m info stack st where y: "y = (env, m, info, stack, st)" by (cases y)
    have "pc_dom (Inl (env, m, info, stack, st))"
      by (rule process_command_drain_queue.domintros(1)) (use drain_queue_terminates [OF order_refl] in blast)
    with Inl y show ?thesis by simp
  qed
qed

declare process_command.simps [simp del] drain_queue.simps [simp del]

section \<open>The process as a consumer of numbered commands\<close>

definition command_no :: "command \<Rightarrow> u32" where
  "command_no c = i_seqno (c_info c)"

definition deliver_command :: "env \<Rightarrow> (nref \<rightharpoonup> stack_node) \<Rightarrow> command \<Rightarrow> proc_state \<Rightarrow> proc_state option" where
  "deliver_command env m c st = map_option snd (process_command env m (c_info c) (c_stack c) st)"

definition run_command :: "env \<Rightarrow> (nref \<rightharpoonup> stack_node) \<Rightarrow> command \<Rightarrow> proc_state \<Rightarrow> proc_state option" where
  "run_command env m c st = map_option snd (execute_command env m (c_info c) (c_stack c) st)"

definition drain_commands :: "env \<Rightarrow> (nref \<rightharpoonup> stack_node) \<Rightarrow> proc_state \<Rightarrow> proc_state option" where
  "drain_commands env m st = map_option snd (drain_queue env m zero_info st)"

lemma drain_queue_info:
  "map_option snd (drain_queue env m info st) = drain_commands env m st"
  unfolding drain_commands_def
  by (subst (1 2) drain_queue.simps) (simp split: option.split)

lemma bind_drain_queue:
  "map_option snd (Option.bind r (\<lambda>(i, st). drain_queue env m i st)) =
   Option.bind (map_option snd r) (drain_commands env m)"
  by (cases r) (auto simp: drain_queue_info)

lemma insert_sorted_mset: "mset (g_list_insert_sorted cmp x xs) = add_mset x (mset xs)"
  by (induction xs) auto

lemma queue_compare_pos: "queue_compare a b > 0 \<longleftrightarrow> command_no b < command_no a"
  by (auto simp: queue_compare_def command_no_def)

lemma insert_sorted_sorted:
  "sorted (map command_no q) \<Longrightarrow> sorted (map command_no (g_list_insert_sorted queue_compare c q))"
proof (induction q)
  case (Cons d q)
  show ?case
  proof (cases "queue_compare c d > 0")
    case True
    have "set (g_list_insert_sorted queue_compare c q) = insert c (set q)"
      using arg_cong [OF insert_sorted_mset [of queue_compare c q], of set_mset] by simp
    with True Cons show ?thesis by (auto simp: queue_compare_pos)
  next
    case False
    with Cons.prems show ?thesis by (auto simp: queue_compare_pos not_less)
  qed
qed simp

lemma command_collapse: "\<lparr>c_info = c_info c, c_stack = c_stack c\<rparr> = c"
  by (cases c) simp

lemma unqueue_command_Cons:
  assumes "st_queue st = c # q"
  shows "unqueue_command (st_proc st) =
    (if command_no c = p_seqno (st_proc st) then Some (c_info c, c_stack c, with_queue q (st_proc st))
     else None)"
  using assms by (simp add: unqueue_command_def command_no_def)

interpretation pc: sequencer command_no "\<lambda>st. p_seqno (st_proc st)" st_queue set_st_queue
  "g_list_insert_sorted queue_compare" "run_command env m" "deliver_command env m" "drain_commands env m"
  for env m
proof
  fix c q st st'
  show "p_seqno (st_proc st') = p_seqno (st_proc st) + 1" if "run_command env m c st = Some st'"
    using that execute_command_frame by (fastforce simp: run_command_def)
  show "run_command env m c (set_st_queue q st) = map_option (set_st_queue q) (run_command env m c st)"
    by (cases "execute_command env m (c_info c) (c_stack c) st")
      (auto simp: run_command_def execute_command_queue)
  show "deliver_command env m c st = Some (set_st_queue (g_list_insert_sorted queue_compare c (st_queue st)) st)"
    if "command_no c \<noteq> p_seqno (st_proc st)"
    using that by (subst deliver_command_def, subst process_command.simps)
      (simp add: command_no_def queue_command_def set_st_queue_def command_collapse)
  show "deliver_command env m c st = Option.bind (run_command env m c st) (drain_commands env m)"
    if "command_no c = p_seqno (st_proc st)"
    using that by (subst deliver_command_def, subst process_command.simps)
      (simp add: command_no_def run_command_def bind_drain_queue)
  show "drain_commands env m st = Some st" if "st_queue st = []"
    using that by (subst drain_commands_def, subst drain_queue.simps) (simp add: unqueue_command_def)
  show "drain_commands env m st = Some st" if "st_queue st = c # q" "command_no c \<noteq> p_seqno (st_proc st)"
    using that by (subst drain_commands_def, subst drain_queue.simps) (simp add: unqueue_command_Cons)
  show "drain_commands env m st = Option.bind (deliver_command env m c (set_st_queue q st)) (drain_commands env m)"
    if "st_queue st = c # q" "command_no c = p_seqno (st_proc st)"
    using that by (subst drain_commands_def, subst drain_queue.simps)
      (simp add: unqueue_command_Cons deliver_command_def bind_drain_queue set_st_queue_def)
qed (simp_all add: set_st_queue_twice insert_sorted_mset insert_sorted_sorted)

section \<open>What one command does\<close>

text \<open>The block table as a map from addresses, without the difference of \<open>NULL\<close> and empty.\<close>

definition table :: "mp_process \<Rightarrow> ptr \<rightharpoonup> bref" where
  "table p = (case p_block_table p of None \<Rightarrow> Map.empty | Some t \<Rightarrow> t)"

text \<open>
  The invariant of the totals. \<open>own r\<close> is the number of other tables that hold \<open>r\<close>: a fork
  shares the blocks of its parent and counts a reference for each.
\<close>

definition blocks_ok :: "(bref \<Rightarrow> nat) \<Rightarrow> (ptr \<rightharpoonup> bref) \<Rightarrow> block_heap \<Rightarrow> bool" where
  "blocks_ok own t h \<longleftrightarrow> finite (dom t) \<and>
     (\<forall>r. (r \<in> ran t \<or> 0 < own r) \<longrightarrow> r \<in> dom (blocks h)) \<and>
     (\<forall>r b. blocks h r = Some b \<longrightarrow>
        r < n_new h \<and> unat (b_refcount b) = own r + (if r \<in> ran t then 1 else 0)) \<and>
     (\<forall>a r. t a = Some r \<longrightarrow> a \<noteq> 0 \<and> (\<exists>b. blocks h r = Some b \<and> b_addr b = a))"

definition block_size :: "block_heap \<Rightarrow> bref \<Rightarrow> u32" where
  "block_size h r = (case blocks h r of None \<Rightarrow> 0 | Some b \<Rightarrow> b_size b)"

definition totals_ok :: "mp_process \<Rightarrow> block_heap \<Rightarrow> bool" where
  "totals_ok p h \<longleftrightarrow> p_n_allocations p = of_nat (card (dom (table p))) \<and>
     p_bytes_used p = (\<Sum>a \<in> dom (table p). block_size h (the (table p a)))"

definition account_ok :: "(bref \<Rightarrow> nat) \<Rightarrow> proc_state \<Rightarrow> bool" where
  "account_ok own st \<longleftrightarrow> blocks_ok own (table (st_proc st)) (st_blocks st) \<and>
     totals_ok (st_proc st) (st_blocks st)"

lemma blocks_okD:
  assumes "blocks_ok own t h"
  shows "finite (dom t)" "r \<in> ran t \<Longrightarrow> r \<in> dom (blocks h)" "0 < own r \<Longrightarrow> r \<in> dom (blocks h)"
    "blocks h r = Some b \<Longrightarrow> r < n_new h"
    "blocks h r = Some b \<Longrightarrow> unat (b_refcount b) = own r + (if r \<in> ran t then 1 else 0)"
    "t a = Some r \<Longrightarrow> a \<noteq> 0 \<and> (\<exists>b. blocks h r = Some b \<and> b_addr b = a)"
  using assms by (simp_all add: blocks_ok_def)

lemma blocks_ok_inj: "blocks_ok own t h \<Longrightarrow> t a = Some r \<Longrightarrow> t b = Some r \<Longrightarrow> a = b"
  using blocks_okD(6) [of own t h a r] blocks_okD(6) [of own t h b r] by auto

text \<open>
  The abstract view of a process: which addresses hold a live block, how large it is and
  where it was allocated.
\<close>

definition block_info :: "block_heap \<Rightarrow> bref \<Rightarrow> (u32 \<times> nref option) option" where
  "block_info h r = map_option (\<lambda>b. (b_size b, b_stack b)) (blocks h r)"

definition live :: "proc_state \<Rightarrow> ptr \<rightharpoonup> u32 \<times> nref option" where
  "live st a = Option.bind (table (st_proc st) a) (block_info (st_blocks st))"

definition live_free :: "ptr \<Rightarrow> (ptr \<rightharpoonup> u32 \<times> nref option) \<Rightarrow> ptr \<rightharpoonup> u32 \<times> nref option" where
  "live_free a m = (if a = 0 then m else m(a := None))"

definition live_alloc ::
    "ptr \<Rightarrow> u32 \<Rightarrow> nref option \<Rightarrow> (ptr \<rightharpoonup> u32 \<times> nref option) \<Rightarrow> ptr \<rightharpoonup> u32 \<times> nref option" where
  "live_alloc a n stack m = (if a \<noteq> 0 \<and> m a = None then m(a \<mapsto> (n, stack)) else m)"

text \<open>What an operation leaves alone: blocks that other tables hold, and the other fields.\<close>

definition others_kept :: "(bref \<Rightarrow> nat) \<Rightarrow> proc_state \<Rightarrow> proc_state \<Rightarrow> bool" where
  "others_kept own st st' \<longleftrightarrow>
     (\<forall>r. 0 < own r \<longrightarrow> map_option (\<lambda>b. b\<lparr>b_refcount := 0\<rparr>) (blocks (st_blocks st') r) =
        map_option (\<lambda>b. b\<lparr>b_refcount := 0\<rparr>) (blocks (st_blocks st) r)) \<and>
     n_new (st_blocks st) \<le> n_new (st_blocks st') \<and>
     p_pid (st_proc st') = p_pid (st_proc st)"

lemma others_kept_refl [simp]: "others_kept own st st"
  by (simp add: others_kept_def)

lemma others_kept_trans [trans]:
  "others_kept own a b \<Longrightarrow> others_kept own b c \<Longrightarrow> others_kept own a c"
  by (simp add: others_kept_def)

lemma live_dom: "blocks_ok own (table (st_proc st)) (st_blocks st) \<Longrightarrow>
    live st a = None \<longleftrightarrow> table (st_proc st) a = None"
  by (cases "table (st_proc st) a") (auto simp: live_def block_info_def dest: blocks_okD(6))

lemma block_unref_spec:
  assumes "blocks_ok own t h" and a: "t a = Some r"
  shows "\<exists>b h'. blocks h r = Some b \<and> block_unref r h = Some h' \<and>
    blocks_ok own (t(a := None)) h' \<and> n_new h' = n_new h \<and>
    (\<forall>q. q \<noteq> r \<longrightarrow> blocks h' q = blocks h q) \<and>
    (0 < own r \<longrightarrow> (\<exists>n. blocks h' r = Some (b\<lparr>b_refcount := n\<rparr>)))"
proof -
  note D = blocks_okD [OF assms(1)]
  from D(6) [OF a] obtain b where b: "blocks h r = Some b" "b_addr b = a" "a \<noteq> 0" by blast
  have r: "r \<in> ran t" using a by (auto simp: ran_def)
  have cnt: "unat (b_refcount b) = Suc (own r)" using D(5) [OF b(1)] r by simp
  then have nz: "b_refcount b \<noteq> 0" by auto
  have dec: "unat (b_refcount b - 1) = own r" using cnt nz by (simp add: unat_pred)
  have zero: "b_refcount b - 1 = 0 \<longleftrightarrow> own r = 0" using dec by (metis unat_eq_zero)
  have ran: "ran (t(a := None)) = ran t - {r}"
  proof
    show "ran (t(a := None)) \<subseteq> ran t - {r}"
      using a blocks_ok_inj [OF assms(1)] by (auto simp: ran_def split: if_splits)
    show "ran t - {r} \<subseteq> ran (t(a := None))"
    proof
      fix q assume "q \<in> ran t - {r}"
      then obtain x where x: "t x = Some q" "q \<noteq> r" by (auto simp: ran_def)
      with a have "(t(a := None)) x = Some q" by auto
      then show "q \<in> ran (t(a := None))" by (rule ranI)
    qed
  qed
  define h' where "h' = h\<lparr>blocks := (if b_refcount b - 1 = 0 then (blocks h)(r := None)
    else (blocks h)(r \<mapsto> b\<lparr>b_refcount := b_refcount b - 1\<rparr>))\<rparr>"
  have u: "block_unref r h = Some h'" using b by (simp add: block_unref_def h'_def Let_def)
  have other: "blocks h' q = blocks h q" if "q \<noteq> r" for q using that by (simp add: h'_def)
  have own: "own r = 0 \<Longrightarrow> blocks h' r = None" 
    "0 < own r \<Longrightarrow> blocks h' r = Some (b\<lparr>b_refcount := b_refcount b - 1\<rparr>)"
    using zero by (simp_all add: h'_def)
  have "blocks_ok own (t(a := None)) h'"
    unfolding blocks_ok_def ran
  proof (intro conjI allI impI)
    show "finite (dom (t(a := None)))" using D(1) by simp
    fix q
    show "q \<in> dom (blocks h')" if "q \<in> ran t - {r} \<or> 0 < own q"
    proof (cases "q = r")
      case True
      with that own show ?thesis by auto
    next
      case False
      with that D(2) [of q] D(3) [of q] other show ?thesis by auto
    qed
    fix c assume c: "blocks h' q = Some c"
    have "q < n_new h" using c other own D(4) b by (cases "q = r"; cases "own r = 0") auto
    then show "q < n_new h'" by (simp add: h'_def)
    show "unat (b_refcount c) = own q + (if q \<in> ran t - {r} then 1 else 0)"
      using c other own D(5) dec by (cases "q = r"; cases "own r = 0") auto
  next
    fix x q assume x: "(t(a := None)) x = Some q"
    then have q: "x \<noteq> a" "t x = Some q" by (auto split: if_splits)
    with a blocks_ok_inj [OF assms(1)] have "q \<noteq> r" by blast
    with D(6) [OF q(2)] other show "x \<noteq> 0" "\<exists>c. blocks h' q = Some c \<and> b_addr c = x" by auto
  qed
  with u b other own show ?thesis by (auto simp: h'_def)
qed

lemma sum_dom_remove:
  fixes f :: "bref \<Rightarrow> u32"
  assumes "finite (dom t)" and "t a = Some r" and "\<And>q. q \<in> ran (t(a := None)) \<Longrightarrow> g q = f q"
  shows "(\<Sum>x \<in> dom (t(a := None)). g (the ((t(a := None)) x))) =
    (\<Sum>x \<in> dom t. f (the (t x))) - f r"
proof -
  have "(\<Sum>x \<in> dom (t(a := None)). g (the ((t(a := None)) x))) = (\<Sum>x \<in> dom t - {a}. f (the (t x)))"
  proof (rule sum.cong)
    fix x assume "x \<in> dom t - {a}"
    then obtain q where "t x = Some q" "x \<noteq> a" by auto
    then show "g (the ((t(a := None)) x)) = f (the (t x))"
      using assms(3) [of q] by (simp add: ran_def) (metis fun_upd_other)
  qed auto
  moreover have "a \<in> dom t" using assms(2) by auto
  ultimately show ?thesis using assms(1,2) by (simp add: sum.remove [of "dom t" a])
qed

lemma sum_dom_insert:
  fixes f :: "bref \<Rightarrow> u32"
  assumes "finite (dom t)" and "t a = None" and "\<And>q. q \<in> ran t \<Longrightarrow> g q = f q"
  shows "(\<Sum>x \<in> dom (t(a \<mapsto> r)). g (the ((t(a \<mapsto> r)) x))) = (\<Sum>x \<in> dom t. f (the (t x))) + g r"
proof -
  have "a \<notin> dom t" using assms(2) by auto
  moreover have "(\<Sum>x \<in> dom t. g (the ((t(a \<mapsto> r)) x))) = (\<Sum>x \<in> dom t. f (the (t x)))"
  proof (rule sum.cong)
    fix x assume "x \<in> dom t"
    with \<open>a \<notin> dom t\<close> have "x \<noteq> a" "the (t x) \<in> ran t" by (auto simp: ran_def)
    with assms(3) show "g (the ((t(a \<mapsto> r)) x)) = f (the (t x))" by simp
  qed simp
  ultimately show ?thesis using assms(1) by (simp add: sum.insert_if add.commute)
qed

lemma card_dom_remove:
  "finite (dom t) \<Longrightarrow> t a = Some r \<Longrightarrow>
   (of_nat (card (dom (t(a := None)))) :: u32) = of_nat (card (dom t)) - 1"
proof -
  assume "finite (dom t)" "t a = Some r"
  then have "card (dom t) = Suc (card (dom t - {a}))" by (intro card.remove) auto
  then show ?thesis by simp
qed

definition readable :: "env \<Rightarrow> (nref \<rightharpoonup> stack_node) \<Rightarrow> pid \<Rightarrow> nref option \<Rightarrow> bool" where
  "readable env m pid stack \<longleftrightarrow> proc_maps env pid \<noteq> None \<and> frames_of m stack \<noteq> None"

lemma table_simps [simp]:
  "table (p\<lparr>p_block_table := Some t\<rparr>) = t" "table (p\<lparr>p_seqno := n\<rparr>) = table p"
  "table (p\<lparr>p_bytes_used := n\<rparr>) = table p" "table (p\<lparr>p_n_allocations := n\<rparr>) = table p"
  "table (p\<lparr>p_command_queue := q\<rparr>) = table p"
  by (simp_all add: table_def)

lemma get_block_table_spec:
  "get_block_table p = (p', t) \<Longrightarrow> t = table p \<and> p_block_table p' = Some t \<and> table p' = t \<and>
     p' = p\<lparr>p_block_table := Some t\<rparr>"
  by (cases p) (auto simp: get_block_table_def table_def split: option.splits)

text \<open>What the two halves of a command guarantee.\<close>

definition command_ok ::
    "(bref \<Rightarrow> nat) \<Rightarrow> proc_state \<Rightarrow> ((ptr \<rightharpoonup> u32 \<times> nref option) \<Rightarrow> (ptr \<rightharpoonup> u32 \<times> nref option)) \<Rightarrow>
     proc_state \<Rightarrow> bool" where
  "command_ok own st f st' \<longleftrightarrow> account_ok own st' \<and> live st' = f (live st) \<and> others_kept own st st'"

lemma command_ok_trans:
  "command_ok own a f b \<Longrightarrow> command_ok own b g c \<Longrightarrow> command_ok own a (g \<circ> f) c"
  unfolding command_ok_def by (auto intro: others_kept_trans)

lemma block_info_eq: "blocks h' r = blocks h r \<Longrightarrow> block_info h' r = block_info h r"
  "blocks h' r = blocks h r \<Longrightarrow> block_size h' r = block_size h r"
  by (simp_all add: block_info_def block_size_def)

lemma totals_release:
  assumes tot: "totals_ok p h" and t: "table p = t" and fin: "finite (dom t)" and a: "t a = Some r"
    and t': "t' = t(a := None)"
    and same: "\<And>q. q \<in> ran t' \<Longrightarrow> block_size h' q = block_size h q" and n: "block_size h r = n"
  shows "totals_ok (p\<lparr>p_block_table := Some t', p_bytes_used := p_bytes_used p - n,
    p_n_allocations := p_n_allocations p - 1\<rparr>) h'"
proof -
  have "(\<Sum>x \<in> dom t'. block_size h' (the (t' x))) = (\<Sum>x \<in> dom t. block_size h (the (t x))) - n"
    unfolding t' n [symmetric] by (rule sum_dom_remove [OF fin a]) (use same t' in blast)
  moreover have "(of_nat (card (dom t')) :: u32) = of_nat (card (dom t)) - 1"
    unfolding t' by (rule card_dom_remove [OF fin a])
  ultimately show ?thesis using tot t by (simp add: totals_ok_def table_def)
qed

lemma totals_enter:
  assumes tot: "totals_ok p h" and t: "table p = t" and fin: "finite (dom t)" and a: "t a = None"
    and t': "t' = t(a \<mapsto> r)"
    and same: "\<And>q. q \<in> ran t \<Longrightarrow> block_size h' q = block_size h q" and n: "block_size h' r = n"
  shows "totals_ok (p\<lparr>p_n_allocations := p_n_allocations p + 1, p_bytes_used := p_bytes_used p + n,
    p_block_table := Some t'\<rparr>) h'"
proof -
  have "(\<Sum>x \<in> dom t'. block_size h' (the (t' x))) = (\<Sum>x \<in> dom t. block_size h (the (t x))) + n"
    unfolding t' n [symmetric] by (rule sum_dom_insert [OF fin a]) (rule same)
  moreover have "a \<notin> dom t" using a by auto
  then have "(of_nat (card (dom t')) :: u32) = of_nat (card (dom t)) + 1"
    unfolding t' using fin by simp
  ultimately show ?thesis using tot t by (simp add: totals_ok_def table_def)
qed

lemma release_known:
  assumes ok: "account_ok own st" and t: "p_block_table (st_proc st) = Some t"
    and old: "old_ptr info \<noteq> 0" "t (old_ptr info) = Some r"
  shows "\<exists>st' t'. release_old env m info stack t st = Some (st', t') \<and>
    p_block_table (st_proc st') = Some t' \<and> command_ok own st (live_free (old_ptr info)) st'"
proof -
  let ?a = "old_ptr info" and ?h = "st_blocks st" and ?p = "st_proc st"
  have tab: "table ?p = t" using t by (simp add: table_def)
  have bok: "blocks_ok own t ?h" and tot: "totals_ok ?p ?h"
    using ok tab by (simp_all add: account_ok_def)
  from block_unref_spec [OF bok old(2)] obtain b h' where b: "blocks ?h r = Some b"
    "block_unref r ?h = Some h'" "blocks_ok own (t(?a := None)) h'" "n_new h' = n_new ?h"
    "\<forall>q. q \<noteq> r \<longrightarrow> blocks h' q = blocks ?h q"
    "0 < own r \<longrightarrow> (\<exists>n. blocks h' r = Some (b\<lparr>b_refcount := n\<rparr>))" by (elim exE conjE) (rule that)
  let ?t' = "t(?a := None)"
  let ?st' = "st\<lparr>st_proc := ?p\<lparr>p_block_table := Some ?t', p_bytes_used := p_bytes_used ?p - b_size b,
    p_n_allocations := p_n_allocations ?p - 1\<rparr>, st_blocks := h'\<rparr>"
  have step: "release_old env m info stack t st = Some (?st', ?t')"
    using old b(1,2) by (simp add: release_old_def Let_def)
  have not_r: "q \<noteq> r" if "q \<in> ran ?t'" for q
    using that blocks_ok_inj [OF bok old(2)] by (auto simp: ran_def split: if_splits)
  have fin: "finite (dom t)" using blocks_okD(1) [OF bok] .
  have same: "block_size h' q = block_size ?h q" if "q \<in> ran ?t'" for q
    using not_r [OF that] b(5) by (intro block_info_eq(2)) simp
  have "block_size ?h r = b_size b" using b(1) by (simp add: block_size_def)
  then have "totals_ok (st_proc ?st') h'"
    using totals_release [OF tot tab fin old(2) refl same] by simp
  then have "account_ok own ?st'" using b(3) by (simp add: account_ok_def table_def)
  moreover have "live ?st' = live_free ?a (live st)"
  proof
    fix x show "live ?st' x = live_free ?a (live st) x"
    proof (cases "x = ?a")
      case False
      have "blocks h' q = blocks ?h q" if "t x = Some q" for q
        using not_r [OF ranI [of ?t' x]] that False b(5) by simp
      with False tab old(1) show ?thesis
        by (cases "t x") (simp_all add: live_def live_free_def table_def block_info_def)
    qed (use old(1) in \<open>simp add: live_def live_free_def table_def\<close>)
  qed
  moreover have "others_kept own st ?st'"
    unfolding others_kept_def
  proof (intro conjI allI impI)
    fix q assume "0 < own q"
    then show "map_option (\<lambda>b. b\<lparr>b_refcount := 0\<rparr>) (blocks (st_blocks ?st') q) =
        map_option (\<lambda>b. b\<lparr>b_refcount := 0\<rparr>) (blocks ?h q)"
      using b(1,5,6) by (cases "q = r") auto
  qed (use b(4) in simp_all)
  ultimately show ?thesis using step by (auto simp: command_ok_def)
qed

lemma release_old_spec:
  assumes ok: "account_ok own st" and t: "p_block_table (st_proc st) = Some t"
    and rd: "readable env m (p_pid (st_proc st)) stack"
  shows "\<exists>st' t'. release_old env m info stack t st = Some (st', t') \<and>
    p_block_table (st_proc st') = Some t' \<and> command_ok own st (live_free (old_ptr info)) st'"
proof -
  have tab: "table (st_proc st) = t" using t by (simp add: table_def)
  consider "old_ptr info = 0" | r where "old_ptr info \<noteq> 0" "t (old_ptr info) = Some r"
    | "old_ptr info \<noteq> 0" "t (old_ptr info) = None" by fastforce
  then show ?thesis
  proof cases
    case 1
    then have "release_old env m info stack t st = Some (st, t)" by (simp add: release_old_def)
    moreover have "command_ok own st (live_free (old_ptr info)) st"
      using ok 1 by (simp add: command_ok_def live_free_def)
    ultimately show ?thesis using t by blast
  next
    case 2
    then show ?thesis by (rule release_known [OF ok t])
  next
    case 3
    from rd obtain as where "frames_of m stack = Some as" "proc_maps env (p_pid (st_proc st)) \<noteq> None"
      by (auto simp: readable_def)
    then obtain p s ls where d: "process_dump_stack env m stack (st_proc st, st_inodes st) = Some (p, s, ls)"
      "recached (st_proc st) p" using process_dump_stack_total [of m stack as env "(st_proc st, st_inodes st)"] by auto
    note fr = recached_frame [OF d(2)]
    let ?st' = "st\<lparr>st_proc := p, st_inodes := s,
      st_log := st_log st @ Block_Not_Found (old_ptr info) (p_pid p) # map Dump ls\<rparr>"
    have "release_old env m info stack t st = Some (?st', t)"
      using 3 d(1) by (simp add: release_old_def)
    moreover have "table p = table (st_proc st)" using fr by (simp add: table_def)
    then have "account_ok own ?st'" "live ?st' = live st"
      using ok fr by (auto simp: account_ok_def totals_ok_def live_def)
    moreover have "live_free (old_ptr info) (live st) = live st"
    proof -
      have "live st (old_ptr info) = None" using 3(2) tab by (simp add: live_def)
      then show ?thesis by (auto simp: live_free_def)
    qed
    moreover have "others_kept own st ?st'" using fr by (simp add: others_kept_def)
    ultimately show ?thesis using t fr by (auto simp: command_ok_def)
  qed
qed

lemma enter_new_spec:
  assumes ok: "account_ok own st" and t: "p_block_table (st_proc st) = Some t"
    and own: "own (n_new (st_blocks st)) = 0"
  shows "command_ok own st (live_alloc (new_ptr info) (ucast (i_size info)) stack) (enter_new info stack t st)"
proof -
  let ?a = "new_ptr info" and ?h = "st_blocks st" and ?p = "st_proc st"
  have tab: "table ?p = t" using t by (simp add: table_def)
  have bok: "blocks_ok own t ?h" and tot: "totals_ok ?p ?h"
    using ok tab by (simp_all add: account_ok_def)
  note D = blocks_okD [OF bok]
  have dom: "live st ?a = None \<longleftrightarrow> t ?a = None" using live_dom [of own st ?a] bok tab by simp
  show ?thesis
  proof (cases "?a \<noteq> 0 \<and> t ?a = None")
    case False
    then have "enter_new info stack t st = st" "live_alloc ?a (ucast (i_size info)) stack (live st) = live st"
      using dom by (auto simp: enter_new_def live_alloc_def)
    with ok show ?thesis by (simp add: command_ok_def)
  next
    case True
    let ?b = "\<lparr>b_flags = 0, b_addr = ?a, b_size = ucast (i_size info), b_stack = stack, b_refcount = 1\<rparr>"
    let ?r = "n_new ?h"
    let ?h' = "?h\<lparr>blocks := (blocks ?h)(?r \<mapsto> ?b), n_new := Suc ?r\<rparr>" and ?t' = "t(?a \<mapsto> ?r)"
    let ?st' = "st\<lparr>st_proc := ?p\<lparr>p_n_allocations := p_n_allocations ?p + 1,
        p_bytes_used := p_bytes_used ?p + ucast (i_size info), p_block_table := Some ?t'\<rparr>, st_blocks := ?h'\<rparr>"
    have step: "enter_new info stack t st = ?st'" using True by (simp add: enter_new_def block_new_def Let_def)
    have fresh: "blocks ?h ?r = None" using D(4) [of ?r] by (cases "blocks ?h ?r") auto
    then have fr: "?r \<notin> ran t" using D(2) [of ?r] by auto
    have ran: "ran ?t' = insert ?r (ran t)" using True by (simp add: ran_upd_fresh)
    have bok': "blocks_ok own ?t' ?h'"
      unfolding blocks_ok_def ran
    proof (intro conjI allI impI)
      show "finite (dom ?t')" using D(1) by simp
      fix q
      show "q \<in> dom (blocks ?h')" if "q \<in> insert ?r (ran t) \<or> 0 < own q"
        using that D(2) [of q] D(3) [of q] by auto
      fix c assume c: "blocks ?h' q = Some c"
      show "q < n_new ?h'" using c D(4) [of q c] by (auto split: if_splits)
      show "unat (b_refcount c) = own q + (if q \<in> insert ?r (ran t) then 1 else 0)"
        using c D(5) [of q c] own by (cases "q = ?r") auto
    next
      fix x q assume x: "?t' x = Some q"
      show "x \<noteq> 0" using x True D(6) [of x q] by (auto split: if_splits)
      show "\<exists>c. blocks ?h' q = Some c \<and> b_addr c = x"
      proof (cases "x = ?a")
        case False
        then have tx: "t x = Some q" using x by simp
        then have "q \<noteq> ?r" using fr by (auto simp: ran_def)
        with D(6) [OF tx] show ?thesis by auto
      qed (use x in simp)
    qed
    have not_r: "block_size ?h' q = block_size ?h q" "block_info ?h' q = block_info ?h q" if "q \<in> ran t" for q
      using that fr by (auto intro!: block_info_eq)
    have new: "block_size ?h' ?r = ucast (i_size info)" by (simp add: block_size_def)
    have "totals_ok (st_proc ?st') ?h'"
      using totals_enter [OF tot tab D(1) _ refl not_r(1) new] True by simp
    then have "account_ok own ?st'" using bok' by (simp add: account_ok_def table_def)
    moreover have "live ?st' = live_alloc ?a (ucast (i_size info)) stack (live st)"
    proof
      fix x show "live ?st' x = live_alloc ?a (ucast (i_size info)) stack (live st) x"
      proof (cases "x = ?a")
        case False
        show ?thesis
        proof (cases "t x")
          case (Some q)
          then have "q \<in> ran t" by (rule ranI)
          with Some False tab True dom not_r(2) show ?thesis
            by (simp add: live_def live_alloc_def table_def)
        qed (use False tab True dom in \<open>simp add: live_def live_alloc_def table_def\<close>)
      qed (use True dom in \<open>simp add: live_def live_alloc_def table_def block_info_def\<close>)
    qed
    moreover have "others_kept own st ?st'"
      unfolding others_kept_def using own by auto
    ultimately show ?thesis using step by (simp add: command_ok_def)
  qed
qed

lemma account_fresh: "account_ok own st \<Longrightarrow> own (n_new (st_blocks st)) = 0"
  using blocks_okD(3,4) [of own "table (st_proc st)" "st_blocks st"]
  by (fastforce simp: account_ok_def)

lemma account_ok_frame:
  "p_block_table p = p_block_table (st_proc st) \<Longrightarrow> p_bytes_used p = p_bytes_used (st_proc st) \<Longrightarrow>
   p_n_allocations p = p_n_allocations (st_proc st) \<Longrightarrow>
   account_ok own (st\<lparr>st_proc := p\<rparr>) \<longleftrightarrow> account_ok own st"
  by (simp add: account_ok_def totals_ok_def table_def)

lemma alloc_command_spec:
  assumes ok: "account_ok own st" and rd: "readable env m (p_pid (st_proc st)) stack"
  shows "\<exists>st'. alloc_command env m info stack st = Some st' \<and>
    command_ok own st (live_alloc (new_ptr info) (ucast (i_size info)) stack \<circ> live_free (old_ptr info)) st'"
proof -
  obtain p t where p: "get_block_table (st_proc st) = (p, t)" by (cases "get_block_table (st_proc st)")
  let ?st = "st\<lparr>st_proc := p\<rparr>"
  from get_block_table_spec [OF p] have t: "t = table (st_proc st)" "p_block_table p = Some t"
    "table p = t" "p = st_proc st\<lparr>p_block_table := Some t\<rparr>" by auto
  have fields: "p_pid p = p_pid (st_proc st)" "p_n_allocations p = p_n_allocations (st_proc st)"
    "p_bytes_used p = p_bytes_used (st_proc st)" by (subst t(4), simp)+
  then have pid: "p_pid p = p_pid (st_proc st)" "totals_ok p = totals_ok (st_proc st)"
    using t(1,3) unfolding totals_ok_def by (simp, intro ext, simp)
  have start: "command_ok own st id ?st"
  proof -
    have tab: "table p = table (st_proc st)" using t(1,3) by simp
    have "account_ok own ?st" using ok pid(2) tab by (simp add: account_ok_def)
    moreover have "live ?st = live st" by (rule ext) (simp add: live_def tab)
    ultimately show ?thesis using pid(1) by (simp add: command_ok_def others_kept_def)
  qed
  then have ok1: "account_ok own ?st" by (simp add: command_ok_def)
  obtain st1 t1 where r: "release_old env m info stack t ?st = Some (st1, t1)"
    "p_block_table (st_proc st1) = Some t1" "command_ok own ?st (live_free (old_ptr info)) st1"
    using release_old_spec [OF ok1, of t env m stack info] t(2) rd pid(1) by auto
  have ok2: "account_ok own st1" using r(3) by (simp add: command_ok_def)
  have e: "command_ok own st1 (live_alloc (new_ptr info) (ucast (i_size info)) stack)
      (enter_new info stack t1 st1)"
    by (rule enter_new_spec [OF ok2 r(2) account_fresh [OF ok2]])
  have "alloc_command env m info stack st = Some (enter_new info stack t1 st1)"
    using p r(1) by (simp add: alloc_command_def)
  moreover have "command_ok own st
      (live_alloc (new_ptr info) (ucast (i_size info)) stack \<circ> (live_free (old_ptr info) \<circ> id))
      (enter_new info stack t1 st1)"
    by (rule command_ok_trans [OF command_ok_trans [OF start r(3)] e])
  ultimately show ?thesis by simp
qed

text \<open>The specification of a command, on the map of live blocks; \<open>n\<close> is its number.\<close>

definition live_step :: "mi_info \<Rightarrow> nref option \<Rightarrow> (ptr \<rightharpoonup> u32 \<times> nref option) \<Rightarrow> ptr \<rightharpoonup> u32 \<times> nref option" where
  "live_step info stack m =
     (case operation info of
        MI_EXIT \<Rightarrow> m
      | MI_TIME \<Rightarrow> live_alloc (ucast (i_seqno info + 1)) 1 stack m
      | _ \<Rightarrow> live_alloc (new_ptr info) (ucast (i_size info)) stack (live_free (old_ptr info) m))"

definition applicable :: "mi_operation \<Rightarrow> bool" where
  "applicable op \<longleftrightarrow> op \<in> {MI_MALLOC, MI_REALLOC, MI_FREE, MI_TIME, MI_EXIT}"

lemma execute_command_spec:
  assumes ok: "account_ok own st" and rd: "readable env m (p_pid (st_proc st)) stack"
    and op: "applicable (operation info)" and due: "i_seqno info = p_seqno (st_proc st)"
  shows "\<exists>info' st'. execute_command env m info stack st = Some (info', st') \<and>
    command_ok own st (live_step info stack) st'"
proof -
  let ?p = "st_proc st\<lparr>p_seqno := p_seqno (st_proc st) + 1\<rparr>"
  let ?st = "st\<lparr>st_proc := ?p\<rparr>"
  have ok1: "account_ok own ?st" using ok by (simp add: account_ok_frame)
  have live: "live ?st = live st" by (simp add: live_def fun_eq_iff)
  have kept: "others_kept own ?st st' \<Longrightarrow> others_kept own st st'" for st'
    by (simp add: others_kept_def)
  have rd1: "readable env m (p_pid (st_proc ?st)) stack" using rd by simp
  have run: "\<exists>st'. alloc_command env m i stack ?st = Some st' \<and>
      command_ok own st (live_alloc (new_ptr i) (ucast (i_size i)) stack \<circ> live_free (old_ptr i)) st'" for i
    using alloc_command_spec [OF ok1 rd1, of i] live kept by (auto simp: command_ok_def)
  have step: "live_step info stack = live_alloc (new_ptr info) (ucast (i_size info)) stack \<circ> live_free (old_ptr info)"
    if "operation info \<noteq> MI_EXIT" "operation info \<noteq> MI_TIME"
    using that by (cases "operation info") (simp_all add: live_step_def fun_eq_iff)
  have time: "live_step info stack = live_alloc (ucast (i_seqno info + 1)) 1 stack \<circ> live_free 0"
    if "operation info = MI_TIME"
    using that by (simp add: live_step_def fun_eq_iff live_free_def)
  show ?thesis
  proof (cases "operation info = MI_EXIT")
    case True
    then have "execute_command env m info stack st = Some (info, ?st)"
      by (simp add: execute_command_def Let_def)
    moreover have "command_ok own st (live_step info stack) ?st"
      using ok1 live True by (simp add: command_ok_def others_kept_def live_step_def)
    ultimately show ?thesis by blast
  next
    case False
    show ?thesis
    proof (cases "operation info = MI_TIME")
      case True
      then show ?thesis
        using run [of "time_info (p_seqno ?p) info"] due time
        by (auto simp: execute_command_def Let_def time_info_def)
    next
      case no_time: False
      with False op step show ?thesis
        using run [of info]
        by (cases "operation info") (auto simp: execute_command_def Let_def applicable_def)
    qed
  qed
qed

fun live_run :: "command list \<Rightarrow> (ptr \<rightharpoonup> u32 \<times> nref option) \<Rightarrow> ptr \<rightharpoonup> u32 \<times> nref option" where
  "live_run [] m = m"
| "live_run (c # cs) m = live_run cs (live_step (c_info c) (c_stack c) m)"

definition acceptable :: "env \<Rightarrow> (nref \<rightharpoonup> stack_node) \<Rightarrow> pid \<Rightarrow> command \<Rightarrow> bool" where
  "acceptable env m pid c \<longleftrightarrow> applicable (operation (c_info c)) \<and> readable env m pid (c_stack c)"

lemma run_commands_spec:
  "account_ok own st \<Longrightarrow> numbered command_no (p_seqno (st_proc st)) cs \<Longrightarrow>
   list_all (acceptable env m (p_pid (st_proc st))) cs \<Longrightarrow>
   \<exists>st'. run_in_order (run_command env m) cs st = Some st' \<and> account_ok own st' \<and>
     live st' = live_run cs (live st) \<and> others_kept own st st' \<and> st_queue st' = st_queue st"
proof (induction cs arbitrary: st)
  case Nil
  then show ?case by simp
next
  case (Cons c cs)
  note num = pc.numbered_tail [OF Cons.prems(2)]
  have acc: "acceptable env m (p_pid (st_proc st)) c" using Cons.prems(3) by simp
  then obtain info' st1 where e: "execute_command env m (c_info c) (c_stack c) st = Some (info', st1)"
    "command_ok own st (live_step (c_info c) (c_stack c)) st1"
    using execute_command_spec [OF Cons.prems(1), of env m "c_stack c" "c_info c"] num(1)
    by (auto simp: acceptable_def command_no_def)
  note fr = execute_command_frame [OF e(1)]
  from e(2) have st1: "account_ok own st1" "live st1 = live_step (c_info c) (c_stack c) (live st)"
    "others_kept own st st1" by (simp_all add: command_ok_def)
  have "p_pid (st_proc st1) = p_pid (st_proc st)" using st1(3) by (simp add: others_kept_def)
  then have "list_all (acceptable env m (p_pid (st_proc st1))) cs" using Cons.prems(3) by simp
  with Cons.IH [OF st1(1)] num(2) fr obtain st' where
    "run_in_order (run_command env m) cs st1 = Some st'" "account_ok own st'"
    "live st' = live_run cs (live st1)" "others_kept own st1 st'" "st_queue st' = st_queue st1" by auto
  moreover have "run_command env m c st = Some st1" using e(1) by (simp add: run_command_def)
  ultimately show ?case using st1 fr by (auto intro: others_kept_trans)
qed

section \<open>Every command that returns keeps the accounts\<close>

lemma release_old_keeps:
  assumes ok: "account_ok own st" and t: "p_block_table (st_proc st) = Some t"
    and r: "release_old env m info stack t st = Some (st', t')"
  shows "p_block_table (st_proc st') = Some t' \<and> account_ok own st' \<and> others_kept own st st'"
proof (cases "old_ptr info = 0 \<or> t (old_ptr info) \<noteq> None")
  case True
  show ?thesis
  proof (cases "old_ptr info = 0")
    case True
    with r ok t show ?thesis by (simp add: release_old_def)
  next
    case False
    with True obtain q where "t (old_ptr info) = Some q" by auto
    from release_known [OF ok t False this, of env m stack] r show ?thesis
      by (auto simp: command_ok_def)
  qed
next
  case False
  with r obtain p s ls where
    d: "process_dump_stack env m stack (st_proc st, st_inodes st) = Some (p, s, ls)"
      "st' = st\<lparr>st_proc := p, st_inodes := s,
        st_log := st_log st @ Block_Not_Found (old_ptr info) (p_pid p) # map Dump ls\<rparr>" "t' = t"
    by (auto simp: release_old_def bind_eq_Some)
  from dump_stack_frame [OF d(1)] have fr: "recached (st_proc st) p" by simp
  note fr = recached_frame [OF fr]
  have "table p = table (st_proc st)" using fr by (simp add: table_def)
  then show ?thesis using ok t fr d(2,3)
    by (auto simp: account_ok_def totals_ok_def others_kept_def)
qed

lemma alloc_command_keeps:
  assumes ok: "account_ok own st" and r: "alloc_command env m info stack st = Some st'"
  shows "account_ok own st' \<and> others_kept own st st'"
proof -
  obtain p t where p: "get_block_table (st_proc st) = (p, t)" by (cases "get_block_table (st_proc st)")
  let ?st = "st\<lparr>st_proc := p\<rparr>"
  from get_block_table_spec [OF p] have t: "t = table (st_proc st)" "p_block_table p = Some t"
    "table p = t" "p = st_proc st\<lparr>p_block_table := Some t\<rparr>" by auto
  have fields: "p_pid p = p_pid (st_proc st)" "p_n_allocations p = p_n_allocations (st_proc st)"
    "p_bytes_used p = p_bytes_used (st_proc st)" by (subst t(4), simp)+
  have "account_ok own ?st"
    using ok t(1,3) fields by (simp add: account_ok_def totals_ok_def)
  moreover from r p obtain st1 t1 where
    r1: "release_old env m info stack t ?st = Some (st1, t1)" "st' = enter_new info stack t1 st1"
    by (auto simp: alloc_command_def bind_eq_Some)
  ultimately have k: "p_block_table (st_proc st1) = Some t1" "account_ok own st1" "others_kept own ?st st1"
    using release_old_keeps [of own ?st t env m info stack st1 t1] t(2) by simp_all
  have "command_ok own st1 (live_alloc (new_ptr info) (ucast (i_size info)) stack) st'"
    unfolding r1(2) by (rule enter_new_spec [OF k(2,1) account_fresh [OF k(2)]])
  moreover have "others_kept own st st1" using k(3) fields by (simp add: others_kept_def)
  ultimately show ?thesis by (auto simp: command_ok_def intro: others_kept_trans)
qed

lemma execute_command_keeps:
  assumes ok: "account_ok own st" and r: "execute_command env m info stack st = Some (info', st')"
  shows "account_ok own st' \<and> others_kept own st st'"
proof -
  let ?st = "st\<lparr>st_proc := st_proc st\<lparr>p_seqno := p_seqno (st_proc st) + 1\<rparr>\<rparr>"
  have ok1: "account_ok own ?st" using ok by (simp add: account_ok_frame)
  have kept: "others_kept own ?st st' \<Longrightarrow> others_kept own st st'"
    by (simp add: others_kept_def)
  show ?thesis
  proof (cases "operation info = MI_EXIT")
    case True
    with r ok1 show ?thesis by (auto simp: execute_command_def Let_def others_kept_def)
  next
    case False
    with r obtain i where "alloc_command env m i stack ?st = Some st'"
      by (cases "operation info") (auto simp: execute_command_def Let_def)
    from alloc_command_keeps [OF ok1 this] kept show ?thesis by blast
  qed
qed

text \<open>The extra clauses: a command changes nothing of the process but its accounts and caches.\<close>

definition same_role :: "mp_process \<Rightarrow> mp_process \<Rightarrow> bool" where
  "same_role p p' \<longleftrightarrow> p_pid p' = p_pid p \<and> p_clone_of p' = p_clone_of p \<and> p_parent p' = p_parent p \<and>
     p_status p' = p_status p \<and> p_input_tag p' = p_input_tag p \<and>
     p_input_channel p' = p_input_channel p \<and> p_stack_stash p' = p_stack_stash p \<and>
     p_follow_fork p' = p_follow_fork p \<and> p_follow_exec p' = p_follow_exec p"

lemma same_role_refl [simp]: "same_role p p"
  and same_role_trans [trans]: "same_role p q \<Longrightarrow> same_role q r \<Longrightarrow> same_role p r"
  by (simp_all add: same_role_def)

lemma same_role_upd [simp]:
  "same_role p (p\<lparr>p_seqno := n\<rparr>)" "same_role p (p\<lparr>p_command_queue := q\<rparr>)"
  "same_role p (p\<lparr>p_block_table := t\<rparr>)" "same_role p (p\<lparr>p_bytes_used := n\<rparr>)"
  "same_role p (p\<lparr>p_n_allocations := n\<rparr>)"
  by (simp_all add: same_role_def)

lemma recached_role: "recached p p' \<Longrightarrow> same_role p p'"
  by (simp add: same_role_def frame_rules)

lemma alloc_command_role:
  assumes "alloc_command env m info stack st = Some st'"
  shows "same_role (st_proc st) (st_proc st')"
proof -
  obtain p t where p: "get_block_table (st_proc st) = (p, t)" by (cases "get_block_table (st_proc st)")
  then have p0: "same_role (st_proc st) p" by (auto simp: get_block_table_def split: option.splits)
  from assms p obtain st1 t1 where r: "release_old env m info stack t (st\<lparr>st_proc := p\<rparr>) = Some (st1, t1)"
    "st' = enter_new info stack t1 st1" by (auto simp: alloc_command_def bind_eq_Some)
  have "same_role p (st_proc st1)"
  proof (cases "old_ptr info = 0 \<or> t (old_ptr info) \<noteq> None")
    case True
    with r(1) show ?thesis
      by (auto simp: release_old_def Let_def bind_eq_Some same_role_def split: if_splits option.splits)
  next
    case False
    with r(1) obtain s ls where "process_dump_stack env m stack (p, st_inodes st) = Some (st_proc st1, s, ls)"
      by (auto simp: release_old_def bind_eq_Some split: if_splits option.splits)
    from dump_stack_frame [OF this] show ?thesis by (simp add: recached_role)
  qed
  moreover have "same_role (st_proc st1) (st_proc st')"
    unfolding r(2) by (simp add: enter_new_def block_new_def Let_def same_role_def)
  ultimately show ?thesis using p0 by (blast intro: same_role_trans)
qed

lemma execute_command_role:
  assumes "execute_command env m info stack st = Some (info', st')"
  shows "same_role (st_proc st) (st_proc st')"
proof (cases "operation info = MI_EXIT")
  case True
  with assms show ?thesis by (auto simp: execute_command_def Let_def)
next
  case False
  let ?st = "st\<lparr>st_proc := st_proc st\<lparr>p_seqno := p_seqno (st_proc st) + 1\<rparr>\<rparr>"
  from False assms obtain i where "alloc_command env m i stack ?st = Some st'"
    by (cases "operation info") (auto simp: execute_command_def Let_def)
  from alloc_command_role [OF this] show ?thesis by (auto intro: same_role_trans [rotated])
qed

definition kept :: "(bref \<Rightarrow> nat) \<Rightarrow> proc_state \<Rightarrow> proc_state \<Rightarrow> bool" where
  "kept own st st' \<longleftrightarrow> account_ok own st' \<and> others_kept own st st' \<and> same_role (st_proc st) (st_proc st')"

lemma kept_trans: "kept own a b \<Longrightarrow> kept own b c \<Longrightarrow> kept own a c"
  by (auto simp: kept_def intro: others_kept_trans same_role_trans)

lemma kept_queue: "account_ok own st \<Longrightarrow> kept own st (st\<lparr>st_proc := with_queue q (st_proc st)\<rparr>)"
  by (simp add: kept_def account_ok_frame others_kept_def)

lemma process_command_keeps:
  "process_command env m info stack st = Some (info', st') \<Longrightarrow> account_ok own st \<Longrightarrow> kept own st st'"
  "drain_queue env m info st = Some (info', st') \<Longrightarrow> account_ok own st \<Longrightarrow> kept own st st'"
proof (induction env m info stack st and env m info st arbitrary: info' st' and info' st'
    rule: process_command_drain_queue.induct)
  case (1 env m info stack st)
  show ?case
  proof (cases "i_seqno info = p_seqno (st_proc st)")
    case False
    with 1 show ?thesis
      by (subst (asm) process_command.simps) (auto simp: queue_command_def intro: kept_queue)
  next
    case True
    with "1.prems"(1) obtain i st1 where e: "execute_command env m info stack st = Some (i, st1)"
      "drain_queue env m i st1 = Some (info', st')"
      by (subst (asm) process_command.simps) (auto simp: bind_eq_Some)
    have k: "kept own st st1"
      using execute_command_keeps [OF "1.prems"(2) e(1)] execute_command_role [OF e(1)] by (simp add: kept_def)
    then have "account_ok own st1" by (simp add: kept_def)
    with 1(1) [OF _ e(1) refl e(2)] True have "kept own st1 st'" by simp
    with k show ?thesis by (rule kept_trans)
  qed
next
  case (2 env m info st)
  show ?case
  proof (cases "unqueue_command (st_proc st)")
    case None
    with 2 show ?thesis by (subst (asm) drain_queue.simps) (auto simp: kept_def)
  next
    case (Some r)
    obtain i k p where r: "r = (i, k, p)" by (cases r)
    with Some "2.prems"(1) obtain j st1 where
      c: "process_command env m i k (st\<lparr>st_proc := p\<rparr>) = Some (j, st1)"
        "drain_queue env m j st1 = Some (info', st')"
      by (subst (asm) drain_queue.simps) (auto simp: bind_eq_Some)
    from Some r obtain q where "p = with_queue q (st_proc st)" by (auto simp: unqueue_command_Some)
    with kept_queue [OF "2.prems"(2)] have k0: "kept own st (st\<lparr>st_proc := p\<rparr>)" by simp
    then have "account_ok own (st\<lparr>st_proc := p\<rparr>)" by (simp add: kept_def)
    with 2(1) [OF Some [unfolded r] refl refl c(1)] have k1: "kept own (st\<lparr>st_proc := p\<rparr>) st1" .
    then have "account_ok own st1" by (simp add: kept_def)
    with 2(2) [OF Some [unfolded r] refl refl c(1) refl c(2)] have "kept own st1 st'" .
    with k0 k1 show ?thesis by (blast intro: kept_trans)
  qed
qed

section \<open>Properties\<close>

text \<open>
  Property C1: the order in which the commands of a process arrive does not matter. Whatever
  permutation of consecutively numbered commands \<open>process_command\<close> receives, it returns for
  each of them, and in the end nothing is queued, the live blocks are those of the commands
  applied in the order of their numbers to the abstract map of live blocks, the two totals are
  the number and the sum of the sizes of the live blocks (modulo \<open>2 ^ 32\<close>), the reference
  counts are right, and no block of another process has changed.
\<close>

theorem commands_any_order:
  assumes "account_ok own st" and "st_queue st = []"
    and "numbered command_no (p_seqno (st_proc st)) cs"
    and "list_all (acceptable env m (p_pid (st_proc st))) cs" and "mset ds = mset cs"
  shows "\<exists>st'. run_in_order (deliver_command env m) ds st = Some st' \<and> st_queue st' = [] \<and>
    p_seqno (st_proc st') = p_seqno (st_proc st) + of_nat (length cs) \<and>
    live st' = live_run cs (live st) \<and> account_ok own st' \<and> others_kept own st st'"
proof -
  from run_commands_spec [OF assms(1,3,4)] assms(2) obtain st' where
    st': "run_in_order (run_command env m) cs st = Some st'" "account_ok own st'"
      "live st' = live_run cs (live st)" "others_kept own st st'" "st_queue st' = []" by auto
  have "run_in_order (deliver_command env m) ds st = Some st'"
    by (rule pc.any_order [OF assms(3) st'(1) assms(2,5)])
  with st' pc.run_next [OF st'(1)] show ?thesis by (intro exI [of _ st'] conjI) simp_all
qed

text \<open>An instance: two allocations and a release that overtakes both.\<close>

definition start_state :: "pid \<Rightarrow> proc_state" where
  "start_state pid = \<lparr>st_proc = running_process pid, st_blocks = \<lparr>blocks = Map.empty, n_new = 0\<rparr>,
     st_inodes = no_inodes, st_log = []\<rparr>"

definition alloc_info :: "u32 \<Rightarrow> mi_operation \<Rightarrow> ptr \<Rightarrow> ptr \<Rightarrow> 64 word \<Rightarrow> command" where
  "alloc_info n op old new sz =
     \<lparr>c_info = zero_info\<lparr>operation := op, i_pid := 7, i_seqno := n, old_ptr := old, new_ptr := new,
        i_size := sz\<rparr>, c_stack = None\<rparr>"

lemma start_ok: "account_ok (\<lambda>r. 0) (start_state pid)"
  by (simp add: account_ok_def blocks_ok_def totals_ok_def start_state_def running_process_def table_def)

lemma start_simps: "st_queue (start_state pid) = []" "p_seqno (st_proc (start_state pid)) = 0"
  "p_pid (st_proc (start_state pid)) = pid" "live (start_state pid) = Map.empty"
  by (simp_all add: start_state_def running_process_def live_def table_def fun_eq_iff)

lemma alloc_info_acceptable:
  "applicable op \<Longrightarrow> acceptable prog_env m pid (alloc_info n op old new sz)"
  by (simp add: acceptable_def alloc_info_def readable_def prog_env_def frames_of.simps)

lemma alloc_info_simps: "command_no (alloc_info n op old new sz) = n"
  "operation (c_info (alloc_info n op old new sz)) = op" "c_stack (alloc_info n op old new sz) = None"
  "old_ptr (c_info (alloc_info n op old new sz)) = old"
  "new_ptr (c_info (alloc_info n op old new sz)) = new"
  "i_size (c_info (alloc_info n op old new sz)) = sz"
  by (simp_all add: alloc_info_def command_no_def)

definition sample_commands :: "command list" where
  "sample_commands = [alloc_info 0 MI_MALLOC 0 0x10 5, alloc_info 1 MI_MALLOC 0 0x20 7,
     alloc_info 2 MI_FREE 0x10 0 0]"

lemma sample_numbered: "numbered command_no 0 sample_commands"
  by (auto simp: numbered_def sample_commands_def alloc_info_simps less_Suc_eq numeral_3_eq_3)

lemma sample_acceptable: "list_all (acceptable prog_env m 7) sample_commands"
  by (simp add: sample_commands_def alloc_info_acceptable applicable_def)

lemma sample_live: "live_run sample_commands Map.empty = [0x20 \<mapsto> (7, None)]"
  by (rule ext) (simp add: sample_commands_def live_step_def alloc_info_simps live_alloc_def live_free_def)

theorem commands_any_order_witness:
  "\<exists>st'. run_in_order (deliver_command prog_env Map.empty)
       [sample_commands ! 2, sample_commands ! 0, sample_commands ! 1] (start_state 7) = Some st' \<and>
     st_queue st' = [] \<and> live st' = [0x20 \<mapsto> (7, None)] \<and> account_ok (\<lambda>r. 0) st'"
proof -
  let ?ds = "[sample_commands ! 2, sample_commands ! 0, sample_commands ! 1]"
  have "mset ?ds = mset sample_commands" by (simp add: sample_commands_def)
  then have "\<exists>st'. run_in_order (deliver_command prog_env Map.empty) ?ds (start_state 7) = Some st' \<and>
      st_queue st' = [] \<and> p_seqno (st_proc st') = p_seqno (st_proc (start_state 7)) + of_nat (length sample_commands) \<and>
      live st' = live_run sample_commands (live (start_state 7)) \<and> account_ok (\<lambda>r. 0) st' \<and>
      others_kept (\<lambda>r. 0) (start_state 7) st'"
    by (intro commands_any_order [OF start_ok])
      (simp_all only: start_simps sample_numbered sample_acceptable)
  then show ?thesis unfolding start_simps sample_live by blast
qed

text \<open>
  Property C7: nothing is applied early or held back without need. After any part of the numbered
  commands has arrived, in any order, exactly the commands before the first missing one have
  been applied, in order, and the others wait in the queue, sorted by their numbers.
\<close>

theorem commands_held_back:
  assumes "account_ok own st" and "st_queue st = []"
    and "numbered command_no (p_seqno (st_proc st)) cs"
    and "list_all (acceptable env m (p_pid (st_proc st))) cs" and "set ds \<subseteq> set cs" and "distinct ds"
  shows "\<exists>k t q. run_in_order (deliver_command env m) ds st = Some (set_st_queue q t) \<and> k \<le> length cs \<and>
    set (take k cs) \<subseteq> set ds \<and> (k < length cs \<longrightarrow> cs ! k \<notin> set ds) \<and>
    live t = live_run (take k cs) (live st) \<and> account_ok own t \<and>
    sorted (map command_no q) \<and> distinct q \<and> set q = set ds - set (take k cs)"
proof -
  from run_commands_spec [OF assms(1,3,4)] obtain st' where
    "run_in_order (run_command env m) cs st = Some st'" by auto
  from pc.partial_order [OF assms(3) this assms(2,5,6)] obtain k t q where
    k: "run_in_order (deliver_command env m) ds st = Some (set_st_queue q t)" "k \<le> length cs"
      "run_in_order (run_command env m) (take k cs) st = Some t"
      "set (take k cs) \<subseteq> set ds" "k < length cs \<longrightarrow> cs ! k \<notin> set ds"
      "sorted (map command_no q)" "distinct q" "set q = set ds - set (take k cs)" by blast
  have "numbered command_no (p_seqno (st_proc st)) (take k cs)"
    using assms(3) by (auto simp: numbered_def min_def)
  moreover have "list_all (acceptable env m (p_pid (st_proc st))) (take k cs)"
    using assms(4) by (auto simp: list_all_iff dest: in_set_takeD)
  ultimately have "account_ok own t" "live t = live_run (take k cs) (live st)"
    using run_commands_spec [OF assms(1)] k(3) by fastforce+
  with k show ?thesis by blast
qed

theorem commands_held_back_witness:
  "\<exists>k t q. run_in_order (deliver_command prog_env Map.empty) [sample_commands ! 2, sample_commands ! 0]
       (start_state 7) = Some (set_st_queue q t) \<and> k \<le> 3 \<and>
     live t = live_run (take k sample_commands) Map.empty \<and>
     (k < 3 \<longrightarrow> sample_commands ! k \<notin> {sample_commands ! 2, sample_commands ! 0})"
proof -
  have s: "set [sample_commands ! 2, sample_commands ! 0] \<subseteq> set sample_commands"
    "distinct [sample_commands ! 2, sample_commands ! 0]" "length sample_commands = 3"
    by (simp_all add: sample_commands_def alloc_info_def zero_info_def)
  show ?thesis
    using commands_held_back [OF start_ok _ _ _ s(1,2), of 7 prog_env Map.empty]
      sample_numbered sample_acceptable s(3) by (simp add: start_simps) blast
qed

end
