(* ===== verification/World.thy ===== *)
theory World
  imports Process_Command
begin

text \<open>
  The profiler's state around the single process: all processes it has created, the blocks and
  call stacks they share, the table of inodes, and the server's table of process ids. On it
  the remaining operations of src/process.c: creating and duplicating processes, resetting
  them, their input, their status.
\<close>

text \<open>
  \<open>w_pid_table\<close> and the settings are the fields of the server object (\<open>struct _MPServer\<close>);
  \<open>w_follow_fork\<close> and \<open>w_follow_exec\<close> are the command line options that the handler of the
  server's signal gives to a new process.
\<close>

datatype profile_type = MP_PROFILE_MEMORY | MP_PROFILE_CYCLES | MP_PROFILE_TIME

record world =
  w_procs :: "pref \<rightharpoonup> mp_process"
  w_next_proc :: nat
  w_blocks :: block_heap
  w_nodes :: node_heap
  w_stashes :: "sref \<rightharpoonup> stack_stash"
  w_next_stash :: nat
  w_inodes :: inode_state
  w_log :: "event list"
  w_pid_table :: "(pid \<rightharpoonup> pref) option"
  w_profile_type :: profile_type
  w_interval :: u32
  w_socket_path :: "string option"
  w_follow_fork :: bool
  w_follow_exec :: bool

section \<open>Access to a process\<close>

definition put :: "pref \<Rightarrow> mp_process \<Rightarrow> world \<Rightarrow> world" where
  "put i p w = w\<lparr>w_procs := (w_procs w)(i \<mapsto> p)\<rparr>"

definition modify :: "pref \<Rightarrow> (mp_process \<Rightarrow> mp_process) \<Rightarrow> world \<Rightarrow> world option" where
  "modify i f w = map_option (\<lambda>p. put i (f p) w) (w_procs w i)"

definition emit :: "event \<Rightarrow> world \<Rightarrow> world" where
  "emit e w = w\<lparr>w_log := w_log w @ [e]\<rparr>"

text \<open>\<open>while (process->clone_of) process = process->clone_of\<close>.\<close>

partial_function (option) clone_root :: "(pref \<rightharpoonup> mp_process) \<Rightarrow> pref \<Rightarrow> pref option" where
  "clone_root m i = (case m i of None \<Rightarrow> None
     | Some p \<Rightarrow> (case p_clone_of p of None \<Rightarrow> Some i | Some j \<Rightarrow> clone_root m j))"

section \<open>Creation\<close>

text \<open>\<open>g_object_new\<close> clears the structure; \<open>mp_process_init\<close> sets its fields.\<close>

definition mp_process_init :: mp_process where
  "mp_process_init = \<lparr>p_status = MP_PROCESS_INIT, p_pid = 0, p_program_name = None,
     p_clone_of = None, p_parent = None, p_seqno = 0, p_bytes_used = 0, p_n_allocations = 0,
     p_input_tag = False, p_input_channel = None, p_map_list = [], p_bad_pages = [],
     p_block_table = None, p_stack_stash = None, p_command_queue = [], p_follow_fork = False,
     p_follow_exec = False, p_strings = 0\<rparr>"

definition process_new :: "world \<Rightarrow> world \<times> pref" where
  "process_new w =
     (let i = w_next_proc w in (put i mp_process_init (w\<lparr>w_next_proc := Suc i\<rparr>), i))"

text \<open>\<open>process_duplicate_block\<close>: one more reference, the same block in the new table.\<close>

definition block_ref :: "bref \<Rightarrow> block_heap \<Rightarrow> block_heap option" where
  "block_ref r h = (case blocks h r of None \<Rightarrow> None
     | Some b \<Rightarrow> Some (h\<lparr>blocks := (blocks h)(r \<mapsto> b\<lparr>b_refcount := b_refcount b + 1\<rparr>)\<rparr>))"

fun duplicate_blocks ::
    "(ptr \<rightharpoonup> bref) \<Rightarrow> ptr list \<Rightarrow> block_heap \<times> (ptr \<rightharpoonup> bref) \<Rightarrow> (block_heap \<times> (ptr \<rightharpoonup> bref)) option" where
  "duplicate_blocks t [] hn = Some hn"
| "duplicate_blocks t (a # as) hn = do {
     r \<leftarrow> t a;
     h \<leftarrow> block_ref r (fst hn);
     duplicate_blocks t as (h, (snd hn)(a \<mapsto> r))
   }"

definition process_duplicate ::
    "((ptr \<rightharpoonup> bref) \<Rightarrow> ptr list) \<Rightarrow> pref \<Rightarrow> world \<Rightarrow> (world \<times> pref) option" where
  "process_duplicate enum i w = do {
     p \<leftarrow> w_procs w i;
     let (w, j) = process_new w;
     (h, table) \<leftarrow> (case p_block_table p of None \<Rightarrow> Some (w_blocks w, None)
        | Some t \<Rightarrow> map_option (apsnd Some) (duplicate_blocks t (enum t) (w_blocks w, Map.empty)));
     Some (put j (mp_process_init\<lparr>p_block_table := table, p_bytes_used := p_bytes_used p,
         p_n_allocations := p_n_allocations p, p_seqno := p_seqno p, p_parent := Some i\<rparr>)
       (w\<lparr>w_blocks := h\<rparr>), j)
   }"

section \<open>Input, status\<close>

definition stop_input :: "mp_process \<Rightarrow> mp_process" where
  "stop_input p = (if p_input_tag p then p\<lparr>p_input_tag := False\<rparr> else p)"

definition start_input :: "mp_process \<Rightarrow> mp_process" where
  "start_input p = (if \<not> p_input_tag p \<and> p_input_channel p \<noteq> None then p\<lparr>p_input_tag := True\<rparr> else p)"

definition process_stop_input :: "pref \<Rightarrow> world \<Rightarrow> world option" where
  "process_stop_input i w = modify i stop_input w"

definition process_start_input :: "pref \<Rightarrow> world \<Rightarrow> world option" where
  "process_start_input i w = modify i start_input w"

definition process_is_recording :: "mp_process \<Rightarrow> bool" where
  "process_is_recording p = p_input_tag p"

definition process_set_follow_fork :: "bool \<Rightarrow> mp_process \<Rightarrow> mp_process" where
  "process_set_follow_fork b p = p\<lparr>p_follow_fork := b\<rparr>"

definition process_set_follow_exec :: "bool \<Rightarrow> mp_process \<Rightarrow> mp_process" where
  "process_set_follow_exec b p = p\<lparr>p_follow_exec := b\<rparr>"

definition process_set_status :: "pref \<Rightarrow> process_status \<Rightarrow> world \<Rightarrow> world option" where
  "process_set_status i s w = do {
     p \<leftarrow> w_procs w i;
     Some (if p_status p \<noteq> s then emit (Status_Changed i) (put i (p\<lparr>p_status := s\<rparr>) w) else w)
   }"

definition process_get_status_text :: "process_status \<Rightarrow> string" where
  "process_get_status_text s = (case s of
       MP_PROCESS_INIT \<Rightarrow> ''Initial'' | MP_PROCESS_STARTING \<Rightarrow> ''Starting''
     | MP_PROCESS_RUNNING \<Rightarrow> ''Running'' | MP_PROCESS_EXITING \<Rightarrow> ''Exiting''
     | MP_PROCESS_DEFUNCT \<Rightarrow> ''Defunct'' | MP_PROCESS_DETACHED \<Rightarrow> ''Defunct'')"

text \<open>
  \<open>process_detach\<close>: a process that waits in its \<open>_exit\<close> is let go with a zero byte, any other
  loses its connection. (A process that is not defunct but has no channel makes
  \<open>g_io_channel_unix_get_fd\<close> fail.)
\<close>

definition process_detach :: "pref \<Rightarrow> world \<Rightarrow> world option" where
  "process_detach i w = do {
     p \<leftarrow> w_procs w i;
     if p_status p \<noteq> MP_PROCESS_DEFUNCT then do {
       fd \<leftarrow> p_input_channel p;
       if p_status p = MP_PROCESS_EXITING then Some (emit (Response fd False) w)
       else process_set_status i MP_PROCESS_DETACHED (emit (Shutdown fd) w)
     } else Some w
   }"

definition process_kill :: "pref \<Rightarrow> world \<Rightarrow> world option" where
  "process_kill i w = do {
     p \<leftarrow> w_procs w i;
     if p_status p = MP_PROCESS_EXITING then process_detach i w
     else if p_status p \<noteq> MP_PROCESS_DEFUNCT \<and> p_status p \<noteq> MP_PROCESS_INIT
       then Some (emit (Terminate (p_pid p)) w)
     else Some w
   }"

section \<open>Forgetting what was recorded\<close>

text \<open>\<open>g_hash_table_foreach (block_table, process_free_block, NULL)\<close>.\<close>

fun free_blocks :: "(ptr \<rightharpoonup> bref) \<Rightarrow> ptr list \<Rightarrow> block_heap \<Rightarrow> block_heap option" where
  "free_blocks t [] h = Some h"
| "free_blocks t (a # as) h = do { r \<leftarrow> t a; h \<leftarrow> block_unref r h; free_blocks t as h }"

definition release_table ::
    "((ptr \<rightharpoonup> bref) \<Rightarrow> ptr list) \<Rightarrow> mp_process \<Rightarrow> block_heap \<Rightarrow> block_heap option" where
  "release_table enum p h = (case p_block_table p of None \<Rightarrow> Some h
     | Some t \<Rightarrow> free_blocks t (enum t) h)"

text \<open>The stash of a process; the order in which its keys are visited does not matter, it has
  no destroy function.\<close>

definition release_stash :: "mp_process \<Rightarrow> world \<Rightarrow> world option" where
  "release_stash p w = (case p_stack_stash p of None \<Rightarrow> Some w
     | Some r \<Rightarrow> (case w_stashes w r of None \<Rightarrow> None
        | Some s \<Rightarrow>
            let (h, s', _) = stack_stash_unref (\<lambda>_. []) (w_nodes w) s
            in Some (w\<lparr>w_nodes := h, w_stashes := (w_stashes w)(r := s')\<rparr>)))"

definition process_reinit :: "((ptr \<rightharpoonup> bref) \<Rightarrow> ptr list) \<Rightarrow> pref \<Rightarrow> world \<Rightarrow> world option" where
  "process_reinit enum i w = do {
     w \<leftarrow> process_stop_input i w;
     p \<leftarrow> w_procs w i;
     h \<leftarrow> release_table enum p (w_blocks w);
     w \<leftarrow> release_stash p (w\<lparr>w_blocks := h\<rparr>);
     Some (put i (p\<lparr>p_input_channel := None, p_bytes_used := 0, p_n_allocations := 0, p_seqno := 0,
         p_map_list := [], p_bad_pages := [], p_block_table := None, p_stack_stash := None,
         p_command_queue := []\<rparr>) w)
   }"

definition process_exec_reset :: "((ptr \<rightharpoonup> bref) \<Rightarrow> ptr list) \<Rightarrow> pref \<Rightarrow> world \<Rightarrow> world option" where
  "process_exec_reset enum i w = map_option (emit (Reset i)) (process_reinit enum i w)"

definition process_clear_input :: "((ptr \<rightharpoonup> bref) \<Rightarrow> ptr list) \<Rightarrow> pref \<Rightarrow> world \<Rightarrow> world option" where
  "process_clear_input enum i w = do {
     p \<leftarrow> w_procs w i;
     h \<leftarrow> release_table enum p (w_blocks w);
     w \<leftarrow> release_stash p (w\<lparr>w_blocks := h\<rparr>);
     Some (put i (p\<lparr>p_bytes_used := 0, p_n_allocations := 0, p_map_list := [], p_bad_pages := [],
         p_block_table := None, p_stack_stash := None\<rparr>) w)
   }"

definition mp_process_finalize :: "((ptr \<rightharpoonup> bref) \<Rightarrow> ptr list) \<Rightarrow> pref \<Rightarrow> world \<Rightarrow> world option" where
  "mp_process_finalize enum i w = do {
     w \<leftarrow> process_reinit enum i w;
     modify i (\<lambda>p. p\<lparr>p_program_name := None\<rparr>) w
   }"

definition get_stack_stash :: "pref \<Rightarrow> world \<Rightarrow> (world \<times> sref) option" where
  "get_stack_stash i w = do {
     p \<leftarrow> w_procs w i;
     case p_stack_stash p of Some r \<Rightarrow> Some (w, r)
     | None \<Rightarrow>
         let r = w_next_stash w in
         Some (put i (p\<lparr>p_stack_stash := Some r\<rparr>)
           (w\<lparr>w_stashes := (w_stashes w)(r \<mapsto> stack_stash_new False), w_next_stash := Suc r\<rparr>), r)
   }"

text \<open>The blocks \<open>process_block_foreach\<close> hands to its function.\<close>

definition process_block_foreach ::
    "((ptr \<rightharpoonup> bref) \<Rightarrow> ptr list) \<Rightarrow> pref \<Rightarrow> world \<Rightarrow> (world \<times> bref list) option" where
  "process_block_foreach enum i w = do {
     p \<leftarrow> w_procs w i;
     let (p, t) = get_block_table p;
     Some (put i p w, List.map_filter t (enum t))
   }"

end
