(* ===== verification/Server.thy ===== *)
theory Server
  imports World
begin

text \<open>
  The server (src/server.c): the table of traced processes, the control socket over which a
  new process announces itself, the environment given to a program that is run; and the
  handler of the messages of a connected process (\<open>input_func\<close> of src/process.c), which
  removes the process from the table when its connection ends.
\<close>

section \<open>The table of processes\<close>

definition mp_server_find_process :: "world \<Rightarrow> pid \<Rightarrow> pref option" where
  "mp_server_find_process w pid = (case w_pid_table w of None \<Rightarrow> None | Some t \<Rightarrow> t pid)"

definition mp_server_add_process :: "pref \<Rightarrow> world \<Rightarrow> world option" where
  "mp_server_add_process i w = do {
     p \<leftarrow> w_procs w i;
     let t = (case w_pid_table w of None \<Rightarrow> Map.empty | Some t \<Rightarrow> t);
     Some (w\<lparr>w_pid_table := Some (t(p_pid p \<mapsto> i))\<rparr>)
   }"

text \<open>Only the process that is in the table is removed; another may have taken its pid.\<close>

definition mp_server_remove_process :: "pref \<Rightarrow> world \<Rightarrow> world option" where
  "mp_server_remove_process i w = (case w_pid_table w of None \<Rightarrow> Some w
     | Some t \<Rightarrow> do {
         p \<leftarrow> w_procs w i;
         Some (if t (p_pid p) = Some i then w\<lparr>w_pid_table := Some (t(p_pid p := None))\<rparr> else w)
       })"

fun add_clones :: "world \<Rightarrow> pref \<Rightarrow> pref list \<Rightarrow> pref list \<Rightarrow> pref list option" where
  "add_clones w parent [] acc = Some acc"
| "add_clones w parent (i # is) acc = do {
     root \<leftarrow> clone_root (w_procs w) i;
     add_clones w parent is (if root = parent then i # acc else acc)
   }"

definition mp_server_get_process_clones ::
    "((pid \<rightharpoonup> pref) \<Rightarrow> pid list) \<Rightarrow> pref \<Rightarrow> world \<Rightarrow> pref list option" where
  "mp_server_get_process_clones enum i w = (case w_pid_table w of None \<Rightarrow> Some []
     | Some t \<Rightarrow> add_clones w i (List.map_filter t (enum t)) [])"

definition process_get_clones :: "((pid \<rightharpoonup> pref) \<Rightarrow> pid list) \<Rightarrow> pref \<Rightarrow> world \<Rightarrow> pref list option" where
  "process_get_clones enum i w = mp_server_get_process_clones enum i w"

section \<open>Settings and the environment of a traced program\<close>

definition mp_server_set_profile_type :: "profile_type \<Rightarrow> world \<Rightarrow> world" where
  "mp_server_set_profile_type t w = w\<lparr>w_profile_type := t\<rparr>"

definition mp_server_set_interval :: "u32 \<Rightarrow> world \<Rightarrow> world" where
  "mp_server_set_interval usecs w = w\<lparr>w_interval := usecs\<rparr>"

text \<open>
  \<open>find_lib_location\<close>: \<open>readable_file\<close> says which files \<open>access\<close> finds readable, \<open>libdir\<close> is
  the configured \<open>PKGLIBDIR\<close>, \<open>cwd\<close> the current directory. When the library is in none of the
  directories the program reports it and exits.
\<close>

definition build_filename :: "string \<Rightarrow> string \<Rightarrow> string" where
  "build_filename dir base = dir @ ''/'' @ base"

definition lib_basename :: "profile_type \<Rightarrow> string" where
  "lib_basename t = (if t = MP_PROFILE_MEMORY then ''libmemintercept.so'' else ''libspeedintercept.so'')"

fun first_readable :: "(string \<Rightarrow> bool) \<Rightarrow> string \<Rightarrow> string list \<Rightarrow> string option" where
  "first_readable readable_file base [] = None"
| "first_readable readable_file base (d # ds) =
     (let path = build_filename d base in
      if readable_file path then Some path else first_readable readable_file base ds)"

definition find_lib_location ::
    "(string \<Rightarrow> bool) \<Rightarrow> string \<Rightarrow> string \<Rightarrow> profile_type \<Rightarrow> string option" where
  "find_lib_location readable_file libdir cwd t = do {
     l \<leftarrow> first_readable readable_file (lib_basename t) [''.libs'', ''.'', libdir];
     Some (if hd l \<noteq> CHR ''/'' then cwd @ ''/'' @ l else l)
   }"

text \<open>
  The strings the child hands to \<open>putenv\<close> before it executes the program; \<open>to_dec\<close> prints a
  number (\<open>%d\<close>).
\<close>

definition child_environment ::
    "(u32 \<Rightarrow> string) \<Rightarrow> string \<Rightarrow> string \<Rightarrow> profile_type \<Rightarrow> u32 \<Rightarrow> string list" where
  "child_environment to_dec socket lib t interval =
     [''_MEMPROF_SOCKET='' @ socket, ''LD_PRELOAD='' @ lib] @
     (if t \<noteq> MP_PROFILE_MEMORY
      then [''_MEMPROF_INTERVAL='' @ to_dec interval,
            ''_MEMPROF_SPEED_TYPE='' @ (if t = MP_PROFILE_CYCLES then ''cycles'' else ''time'')]
      else [])"

text \<open>\<open>pid\<close> is what \<open>fork\<close> returns in the parent, \<open>None\<close> if it fails (which is fatal).\<close>

definition mp_server_instrument ::
    "(string \<Rightarrow> bool) \<Rightarrow> string \<Rightarrow> string \<Rightarrow> (u32 \<Rightarrow> string) \<Rightarrow> pid option \<Rightarrow> world \<Rightarrow>
     (pid \<times> string list) option" where
  "mp_server_instrument readable_file libdir cwd to_dec forked w = do {
     lib \<leftarrow> find_lib_location readable_file libdir cwd (w_profile_type w);
     socket \<leftarrow> w_socket_path w;
     pid \<leftarrow> forked;
     Some (pid, child_environment to_dec socket lib (w_profile_type w) (w_interval w))
   }"

definition process_run ::
    "env \<Rightarrow> string \<Rightarrow> (pid \<times> string list) option \<Rightarrow> pref \<Rightarrow> world \<Rightarrow> world option" where
  "process_run env path instrumented i w = do {
     w \<leftarrow> modify i (\<lambda>p. p\<lparr>p_program_name := Some path\<rparr>) w;
     let w = w\<lparr>w_inodes := read_inode env path (w_inodes w)\<rparr>;
     (pid, _) \<leftarrow> instrumented;
     w \<leftarrow> modify i (\<lambda>p. p\<lparr>p_pid := pid\<rparr>) w;
     w \<leftarrow> mp_server_add_process i w;
     w \<leftarrow> process_set_status i MP_PROCESS_STARTING w;
     process_start_input i w
   }"

text \<open>
  \<open>create_control_socket\<close>, with the temporary names and the results of \<open>bind\<close> to come;
  \<open>None\<close> is \<open>fatal\<close>. (A temporary name is empty when \<open>mktemp\<close> failed.)
\<close>

datatype bind_result = Bound | Address_In_Use | Bind_Error

fun create_control_socket :: "nat \<Rightarrow> (string \<times> bind_result) list \<Rightarrow> string option" where
  "create_control_socket retry_count [] = None"
| "create_control_socket retry_count ((path, r) # rs) =
     (if retry_count = 0 then None
      else if path = [] then None
      else (case r of Bound \<Rightarrow> Some path
        | Address_In_Use \<Rightarrow> create_control_socket (retry_count - 1) rs
        | Bind_Error \<Rightarrow> None))"

definition mp_server_init :: "(string \<times> bind_result) list \<Rightarrow> world \<Rightarrow> world option" where
  "mp_server_init binds w = do {
     path \<leftarrow> create_control_socket 5 binds;
     Some (w\<lparr>w_profile_type := MP_PROFILE_MEMORY, w_interval := 10000, w_pid_table := None,
       w_socket_path := Some path\<rparr>)
   }"

section \<open>A new process connects\<close>

text \<open>The signal, and its handler in src/main.c, which gives the process a window.\<close>

definition init_process :: "bool \<Rightarrow> bool \<Rightarrow> mp_process \<Rightarrow> mp_process" where
  "init_process fork exec p = process_set_follow_exec exec (process_set_follow_fork fork p)"

definition mp_server_process_created :: "pref \<Rightarrow> world \<Rightarrow> world option" where
  "mp_server_process_created i w =
     modify i (init_process (w_follow_fork w) (w_follow_exec w)) (emit (Process_Created i) w)"

text \<open>
  The branches of \<open>control_func\<close>. The result is the process that is connected, \<open>None\<close> if the
  newcomer is turned away.
\<close>

definition connect_new ::
    "((ptr \<rightharpoonup> bref) \<Rightarrow> ptr list) \<Rightarrow> mi_info \<Rightarrow> world \<Rightarrow> (world \<times> pref option) option" where
  "connect_new enum info w = do {
     (w, process) \<leftarrow> (case mp_server_find_process w (new_pid info) of
         None \<Rightarrow> Some (w, None)
       | Some i \<Rightarrow> do {
           old \<leftarrow> w_procs w i;
           if p_follow_exec old then do {
             let (w, j) = process_new w;
             w \<leftarrow> modify j (\<lambda>p. p\<lparr>p_pid := p_pid old, p_parent := p_parent old\<rparr>) w;
             w \<leftarrow> mp_server_add_process j w;
             w \<leftarrow> mp_server_process_created j w;
             Some (w, Some j)
           } else do { w \<leftarrow> process_exec_reset enum i w; Some (w, Some i) }
         });
     (w, process) \<leftarrow> (case process of
         Some i \<Rightarrow> Some (w, process)
       | None \<Rightarrow> (case mp_server_find_process w (i_pid info) of
             None \<Rightarrow> Some (w, None)
           | Some parent \<Rightarrow> do {
               (w, j) \<leftarrow> process_duplicate enum parent w;
               w \<leftarrow> modify j (\<lambda>p. p\<lparr>p_pid := new_pid info\<rparr>) w;
               w \<leftarrow> mp_server_add_process j w;
               w \<leftarrow> mp_server_process_created j w;
               Some (w, Some j)
             }));
     case process of
       None \<Rightarrow> Some (w, None)
     | Some i \<Rightarrow> do { w \<leftarrow> process_set_status i MP_PROCESS_RUNNING w; Some (w, Some i) }
   }"

definition connect_clone :: "mi_info \<Rightarrow> world \<Rightarrow> (world \<times> pref option) option" where
  "connect_clone info w = do {
     parent \<leftarrow> mp_server_find_process w (i_pid info);
     let (w, i) = process_new w;
     w \<leftarrow> process_set_status i MP_PROCESS_RUNNING w;
     w \<leftarrow> modify i (\<lambda>p. p\<lparr>p_clone_of := Some parent, p_pid := new_pid info\<rparr>) w;
     w \<leftarrow> mp_server_add_process i w;
     root \<leftarrow> clone_root (w_procs w) parent;
     Some (w, Some i)
   }"

definition connect ::
    "((ptr \<rightharpoonup> bref) \<Rightarrow> ptr list) \<Rightarrow> mi_info \<Rightarrow> world \<Rightarrow> (world \<times> pref option) option" where
  "connect enum info w = (case operation info of
       MI_FORK \<Rightarrow>
         (case mp_server_find_process w (i_pid info) of
            None \<Rightarrow> connect_new enum info w
          | Some i \<Rightarrow> do {
              p \<leftarrow> w_procs w i;
              if \<not> p_follow_fork p then Some (w, None) else connect_new enum info w
            })
     | MI_NEW \<Rightarrow> connect_new enum info w
     | MI_CLONE \<Rightarrow> connect_clone info w
     | _ \<Rightarrow> None)"

text \<open>
  \<open>control_func\<close>: \<open>newfd\<close> is the accepted connection, \<open>msg\<close> the message read from it (\<open>None\<close>
  for a short read), \<open>write_ok\<close> says whether the answer can be written.
\<close>

definition control_func ::
    "((ptr \<rightharpoonup> bref) \<Rightarrow> ptr list) \<Rightarrow> nat option \<Rightarrow> mi_info option \<Rightarrow> bool \<Rightarrow> world \<Rightarrow> world option" where
  "control_func enum newfd msg write_ok w = (case newfd of
       None \<Rightarrow> Some (emit (Warning ''accept'') w)
     | Some fd \<Rightarrow> do {
         (w, process) \<leftarrow> (case msg of
             None \<Rightarrow> Some (emit (Warning ''short read from new process'') w, None)
           | Some info \<Rightarrow> connect enum info w);
         w \<leftarrow> (case process of None \<Rightarrow> Some w
           | Some i \<Rightarrow> modify i (\<lambda>p. start_input (p\<lparr>p_input_channel := Some fd\<rparr>)) w);
         let response = (process \<noteq> None);
         let w = emit (Response fd response) w;
         Some (if \<not> response \<or> \<not> write_ok then emit (Close fd) w else w)
       })"

section \<open>Messages of a connected process\<close>

text \<open>
  What one pass of the loop of \<open>input_func\<close> reads: the number of bytes, the message, the return
  addresses that follow it, and whether more input is there afterwards.
\<close>

record input_msg =
  im_count :: nat
  im_info :: mi_info
  im_stack :: "ptr list"
  im_more :: bool

definition sizeof_alloc :: nat where "sizeof_alloc = 48"

text \<open>\<open>process_command\<close> on a process of the world.\<close>

definition world_command ::
    "env \<Rightarrow> mi_info \<Rightarrow> nref option \<Rightarrow> pref \<Rightarrow> world \<Rightarrow> (mi_info \<times> world) option" where
  "world_command env info stack i w = do {
     p \<leftarrow> w_procs w i;
     (info, st) \<leftarrow> process_command env (nodes (w_nodes w)) info stack
       \<lparr>st_proc = p, st_blocks = w_blocks w, st_inodes = w_inodes w, st_log = w_log w\<rparr>;
     Some (info, put i (st_proc st)
       (w\<lparr>w_blocks := st_blocks st, w_inodes := st_inodes st, w_log := st_log st\<rparr>))
   }"

definition record_stack :: "pref \<Rightarrow> ptr list \<Rightarrow> world \<Rightarrow> (world \<times> nref option) option" where
  "record_stack i addrs w = do {
     (w, r) \<leftarrow> get_stack_stash i w;
     s \<leftarrow> w_stashes w r;
     (h, s, node) \<leftarrow> stack_stash_add_trace (w_nodes w) s addrs (-1);
     Some (w\<lparr>w_nodes := h, w_stashes := (w_stashes w)(r \<mapsto> s)\<rparr>, node)
   }"

definition input_message ::
    "env \<Rightarrow> pref \<Rightarrow> input_msg \<Rightarrow> world \<Rightarrow> (mi_info \<times> world) option" where
  "input_message env i x w = do {
     let info = im_info x;
     (w, stack) \<leftarrow>
       (if operation info \<in> {MI_MALLOC, MI_REALLOC, MI_FREE, MI_TIME}
        then if im_count x < sizeof_alloc then None else record_stack i (im_stack x) w
        else if operation info = MI_EXIT then do {
          w \<leftarrow> process_set_status i MP_PROCESS_EXITING w;
          p \<leftarrow> w_procs w i;
          w \<leftarrow> (if p_clone_of p \<noteq> None then process_detach i w else Some w);
          Some (w, None)
        } else Some (w, None));
     root \<leftarrow> clone_root (w_procs w) i;
     world_command env info stack root w
   }"

text \<open>The messages still to come end with the end of the connection.\<close>

fun input_func ::
    "env \<Rightarrow> pref \<Rightarrow> input_msg list \<Rightarrow> world \<Rightarrow> (world \<times> input_msg list \<times> bool) option" where
  "input_func env i [] w = do {
     w \<leftarrow> modify i (\<lambda>p. p\<lparr>p_input_channel := None\<rparr>) w;
     w \<leftarrow> mp_server_remove_process i w;
     w \<leftarrow> process_set_status i MP_PROCESS_DEFUNCT w;
     Some (w, [], False)
   }"
| "input_func env i (x # xs) w = do {
     (info, w) \<leftarrow> input_message env i x w;
     if operation info \<noteq> MI_EXIT \<and> im_more x then input_func env i xs w else Some (w, xs, True)
   }"

end
