(* ===== verification/World_Inv.thy ===== *)
theory World_Inv
  imports Server
begin

text \<open>
  The profiler as a state machine: the invariant of blocks, reference counts and totals across
  all processes, its preservation by every operation of World and Server, and the properties of
  connecting, forking, losing and resetting a process.
\<close>

section \<open>The invariant\<close>

text \<open>
  A block is held by the processes whose tables contain it (a forked process shares the blocks
  of its parent) and by the lists of leaks the user interface keeps; \<open>x r\<close> counts the latter
  references. The invariant says that every reference count is right, that no table holds a
  block that is gone, that each block is entered under its address, and that the totals of
  every process are those of its table.
\<close>

definition holders :: "(pref \<rightharpoonup> mp_process) \<Rightarrow> bref \<Rightarrow> pref set" where
  "holders m r = {i. \<exists>p. m i = Some p \<and> r \<in> ran (table p)}"

definition table_ok :: "(ptr \<rightharpoonup> bref) \<Rightarrow> block_heap \<Rightarrow> bool" where
  "table_ok t h \<longleftrightarrow> finite (dom t) \<and>
     (\<forall>a r. t a = Some r \<longrightarrow> a \<noteq> 0 \<and> (\<exists>b. blocks h r = Some b \<and> b_addr b = a))"

definition world_ok :: "(bref \<Rightarrow> nat) \<Rightarrow> world \<Rightarrow> bool" where
  "world_ok x w \<longleftrightarrow> finite (dom (w_procs w)) \<and> (\<forall>i \<in> dom (w_procs w). i < w_next_proc w) \<and>
     (\<forall>r. 0 < x r \<longrightarrow> r \<in> dom (blocks (w_blocks w))) \<and>
     (\<forall>r b. blocks (w_blocks w) r = Some b \<longrightarrow>
        r < n_new (w_blocks w) \<and> unat (b_refcount b) = card (holders (w_procs w) r) + x r) \<and>
     (\<forall>i p. w_procs w i = Some p \<longrightarrow> table_ok (table p) (w_blocks w) \<and> totals_ok p (w_blocks w))"

lemma world_okD:
  assumes "world_ok x w"
  shows "finite (dom (w_procs w))" "i \<in> dom (w_procs w) \<Longrightarrow> i < w_next_proc w"
    "0 < x r \<Longrightarrow> r \<in> dom (blocks (w_blocks w))"
    "blocks (w_blocks w) r = Some b \<Longrightarrow> r < n_new (w_blocks w)"
    "blocks (w_blocks w) r = Some b \<Longrightarrow> unat (b_refcount b) = card (holders (w_procs w) r) + x r"
    "w_procs w i = Some p \<Longrightarrow> table_ok (table p) (w_blocks w)"
    "w_procs w i = Some p \<Longrightarrow> totals_ok p (w_blocks w)"
  using assms by (simp_all add: world_ok_def)

lemma finite_holders: "finite (dom m) \<Longrightarrow> finite (holders m r)"
  by (rule finite_subset [of _ "dom m"]) (auto simp: holders_def)

text \<open>The references that are not those of process \<open>i\<close>.\<close>

definition others :: "(bref \<Rightarrow> nat) \<Rightarrow> (pref \<rightharpoonup> mp_process) \<Rightarrow> pref \<Rightarrow> bref \<Rightarrow> nat" where
  "others x m i r = card (holders m r - {i}) + x r"

lemma others_pos:
  assumes "finite (dom m)" and "m j = Some p" and "j \<noteq> i" and "table p a = Some r"
  shows "0 < others x m i r"
proof -
  have "j \<in> holders m r - {i}" using assms by (auto simp: holders_def ran_def)
  moreover have "finite (holders m r - {i})" using finite_holders [OF assms(1)] by simp
  ultimately have "0 < card (holders m r - {i})" by (auto simp: card_gt_0_iff)
  then show ?thesis by (simp add: others_def)
qed

lemma holders_put: "holders (m(i \<mapsto> p)) r - {i} = holders m r - {i}"
  by (auto simp: holders_def)

lemma card_holders:
  assumes "finite (dom m)"
  shows "card (holders m r) =
    card (holders m r - {i}) + (if i \<in> holders m r then 1 else 0)"
  using finite_holders [OF assms, of r] by (simp add: card_Diff_singleton_if card_gt_0_iff)
    (metis Suc_pred card_gt_0_iff empty_iff)

lemma process_blocks_ok:
  assumes w: "world_ok x w" and p: "w_procs w i = Some p"
  shows "blocks_ok (others x (w_procs w) i) (table p) (w_blocks w)"
proof -
  note D = world_okD [OF w]
  have t: "table_ok (table p) (w_blocks w)" by (rule D(6) [OF p])
  have own: "i \<in> holders (w_procs w) r \<longleftrightarrow> r \<in> ran (table p)" for r
    using p by (auto simp: holders_def)
  show ?thesis
    unfolding blocks_ok_def
  proof (intro conjI allI impI)
    show "finite (dom (table p))" using t by (simp add: table_ok_def)
    fix r
    show "r \<in> dom (blocks (w_blocks w))" if "r \<in> ran (table p) \<or> 0 < others x (w_procs w) i r"
    proof (cases "r \<in> ran (table p)")
      case True
      with t show ?thesis by (fastforce simp: table_ok_def ran_def)
    next
      case False
      with that have "0 < card (holders (w_procs w) r - {i}) \<or> 0 < x r" by (auto simp: others_def)
      then show ?thesis
      proof
        assume "0 < card (holders (w_procs w) r - {i})"
        then obtain j where "j \<in> holders (w_procs w) r" by (fastforce simp: card_gt_0_iff)
        then obtain q a where "w_procs w j = Some q" "table q a = Some r" by (auto simp: holders_def ran_def)
        then show ?thesis using D(6) by (fastforce simp: table_ok_def)
      qed (rule D(3))
    qed
    fix b assume b: "blocks (w_blocks w) r = Some b"
    show "r < n_new (w_blocks w)" by (rule D(4) [OF b])
    show "unat (b_refcount b) = others x (w_procs w) i r + (if r \<in> ran (table p) then 1 else 0)"
      using D(5) [OF b] card_holders [OF D(1), of r i] own by (simp add: others_def)
  next
    fix a r assume "table p a = Some r"
    with t show "a \<noteq> 0" "\<exists>b. blocks (w_blocks w) r = Some b \<and> b_addr b = a"
      by (auto simp: table_ok_def)
  qed
qed

text \<open>The content of the blocks that others hold.\<close>

definition blocks_kept :: "(bref \<Rightarrow> nat) \<Rightarrow> block_heap \<Rightarrow> block_heap \<Rightarrow> bool" where
  "blocks_kept own h h' \<longleftrightarrow> n_new h \<le> n_new h' \<and>
     (\<forall>r. 0 < own r \<longrightarrow> map_option (\<lambda>b. b\<lparr>b_refcount := 0\<rparr>) (blocks h' r) =
        map_option (\<lambda>b. b\<lparr>b_refcount := 0\<rparr>) (blocks h r))"

lemma blocks_kept_refl [simp]: "blocks_kept own h h"
  and blocks_kept_trans: "blocks_kept own a b \<Longrightarrow> blocks_kept own b c \<Longrightarrow> blocks_kept own a c"
  by (auto simp: blocks_kept_def)

lemma others_kept_blocks: "others_kept own st st' \<Longrightarrow> blocks_kept own (st_blocks st) (st_blocks st')"
  by (simp add: others_kept_def blocks_kept_def)

lemma blocks_keptD:
  assumes "blocks_kept own h h'" and "0 < own r" and "blocks h r = Some b"
  shows "\<exists>n. blocks h' r = Some (b\<lparr>b_refcount := n\<rparr>)"
proof -
  have "map_option (\<lambda>b. b\<lparr>b_refcount := 0\<rparr>) (blocks h' r) = Some (b\<lparr>b_refcount := 0\<rparr>)"
    using assms by (simp add: blocks_kept_def)
  then obtain c where c: "blocks h' r = Some c" "c\<lparr>b_refcount := 0\<rparr> = b\<lparr>b_refcount := 0\<rparr>" by auto
  then have "c = b\<lparr>b_refcount := b_refcount c\<rparr>" by (cases b; cases c) auto
  with c(1) show ?thesis by metis
qed

lemma table_ok_kept:
  assumes "table_ok t h" and "blocks_kept own h h'" and "\<And>r. r \<in> ran t \<Longrightarrow> 0 < own r"
  shows "table_ok t h'" and "r \<in> ran t \<Longrightarrow> block_size h' r = block_size h r"
    and "r \<in> ran t \<Longrightarrow> block_info h' r = block_info h r"
proof -
  have b: "\<exists>b n. blocks h r = Some b \<and> b_addr b = a \<and> blocks h' r = Some (b\<lparr>b_refcount := n\<rparr>)"
    if "t a = Some r" for a r
    using assms that blocks_keptD [OF assms(2)] by (force simp: table_ok_def ran_def)
  show "table_ok t h'" using assms(1) b by (fastforce simp: table_ok_def)
  show "r \<in> ran t \<Longrightarrow> block_size h' r = block_size h r" "r \<in> ran t \<Longrightarrow> block_info h' r = block_info h r"
    using b by (fastforce simp: ran_def block_size_def block_info_def)+
qed

lemma totals_ok_kept:
  assumes "totals_ok p h" and "\<And>r. r \<in> ran (table p) \<Longrightarrow> block_size h' r = block_size h r"
  shows "totals_ok p h'"
proof -
  have "(\<Sum>a \<in> dom (table p). block_size h' (the (table p a))) =
      (\<Sum>a \<in> dom (table p). block_size h (the (table p a)))"
    by (rule sum.cong) (use assms(2) [OF ranI] in auto)
  with assms(1) show ?thesis by (simp add: totals_ok_def)
qed

text \<open>An operation on one process that keeps the accounts of that process keeps the invariant.\<close>

lemma world_ok_step:
  assumes w: "world_ok x w" and i: "i < w_next_proc w'"
    and b: "blocks_ok (others x (w_procs w) i) (table p') (w_blocks w')"
    and t: "totals_ok p' (w_blocks w')"
    and k: "blocks_kept (others x (w_procs w) i) (w_blocks w) (w_blocks w')"
    and procs: "w_procs w' = (w_procs w)(i \<mapsto> p')" and nxt: "w_next_proc w \<le> w_next_proc w'"
  shows "world_ok x w'"
proof -
  note D = world_okD [OF w] and B = blocks_okD [OF b]
  have fin: "finite (dom (w_procs w'))" using D(1) procs by simp
  have own: "i \<in> holders (w_procs w') r \<longleftrightarrow> r \<in> ran (table p')" for r
    using procs by (auto simp: holders_def)
  have oth: "others x (w_procs w') i r = others x (w_procs w) i r" for r
    unfolding procs others_def by (simp add: holders_put)
  show ?thesis
    unfolding world_ok_def
  proof (intro conjI allI impI ballI)
    show "finite (dom (w_procs w'))" by (rule fin)
    show "j < w_next_proc w'" if "j \<in> dom (w_procs w')" for j
      using that D(2) [of j] i nxt procs by (cases "j = i") auto
    show "r \<in> dom (blocks (w_blocks w'))" if "0 < x r" for r
      by (rule B(3)) (use that in \<open>simp add: others_def\<close>)
    fix r c assume c: "blocks (w_blocks w') r = Some c"
    show "r < n_new (w_blocks w')" by (rule B(4) [OF c])
    show "unat (b_refcount c) = card (holders (w_procs w') r) + x r"
      using B(5) [OF c] card_holders [OF fin, of r i] own [of r] oth [of r] by (simp add: others_def)
  next
    fix j q assume q: "w_procs w' j = Some q"
    have "table_ok (table q) (w_blocks w') \<and> totals_ok q (w_blocks w')"
    proof (cases "j = i")
      case True
      then have "q = p'" using q procs by simp
      with b t show ?thesis by (auto simp: blocks_ok_def table_ok_def)
    next
      case False
      then have q': "w_procs w j = Some q" using q procs by simp
      have pos: "0 < others x (w_procs w) i r" if "r \<in> ran (table q)" for r
        using that others_pos [OF D(1) q' False] by (auto simp: ran_def)
      note T = table_ok_kept [OF D(6) [OF q'] k pos]
      show ?thesis using T(1) totals_ok_kept [OF D(7) [OF q'] T(2)] by blast
    qed
    then show "table_ok (table q) (w_blocks w')" "totals_ok q (w_blocks w')" by simp_all
  qed
qed

section \<open>The operations on processes keep it\<close>

lemma world_ok_fields [simp]:
  "world_ok x (w\<lparr>w_nodes := a\<rparr>) = world_ok x w" "world_ok x (w\<lparr>w_stashes := b\<rparr>) = world_ok x w"
  "world_ok x (w\<lparr>w_next_stash := c\<rparr>) = world_ok x w" "world_ok x (w\<lparr>w_inodes := d\<rparr>) = world_ok x w"
  "world_ok x (w\<lparr>w_log := e\<rparr>) = world_ok x w" "world_ok x (w\<lparr>w_pid_table := f\<rparr>) = world_ok x w"
  "world_ok x (emit ev w) = world_ok x w"
  by (simp_all add: world_ok_def emit_def)

lemma holders_empty_put:
  "m i = None \<Longrightarrow> holders (m(i \<mapsto> p)) r = (if r \<in> ran (table p) then insert i (holders m r) else holders m r)"
  by (auto simp: holders_def)

lemma fresh_blocks_ok:
  assumes w: "world_ok x w" and i: "w_procs w i = None"
  shows "blocks_ok (others x (w_procs w) i) Map.empty (w_blocks w)"
proof -
  note D = world_okD [OF w]
  have oth: "others x (w_procs w) i r = card (holders (w_procs w) r) + x r" for r
  proof -
    have "i \<notin> holders (w_procs w) r" using i by (simp add: holders_def)
    then show ?thesis by (simp add: others_def)
  qed
  show ?thesis
    unfolding blocks_ok_def
  proof (intro conjI allI impI)
    fix r
    show "r \<in> dom (blocks (w_blocks w))" if "r \<in> ran Map.empty \<or> 0 < others x (w_procs w) i r"
    proof -
      from that have "0 < card (holders (w_procs w) r) \<or> 0 < x r" by (simp add: oth)
      then show ?thesis
      proof
        assume "0 < card (holders (w_procs w) r)"
        then obtain j where "j \<in> holders (w_procs w) r" by (fastforce simp: card_gt_0_iff)
        then obtain q a where "w_procs w j = Some q" "table q a = Some r" by (auto simp: holders_def ran_def)
        then show ?thesis using D(6) by (fastforce simp: table_ok_def)
      qed (rule D(3))
    qed
    fix b assume "blocks (w_blocks w) r = Some b"
    then show "r < n_new (w_blocks w)"
      "unat (b_refcount b) = others x (w_procs w) i r + (if r \<in> ran Map.empty then 1 else 0)"
      using D(4,5) by (simp_all add: oth)
  qed simp_all
qed

lemma table_init [simp]: "table mp_process_init = Map.empty"
  and totals_init [simp]: "totals_ok mp_process_init h"
  by (simp_all add: table_def mp_process_init_def totals_ok_def)

lemma process_new_ok:
  assumes w: "world_ok x w" and n: "process_new w = (w', i)"
  shows "world_ok x w' \<and> i = w_next_proc w \<and> w_procs w i = None \<and> w_blocks w' = w_blocks w \<and>
    w_procs w' = (w_procs w)(i \<mapsto> mp_process_init) \<and> w_next_proc w' = Suc i"
proof -
  have i: "i = w_next_proc w" "w' = put i mp_process_init (w\<lparr>w_next_proc := Suc i\<rparr>)"
    using n by (auto simp: process_new_def Let_def)
  then have none: "w_procs w i = None" using world_okD(2) [OF w] by fastforce
  have "world_ok x w'"
    by (rule world_ok_step [OF w, where i = i and p' = mp_process_init])
      (use i fresh_blocks_ok [OF w none] in \<open>simp_all add: put_def\<close>)
  with i none show ?thesis by (simp add: put_def)
qed

lemma modify_ok:
  assumes w: "world_ok x w" and m: "modify i f w = Some w'"
    and f: "\<And>p. p_block_table (f p) = p_block_table p \<and> p_bytes_used (f p) = p_bytes_used p \<and>
      p_n_allocations (f p) = p_n_allocations p"
  shows "world_ok x w'"
proof -
  from m obtain p where p: "w_procs w i = Some p" "w' = put i (f p) w" by (auto simp: modify_def)
  then have t: "table (f p) = table p" "totals_ok (f p) h = totals_ok p h" for h
    using f by (simp_all add: table_def totals_ok_def)
  have "i < w_next_proc w" using world_okD(2) [OF w] p(1) by auto
  then show ?thesis
    using world_ok_step [OF w, of i w' "f p"] p process_blocks_ok [OF w p(1)] world_okD(7) [OF w p(1)]
    by (simp add: t put_def)
qed

lemma set_status_ok: "world_ok x w \<Longrightarrow> process_set_status i s w = Some w' \<Longrightarrow> world_ok x w'"
  using modify_ok [of x w i "\<lambda>p. p\<lparr>p_status := s\<rparr>"]
  by (auto simp: process_set_status_def bind_eq_Some modify_def split: if_splits)

lemma detach_ok: "world_ok x w \<Longrightarrow> process_detach i w = Some w' \<Longrightarrow> world_ok x w'"
  by (auto simp: process_detach_def bind_eq_Some split: if_splits elim: set_status_ok [rotated])

lemma add_process_ok: "world_ok x w \<Longrightarrow> mp_server_add_process i w = Some w' \<Longrightarrow> world_ok x w'"
  and remove_process_ok: "world_ok x w \<Longrightarrow> mp_server_remove_process i w = Some w' \<Longrightarrow> world_ok x w'"
  by (auto simp: mp_server_add_process_def mp_server_remove_process_def bind_eq_Some split: option.splits)

lemma process_created_ok: "world_ok x w \<Longrightarrow> mp_server_process_created i w = Some w' \<Longrightarrow> world_ok x w'"
  unfolding mp_server_process_created_def
  by (erule modify_ok [rotated]) (simp_all add: init_process_def process_set_follow_fork_def process_set_follow_exec_def)

text \<open>Freeing the blocks of a table.\<close>

lemma block_unref_kept:
  assumes "blocks_ok own t h" and "t a = Some r"
  shows "\<exists>h'. block_unref r h = Some h' \<and> blocks_ok own (t(a := None)) h' \<and> blocks_kept own h h'"
proof -
  from block_unref_spec [OF assms] obtain b h' where b: "blocks h r = Some b" "block_unref r h = Some h'"
    "blocks_ok own (t(a := None)) h'" "n_new h' = n_new h" "\<forall>q. q \<noteq> r \<longrightarrow> blocks h' q = blocks h q"
    "0 < own r \<longrightarrow> (\<exists>n. blocks h' r = Some (b\<lparr>b_refcount := n\<rparr>))" by (elim exE conjE) (rule that)
  have "blocks_kept own h h'"
    unfolding blocks_kept_def
  proof (intro conjI allI impI)
    fix q assume "0 < own q"
    then show "map_option (\<lambda>b. b\<lparr>b_refcount := 0\<rparr>) (blocks h' q) =
        map_option (\<lambda>b. b\<lparr>b_refcount := 0\<rparr>) (blocks h q)"
      using b(1,5,6) by (cases "q = r") auto
  qed (simp add: b(4))
  with b show ?thesis by blast
qed

lemma free_blocks_ok:
  "blocks_ok own (t |` set as) h \<Longrightarrow> distinct as \<Longrightarrow> set as \<subseteq> dom t \<Longrightarrow>
   \<exists>h'. free_blocks t as h = Some h' \<and> blocks_ok own Map.empty h' \<and> blocks_kept own h h'"
proof (induction as arbitrary: h)
  case Nil
  then show ?case by simp
next
  case (Cons a as)
  then obtain r where r: "t a = Some r" by auto
  then have "(t |` set (a # as)) a = Some r" by simp
  from block_unref_kept [OF Cons.prems(1) this] obtain h1 where
    h1: "block_unref r h = Some h1" "blocks_ok own ((t |` set (a # as))(a := None)) h1" "blocks_kept own h h1"
    by blast
  have "(t |` set (a # as))(a := None) = t |` set as"
    using Cons.prems(2) by (auto simp: restrict_map_def)
  with h1(2) Cons.IH [of h1] Cons.prems(2,3) obtain h' where
    "free_blocks t as h1 = Some h'" "blocks_ok own Map.empty h'" "blocks_kept own h1 h'" by auto
  with r h1(1,3) show ?case by (auto intro: blocks_kept_trans)
qed

definition enumerates_tables :: "((ptr \<rightharpoonup> bref) \<Rightarrow> ptr list) \<Rightarrow> bool" where
  "enumerates_tables enum \<longleftrightarrow> (\<forall>t. finite (dom t) \<longrightarrow> enumerates enum dom t)"

lemma release_table_ok:
  assumes e: "enumerates_tables enum" and b: "blocks_ok own (table p) h"
  shows "\<exists>h'. release_table enum p h = Some h' \<and> blocks_ok own Map.empty h' \<and> blocks_kept own h h'"
proof (cases "p_block_table p")
  case None
  with b show ?thesis by (simp add: release_table_def table_def)
next
  case (Some t)
  with b have t: "blocks_ok own t h" by (simp add: table_def)
  then have "enumerates enum dom t" using e blocks_okD(1) [OF t] by (simp add: enumerates_tables_def)
  then have "distinct (enum t)" "set (enum t) = dom t" by (simp_all add: enumerates_def)
  moreover from this have "t |` set (enum t) = t"
    by (intro ext) (auto simp: restrict_map_def)
  ultimately show ?thesis
    using free_blocks_ok [of own t "enum t" h] t Some by (simp add: release_table_def)
qed

lemma release_stash_frame:
  assumes "release_stash p w = Some w'"
  shows "w_procs w' = w_procs w \<and> w_next_proc w' = w_next_proc w \<and> w_blocks w' = w_blocks w \<and>
    w_pid_table w' = w_pid_table w \<and> w_log w' = w_log w"
  using assms by (auto simp: release_stash_def split: option.splits prod.splits)

lemma forget_ok:
  assumes w: "world_ok x w" and p: "w_procs w i = Some p" and e: "enumerates_tables enum"
    and h: "release_table enum p (w_blocks w) = Some h"
    and s: "release_stash p (w\<lparr>w_blocks := h\<rparr>) = Some v"
    and q: "p_block_table q = None" "p_bytes_used q = 0" "p_n_allocations q = 0"
  shows "world_ok x (put i q v)"
proof -
  have b: "blocks_ok (others x (w_procs w) i) Map.empty h"
    "blocks_kept (others x (w_procs w) i) (w_blocks w) h"
    using release_table_ok [OF e process_blocks_ok [OF w p]] h by auto
  have tq: "table q = Map.empty" "totals_ok q h" using q by (simp_all add: table_def totals_ok_def)
  have "i < w_next_proc w" using world_okD(2) [OF w] p by auto
  then show ?thesis
    using world_ok_step [OF w, of i "put i q v" q] b tq release_stash_frame [OF s] by (simp add: put_def)
qed

lemma stop_input_fields [simp]:
  "p_block_table (stop_input p) = p_block_table p" "p_bytes_used (stop_input p) = p_bytes_used p"
  "p_n_allocations (stop_input p) = p_n_allocations p"
  "p_block_table (start_input p) = p_block_table p" "p_bytes_used (start_input p) = p_bytes_used p"
  "p_n_allocations (start_input p) = p_n_allocations p"
  by (simp_all add: stop_input_def start_input_def)

lemma process_reinit_ok:
  assumes w: "world_ok x w" and e: "enumerates_tables enum" and r: "process_reinit enum i w = Some w'"
  shows "world_ok x w' \<and> (\<exists>p. w_procs w' i = Some p \<and> table p = Map.empty)"
proof -
  from r obtain v p h u where v: "process_stop_input i w = Some v" "w_procs v i = Some p"
    "release_table enum p (w_blocks v) = Some h" "release_stash p (v\<lparr>w_blocks := h\<rparr>) = Some u"
    "w' = put i (p\<lparr>p_input_channel := None, p_bytes_used := 0, p_n_allocations := 0, p_seqno := 0,
         p_map_list := [], p_bad_pages := [], p_block_table := None, p_stack_stash := None,
         p_command_queue := []\<rparr>) u"
    by (auto simp: process_reinit_def bind_eq_Some)
  have "world_ok x v" by (rule modify_ok [OF w v(1) [unfolded process_stop_input_def]]) simp
  from forget_ok [OF this v(2) e v(3,4)] v(5) show ?thesis by (simp add: put_def table_def)
qed

lemma process_exec_reset_ok:
  "world_ok x w \<Longrightarrow> enumerates_tables enum \<Longrightarrow> process_exec_reset enum i w = Some w' \<Longrightarrow>
   world_ok x w' \<and> (\<exists>p. w_procs w' i = Some p \<and> table p = Map.empty)"
  using process_reinit_ok by (fastforce simp: process_exec_reset_def emit_def [of "Reset i"])

lemma process_clear_input_ok:
  assumes w: "world_ok x w" and e: "enumerates_tables enum" and r: "process_clear_input enum i w = Some w'"
  shows "world_ok x w' \<and> (\<exists>p. w_procs w' i = Some p \<and> table p = Map.empty)"
proof -
  from r obtain p h u where v: "w_procs w i = Some p"
    "release_table enum p (w_blocks w) = Some h" "release_stash p (w\<lparr>w_blocks := h\<rparr>) = Some u"
    "w' = put i (p\<lparr>p_bytes_used := 0, p_n_allocations := 0, p_map_list := [], p_bad_pages := [],
         p_block_table := None, p_stack_stash := None\<rparr>) u"
    by (auto simp: process_clear_input_def bind_eq_Some)
  from forget_ok [OF w v(1) e v(2,3)] v(4) show ?thesis by (simp add: put_def table_def)
qed

section \<open>Duplication\<close>

text \<open>No reference count is at its maximum.\<close>

definition room :: "block_heap \<Rightarrow> bool" where
  "room h \<longleftrightarrow> (\<forall>r b. blocks h r = Some b \<longrightarrow> b_refcount b \<noteq> - 1)"

lemma block_ref_ok:
  assumes b: "blocks_ok own n h" and r: "blocks h r = Some b" "b_addr b = a" "a \<noteq> 0" "b_refcount b \<noteq> - 1"
    and a: "n a = None" "r \<notin> ran n"
  shows "\<exists>h'. block_ref r h = Some h' \<and> blocks_ok own (n(a \<mapsto> r)) h' \<and> blocks_kept own h h' \<and>
    (\<forall>q. q \<noteq> r \<longrightarrow> blocks h' q = blocks h q)"
proof -
  note B = blocks_okD [OF b]
  let ?b = "b\<lparr>b_refcount := b_refcount b + 1\<rparr>"
  let ?h = "h\<lparr>blocks := (blocks h)(r \<mapsto> ?b)\<rparr>"
  have inc: "unat (b_refcount b + 1) = Suc (unat (b_refcount b))"
  proof -
    have "1 + b_refcount b \<noteq> 0" using r(4) by (simp add: add_eq_0_iff)
    from unatSuc [OF this] show ?thesis by (simp add: add.commute)
  qed
  have ran: "ran (n(a \<mapsto> r)) = insert r (ran n)" using a(1) by (simp add: ran_upd_fresh)
  have "blocks_ok own (n(a \<mapsto> r)) ?h"
    unfolding blocks_ok_def ran
  proof (intro conjI allI impI)
    show "finite (dom (n(a \<mapsto> r)))" using B(1) by simp
    fix q
    show "q \<in> dom (blocks ?h)" if "q \<in> insert r (ran n) \<or> 0 < own q"
      using that B(2) [of q] B(3) [of q] by auto
    fix c assume c: "blocks ?h q = Some c"
    show "q < n_new ?h" using c B(4) [of q] r(1) by (cases "q = r") auto
    show "unat (b_refcount c) = own q + (if q \<in> insert r (ran n) then 1 else 0)"
      using c B(5) [of q] B(5) [OF r(1)] a(2) inc by (cases "q = r") auto
  next
    fix y q assume y: "(n(a \<mapsto> r)) y = Some q"
    show "y \<noteq> 0" using y B(6) [of y q] r(3) by (auto split: if_splits)
    show "\<exists>c. blocks ?h q = Some c \<and> b_addr c = y"
    proof (cases "y = a")
      case False
      then have "n y = Some q" using y by simp
      with B(6) [OF this] a(2) show ?thesis by (auto simp: ran_def)
    qed (use y r(2) in simp)
  qed
  moreover have "blocks_kept own h ?h" using r(1) by (simp add: blocks_kept_def)
  moreover have "block_ref r h = Some ?h" using r(1) by (simp add: block_ref_def)
  ultimately show ?thesis by auto
qed

lemma duplicate_blocks_ok:
  "blocks_ok own n h \<Longrightarrow> distinct as \<Longrightarrow> set as \<inter> dom n = {} \<Longrightarrow>
   (\<And>a. a \<in> set as \<Longrightarrow> \<exists>r b. t a = Some r \<and> blocks h r = Some b \<and> b_addr b = a \<and> a \<noteq> 0 \<and>
      b_refcount b \<noteq> - 1 \<and> r \<notin> ran n) \<Longrightarrow>
   \<exists>h'. duplicate_blocks t as (h, n) = Some (h', n ++ (t |` set as)) \<and>
     blocks_ok own (n ++ (t |` set as)) h' \<and> blocks_kept own h h'"
proof (induction as arbitrary: n h)
  case Nil
  then show ?case by simp
next
  case (Cons a as)
  from Cons.prems(4) [of a] obtain r b where r: "t a = Some r" "blocks h r = Some b" "b_addr b = a"
    "a \<noteq> 0" "b_refcount b \<noteq> - 1" "r \<notin> ran n" by auto
  have na: "n a = None" using Cons.prems(3) by auto
  from block_ref_ok [OF Cons.prems(1) r(2-5) na r(6)] obtain h1 where
    h1: "block_ref r h = Some h1" "blocks_ok own (n(a \<mapsto> r)) h1" "blocks_kept own h h1"
      "\<And>q. q \<noteq> r \<Longrightarrow> blocks h1 q = blocks h q" by blast
  have step: "\<exists>q c. t y = Some q \<and> blocks h1 q = Some c \<and> b_addr c = y \<and> y \<noteq> 0 \<and>
      b_refcount c \<noteq> - 1 \<and> q \<notin> ran (n(a \<mapsto> r))" if "y \<in> set as" for y
  proof -
    from Cons.prems(4) [of y] that obtain q c where q: "t y = Some q" "blocks h q = Some c" "b_addr c = y"
      "y \<noteq> 0" "b_refcount c \<noteq> - 1" "q \<notin> ran n" by auto
    have "q \<noteq> r" using q(2,3) r(2,3) that Cons.prems(2) by auto
    with q h1(4) na show ?thesis by (simp add: ran_upd_fresh)
  qed
  have disj: "set as \<inter> dom (n(a \<mapsto> r)) = {}" and dist: "distinct as" using Cons.prems(2,3) by auto
  obtain h' where h': "duplicate_blocks t as (h1, n(a \<mapsto> r)) = Some (h', n(a \<mapsto> r) ++ (t |` set as))"
    "blocks_ok own (n(a \<mapsto> r) ++ (t |` set as)) h'" "blocks_kept own h1 h'"
    using Cons.IH [OF h1(2) dist disj step] by blast
  have "n(a \<mapsto> r) ++ (t |` set as) = n ++ (t |` set (a # as))"
    using r(1) by (auto simp: map_add_def restrict_map_def fun_eq_iff split: option.splits)
  with h' r(1) h1(1,3) show ?case by (auto intro: blocks_kept_trans)
qed

text \<open>What a process shows of its blocks.\<close>

definition view :: "world \<Rightarrow> pref \<Rightarrow> ptr \<Rightarrow> (u32 \<times> nref option) option" where
  "view w i a = Option.bind (w_procs w i) (\<lambda>p. Option.bind (table p a) (block_info (w_blocks w)))"

lemma process_duplicate_ok:
  assumes w: "world_ok x w" and e: "enumerates_tables enum" and rm: "room (w_blocks w)"
    and p: "w_procs w i = Some p"
  shows "\<exists>w' j q. process_duplicate enum i w = Some (w', j) \<and> world_ok x w' \<and> w_procs w j = None \<and>
    w_procs w' = (w_procs w)(j \<mapsto> q) \<and> table q = table p \<and>
    q = mp_process_init\<lparr>p_block_table := p_block_table q, p_bytes_used := p_bytes_used p,
      p_n_allocations := p_n_allocations p, p_seqno := p_seqno p, p_parent := Some i\<rparr> \<and>
    view w' j = view w i \<and> view w' i = view w i \<and> w_pid_table w' = w_pid_table w \<and> w_log w' = w_log w"
proof -
  obtain v j where n: "process_new w = (v, j)" by (cases "process_new w")
  note N = process_new_ok [OF w n]
  then have v: "world_ok x v" "w_procs w j = None" "w_blocks v = w_blocks w"
    "w_procs v = (w_procs w)(j \<mapsto> mp_process_init)" "w_next_proc v = Suc j" by auto
  have ij: "i \<noteq> j" using p v(2) by auto
  have vp: "w_procs v i = Some p" using v(4) ij p by simp
  have vj: "w_procs v j = Some mp_process_init" using v(4) by simp
  have bj: "blocks_ok (others x (w_procs v) j) Map.empty (w_blocks v)"
    using process_blocks_ok [OF v(1) vj] by simp
  define q where "q = (\<lambda>table. mp_process_init\<lparr>p_block_table := table, p_bytes_used := p_bytes_used p,
            p_n_allocations := p_n_allocations p, p_seqno := p_seqno p, p_parent := Some i\<rparr>)"
  have tot: "totals_ok p (w_blocks v)" by (rule world_okD(7) [OF v(1) vp])
  have fr: "w_pid_table v = w_pid_table w" "w_log v = w_log w"
    using n by (auto simp: process_new_def Let_def put_def)
  have "\<exists>h tb. (case p_block_table p of None \<Rightarrow> Some (w_blocks v, None)
       | Some t \<Rightarrow> map_option (apsnd Some) (duplicate_blocks t (enum t) (w_blocks v, Map.empty))) = Some (h, tb) \<and>
      blocks_ok (others x (w_procs v) j) (table p) h \<and> blocks_kept (others x (w_procs v) j) (w_blocks v) h \<and>
      table (q tb) = table p"
  proof (cases "p_block_table p")
    case None
    then show ?thesis using bj by (simp add: table_def q_def)
  next
    case (Some t)
    then have t: "table p = t" by (simp add: table_def)
    have tok: "table_ok t (w_blocks v)" using world_okD(6) [OF v(1) vp] t by simp
    then have "enumerates enum dom t" using e by (simp add: enumerates_tables_def table_ok_def)
    then have en: "distinct (enum t)" "set (enum t) = dom t" by (simp_all add: enumerates_def)
    have "\<exists>r b. t a = Some r \<and> blocks (w_blocks v) r = Some b \<and> b_addr b = a \<and> a \<noteq> 0 \<and>
        b_refcount b \<noteq> - 1 \<and> r \<notin> ran Map.empty" if "a \<in> set (enum t)" for a
      using that en(2) tok rm v(3) by (fastforce simp: table_ok_def room_def)
    from duplicate_blocks_ok [OF bj en(1) _ this] obtain h where
      h: "duplicate_blocks t (enum t) (w_blocks v, Map.empty) = Some (h, Map.empty ++ (t |` set (enum t)))"
        "blocks_ok (others x (w_procs v) j) (Map.empty ++ (t |` set (enum t))) h"
        "blocks_kept (others x (w_procs v) j) (w_blocks v) h" by auto
    have "Map.empty ++ (t |` set (enum t)) = t"
      using en(2) by (intro ext) (auto simp: restrict_map_def)
    with h t Some show ?thesis by (simp add: q_def table_def)
  qed
  then obtain h tb where h: "(case p_block_table p of None \<Rightarrow> Some (w_blocks v, None)
       | Some t \<Rightarrow> map_option (apsnd Some) (duplicate_blocks t (enum t) (w_blocks v, Map.empty))) = Some (h, tb)"
    "blocks_ok (others x (w_procs v) j) (table p) h" "blocks_kept (others x (w_procs v) j) (w_blocks v) h"
    "table (q tb) = table p" by blast
  have pos: "0 < others x (w_procs v) j r" if "r \<in> ran (table p)" for r
    using that others_pos [OF world_okD(1) [OF v(1)] vp ij] by (auto simp: ran_def)
  note K = table_ok_kept [OF world_okD(6) [OF v(1) vp] h(3) pos]
  have "totals_ok p h" by (rule totals_ok_kept [OF tot K(2)])
  then have "totals_ok (q tb) h" using h(4) by (simp add: totals_ok_def q_def)
  let ?w = "put j (q tb) (v\<lparr>w_blocks := h\<rparr>)"
  have "world_ok x ?w"
    by (rule world_ok_step [OF v(1), where i = j and p' = "q tb"])
      (use v(5) h \<open>totals_ok (q tb) h\<close> in \<open>simp_all add: put_def\<close>)
  moreover have "process_duplicate enum i w = Some (?w, j)"
    using n p h(1) by (simp add: process_duplicate_def q_def)
  moreover have info: "block_info h r = block_info (w_blocks w) r" if "table p a = Some r" for a r
    using K(3) [of r] that v(3) by (auto simp: ran_def)
  then have "Option.bind (table p a) (block_info h) = Option.bind (table p a) (block_info (w_blocks w))" for a
    by (cases "table p a") auto
  then have "view ?w j = view w i" "view ?w i = view w i"
    using p vp h(4) ij by (auto simp: view_def put_def fun_eq_iff)
  moreover have "w_procs ?w = (w_procs w)(j \<mapsto> q tb)" using v(4) by (simp add: put_def)
  moreover have "w_pid_table ?w = w_pid_table w" "w_log ?w = w_log w" using fr by (simp_all add: put_def)
  moreover have "q tb = mp_process_init\<lparr>p_block_table := p_block_table (q tb), p_bytes_used := p_bytes_used p,
      p_n_allocations := p_n_allocations p, p_seqno := p_seqno p, p_parent := Some i\<rparr>"
    by (simp add: q_def)
  ultimately show ?thesis using v(2) h(4) by blast
qed

section \<open>Messages and connections keep it\<close>

lemma world_command_ok:
  assumes w: "world_ok x w" and r: "world_command env info stack i w = Some (info', w')"
  shows "world_ok x w' \<and> (\<exists>p p'. w_procs w i = Some p \<and> w_procs w' = (w_procs w)(i \<mapsto> p') \<and> same_role p p') \<and>
    w_pid_table w' = w_pid_table w"
proof -
  from r obtain p st where p: "w_procs w i = Some p" and
    c: "process_command env (nodes (w_nodes w)) info stack
       \<lparr>st_proc = p, st_blocks = w_blocks w, st_inodes = w_inodes w, st_log = w_log w\<rparr> = Some (info', st)" and
    w': "w' = put i (st_proc st) (w\<lparr>w_blocks := st_blocks st, w_inodes := st_inodes st, w_log := st_log st\<rparr>)"
    by (auto simp: world_command_def bind_eq_Some)
  let ?own = "others x (w_procs w) i"
  have "account_ok ?own \<lparr>st_proc = p, st_blocks = w_blocks w, st_inodes = w_inodes w, st_log = w_log w\<rparr>"
    using process_blocks_ok [OF w p] world_okD(7) [OF w p] by (simp add: account_ok_def)
  from process_command_keeps(1) [OF c this] have
    k: "account_ok ?own st" "blocks_kept ?own (w_blocks w) (st_blocks st)" "same_role p (st_proc st)"
    by (auto simp: kept_def dest: others_kept_blocks)
  have "i < w_next_proc w" using world_okD(2) [OF w] p by auto
  then have "world_ok x w'"
    using world_ok_step [OF w, of i w' "st_proc st"] k by (simp add: w' put_def account_ok_def)
  moreover have "w_procs w' = (w_procs w)(i \<mapsto> st_proc st)" "w_pid_table w' = w_pid_table w"
    by (simp_all add: w' put_def)
  ultimately show ?thesis using p k(3) by blast
qed

lemma record_stack_ok:
  assumes w: "world_ok x w" and r: "record_stack i addrs w = Some (w', node)"
  shows "world_ok x w'"
proof -
  from r obtain v s where v: "get_stack_stash i w = Some (v, s)"
    by (auto simp: record_stack_def bind_eq_Some)
  have "world_ok x v"
  proof -
    from v obtain p where p: "w_procs w i = Some p" by (auto simp: get_stack_stash_def bind_eq_Some)
    show ?thesis
    proof (cases "p_stack_stash p")
      case None
      let ?u = "w\<lparr>w_stashes := (w_stashes w)(w_next_stash w \<mapsto> stack_stash_new False),
        w_next_stash := Suc (w_next_stash w)\<rparr>"
      have "modify i (\<lambda>p. p\<lparr>p_stack_stash := Some (w_next_stash w)\<rparr>) ?u = Some v"
        using v p None by (auto simp: get_stack_stash_def modify_def Let_def)
      then show ?thesis by (rule modify_ok [rotated]) (simp_all add: w)
    next
      case (Some q)
      with v p w show ?thesis by (auto simp: get_stack_stash_def)
    qed
  qed
  moreover from r v obtain h t where "w' = v\<lparr>w_nodes := h, w_stashes := t\<rparr>"
    by (auto simp: record_stack_def bind_eq_Some)
  ultimately show ?thesis by simp
qed

lemma input_message_ok:
  assumes w: "world_ok x w" and r: "input_message env i m w = Some (info', w')"
  shows "world_ok x w'"
proof -
  from r obtain v stack root where v: "clone_root (w_procs v) i = Some root"
    "world_command env (im_info m) stack root v = Some (info', w')" and
    pre: "(if operation (im_info m) \<in> {MI_MALLOC, MI_REALLOC, MI_FREE, MI_TIME}
        then if im_count m < sizeof_alloc then None else record_stack i (im_stack m) w
        else if operation (im_info m) = MI_EXIT then do {
          w \<leftarrow> process_set_status i MP_PROCESS_EXITING w;
          p \<leftarrow> w_procs w i;
          w \<leftarrow> (if p_clone_of p \<noteq> None then process_detach i w else Some w);
          Some (w, None)
        } else Some (w, None)) = Some (v, stack)"
    by (auto simp: input_message_def Let_def bind_eq_Some)
  have "world_ok x v"
  proof (cases "operation (im_info m) \<in> {MI_MALLOC, MI_REALLOC, MI_FREE, MI_TIME}")
    case True
    with pre have "record_stack i (im_stack m) w = Some (v, stack)" by (auto split: if_splits)
    then show ?thesis by (rule record_stack_ok [OF w])
  next
    case False
    show ?thesis
    proof (cases "operation (im_info m) = MI_EXIT")
      case True
      with False pre obtain u p where "process_set_status i MP_PROCESS_EXITING w = Some u" "w_procs u i = Some p"
        "(if p_clone_of p \<noteq> None then process_detach i u else Some u) = Some v"
        by (auto simp: bind_eq_Some)
      with w show ?thesis by (auto intro: set_status_ok detach_ok split: if_splits)
    qed (use False pre w in simp)
  qed
  with world_command_ok [OF this v(2)] show ?thesis by blast
qed

lemma input_func_ok:
  "input_func env i ms w = Some (w', rest, b) \<Longrightarrow> world_ok x w \<Longrightarrow> world_ok x w'"
proof (induction ms arbitrary: w)
  case Nil
  then obtain u v where u: "modify i (\<lambda>p. p\<lparr>p_input_channel := None\<rparr>) w = Some u"
    "mp_server_remove_process i u = Some v" "process_set_status i MP_PROCESS_DEFUNCT v = Some w'"
    by (auto simp: bind_eq_Some)
  have "world_ok x u" by (rule modify_ok [OF Nil.prems(2) u(1)]) simp
  then show ?case using u(2,3) by (blast intro: remove_process_ok set_status_ok)
next
  case (Cons m ms)
  then obtain info v where v: "input_message env i m w = Some (info, v)"
    "(if operation info \<noteq> MI_EXIT \<and> im_more m then input_func env i ms v else Some (v, ms, True)) =
     Some (w', rest, b)" by (auto simp: bind_eq_Some)
  have "world_ok x v" by (rule input_message_ok [OF Cons.prems(2) v(1)])
  with Cons.IH [of v] v(2) show ?case by (auto split: if_splits)
qed

lemma connect_new_ok:
  assumes w: "world_ok x w" and e: "enumerates_tables enum" and rm: "room (w_blocks w)"
    and r: "connect_new enum info w = Some (w', p')"
  shows "world_ok x w'"
proof -
  have after: "world_ok x v'" if "(case process of None \<Rightarrow> Some (v, None)
      | Some i \<Rightarrow> do { w \<leftarrow> process_set_status i MP_PROCESS_RUNNING v; Some (w, Some i) }) = Some (v', p')"
    "world_ok x v" for v v' and process :: "pref option"
    using that by (auto simp: bind_eq_Some intro: set_status_ok split: option.splits)
  show ?thesis
  proof (cases "mp_server_find_process w (new_pid info)")
    case (Some i)
    with r obtain old where old: "w_procs w i = Some old" by (auto simp: connect_new_def bind_eq_Some)
    show ?thesis
    proof (cases "p_follow_exec old")
      case True
      obtain v j where n: "process_new w = (v, j)" by (cases "process_new w")
      with r Some old True obtain v1 v2 v3 where v:
        "modify j (\<lambda>p. p\<lparr>p_pid := p_pid old, p_parent := p_parent old\<rparr>) v = Some v1"
        "mp_server_add_process j v1 = Some v2" "mp_server_process_created j v2 = Some v3"
        "process_set_status j MP_PROCESS_RUNNING v3 = Some w'"
        by (auto simp: connect_new_def bind_eq_Some)
      have "world_ok x v" using process_new_ok [OF w n] by simp
      then have "world_ok x v1" by (rule modify_ok [OF _ v(1)]) simp
      with v(2-4) show ?thesis by (blast intro: add_process_ok process_created_ok set_status_ok)
    next
      case False
      with r Some old obtain v where v: "process_exec_reset enum i w = Some v"
        "process_set_status i MP_PROCESS_RUNNING v = Some w'"
        by (auto simp: connect_new_def bind_eq_Some)
      with process_exec_reset_ok [OF w e v(1)] show ?thesis by (blast intro: set_status_ok)
    qed
  next
    case None
    show ?thesis
    proof (cases "mp_server_find_process w (i_pid info)")
      case none: None
      with r None w show ?thesis by (auto simp: connect_new_def)
    next
      case (Some i)
      with r None obtain v j v1 v2 v3 where v: "process_duplicate enum i w = Some (v, j)"
        "modify j (\<lambda>p. p\<lparr>p_pid := new_pid info\<rparr>) v = Some v1"
        "mp_server_add_process j v1 = Some v2" "mp_server_process_created j v2 = Some v3"
        "process_set_status j MP_PROCESS_RUNNING v3 = Some w'"
        by (auto simp: connect_new_def bind_eq_Some)
      then obtain p where p: "w_procs w i = Some p"
        by (auto simp: process_duplicate_def bind_eq_Some)
      from process_duplicate_ok [OF w e rm p] v(1) have "world_ok x v" by auto
      then have "world_ok x v1" by (rule modify_ok [OF _ v(2)]) simp
      with v(3-5) show ?thesis by (blast intro: add_process_ok process_created_ok set_status_ok)
    qed
  qed
qed

lemma connect_ok:
  assumes w: "world_ok x w" and e: "enumerates_tables enum" and rm: "room (w_blocks w)"
    and r: "connect enum info w = Some (w', p')"
  shows "world_ok x w'"
proof (cases "operation info")
  case MI_NEW
  with r have "connect_new enum info w = Some (w', p')" by (simp add: connect_def)
  then show ?thesis by (rule connect_new_ok [OF w e rm])
next
  case MI_FORK
  with r have "w' = w \<or> connect_new enum info w = Some (w', p')"
    by (auto simp: connect_def bind_eq_Some split: option.splits if_splits)
  with connect_new_ok [OF w e rm] w show ?thesis by blast
next
  case MI_CLONE
  obtain v i where n: "process_new w = (v, i)" by (cases "process_new w")
  with MI_CLONE r obtain parent v1 v2 where v: "process_set_status i MP_PROCESS_RUNNING v = Some v1"
    "modify i (\<lambda>p. p\<lparr>p_clone_of := Some parent, p_pid := new_pid info\<rparr>) v1 = Some v2"
    "mp_server_add_process i v2 = Some w'"
    by (auto simp: connect_def connect_clone_def bind_eq_Some)
  have "world_ok x v1" using process_new_ok [OF w n] v(1) by (blast intro: set_status_ok)
  then have "world_ok x v2" by (rule modify_ok [OF _ v(2)]) simp
  with v(3) show ?thesis by (rule add_process_ok [rotated])
qed (use r in \<open>simp_all add: connect_def\<close>)

lemma control_func_ok:
  assumes w: "world_ok x w" and e: "enumerates_tables enum" and rm: "room (w_blocks w)"
    and r: "control_func enum newfd msg write_ok w = Some w'"
  shows "world_ok x w'"
proof (cases newfd)
  case None
  with r w show ?thesis by (auto simp: control_func_def)
next
  case (Some fd)
  with r obtain v p u where v: "(case msg of None \<Rightarrow> Some (emit (Warning ''short read from new process'') w, None)
      | Some info \<Rightarrow> connect enum info w) = Some (v, p)"
    "(case p of None \<Rightarrow> Some v | Some i \<Rightarrow> modify i (\<lambda>p. start_input (p\<lparr>p_input_channel := Some fd\<rparr>)) v) = Some u"
    "w' = (let u = emit (Response fd (p \<noteq> None)) u in
       if \<not> p \<noteq> None \<or> \<not> write_ok then emit (Close fd) u else u)"
    by (auto simp: control_func_def bind_eq_Some Let_def)
  have "world_ok x v" using v(1) w connect_ok [OF w e rm] by (cases msg) auto
  then have "world_ok x u" using v(2) by (cases p) (auto elim!: modify_ok)
  with v(3) show ?thesis by (simp add: Let_def)
qed

section \<open>The profiler as a state machine\<close>

text \<open>
  What can happen to the world: a connection on the control socket, input from a process, and
  the actions of the user interface (src/main.c): running a program, resetting what was
  recorded, toggling the recording, killing and detaching a process. A connection is taken
  only while no reference count is at its maximum.
\<close>

inductive server_step :: "((ptr \<rightharpoonup> bref) \<Rightarrow> ptr list) \<Rightarrow> world \<Rightarrow> world \<Rightarrow> bool" for enum where
  Connection: "control_func enum newfd msg write_ok w = Some w' \<Longrightarrow> room (w_blocks w) \<Longrightarrow>
    server_step enum w w'"
| Input: "input_func env i ms w = Some (w', rest, again) \<Longrightarrow> server_step enum w w'"
| Run: "process_new w = (v, i) \<Longrightarrow> process_run env path instrumented i v = Some u \<Longrightarrow>
    modify i (init_process fork exec) u = Some w' \<Longrightarrow> server_step enum w w'"
| Clear: "process_clear_input enum i w = Some w' \<Longrightarrow> server_step enum w w'"
| Stop: "process_stop_input i w = Some w' \<Longrightarrow> server_step enum w w'"
| Start: "process_start_input i w = Some w' \<Longrightarrow> server_step enum w w'"
| Kill: "process_kill i w = Some w' \<Longrightarrow> server_step enum w w'"
| Detach: "process_detach i w = Some w' \<Longrightarrow> server_step enum w w'"


definition initial_world :: "(nref \<Rightarrow> stack_node) \<Rightarrow> bool \<Rightarrow> bool \<Rightarrow> world" where
  "initial_world jnk fork exec = \<lparr>w_procs = Map.empty, w_next_proc = 0,
     w_blocks = \<lparr>blocks = Map.empty, n_new = 0\<rparr>,
     w_nodes = \<lparr>nodes = Map.empty, n_blocks = 0, junk = jnk\<rparr>,
     w_stashes = Map.empty, w_next_stash = 0, w_inodes = no_inodes, w_log = [], w_pid_table = None,
     w_profile_type = MP_PROFILE_MEMORY, w_interval = 10000, w_socket_path = None,
     w_follow_fork = fork, w_follow_exec = exec\<rparr>"

lemma initial_world_ok: "world_ok (\<lambda>r. 0) (initial_world j f e)"
  by (simp add: world_ok_def initial_world_def)

lemma kill_ok: "world_ok x w \<Longrightarrow> process_kill i w = Some w' \<Longrightarrow> world_ok x w'"
  by (auto simp: process_kill_def bind_eq_Some intro: detach_ok split: if_splits)

lemma run_ok:
  assumes "world_ok x w" and "process_run env path instrumented i w = Some w'"
  shows "world_ok x w'"
proof -
  from assms(2) obtain v1 v2 v3 v4 pid where v: "modify i (\<lambda>p. p\<lparr>p_program_name := Some path\<rparr>) w = Some v1"
    "modify i (\<lambda>p. p\<lparr>p_pid := pid\<rparr>) (v1\<lparr>w_inodes := read_inode env path (w_inodes v1)\<rparr>) = Some v2"
    "mp_server_add_process i v2 = Some v3" "process_set_status i MP_PROCESS_STARTING v3 = Some v4"
    "process_start_input i v4 = Some w'"
    by (auto simp: process_run_def bind_eq_Some Let_def)
  have "world_ok x v1" by (rule modify_ok [OF assms(1) v(1)]) simp
  then have "world_ok x (v1\<lparr>w_inodes := read_inode env path (w_inodes v1)\<rparr>)" by simp
  then have "world_ok x v2" by (rule modify_ok [OF _ v(2)]) simp
  then have "world_ok x v4" using v(3,4) by (blast intro: add_process_ok set_status_ok)
  then show ?thesis by (rule modify_ok [OF _ v(5) [unfolded process_start_input_def]]) simp
qed

lemma server_step_ok:
  "server_step enum w w' \<Longrightarrow> enumerates_tables enum \<Longrightarrow> world_ok x w \<Longrightarrow> world_ok x w'"
proof (induction rule: server_step.induct)
  case (Connection newfd msg write_ok w w')
  then show ?case by (blast intro: control_func_ok)
next
  case (Input env i ms w w' rest again)
  then show ?case by (blast intro: input_func_ok)
next
  case (Run w v i env path instrumented u fork exec w')
  then have "world_ok x u" using process_new_ok [OF Run(5)] run_ok by blast
  then show ?case
    by (rule modify_ok [OF _ Run(3)])
      (simp_all add: init_process_def process_set_follow_fork_def process_set_follow_exec_def)
next
  case (Clear i w w')
  then show ?case using process_clear_input_ok [OF Clear(3,2)] by blast
next
  case (Stop i w w')
  show ?case by (rule modify_ok [OF Stop(3) Stop(1) [unfolded process_stop_input_def]]) simp
next
  case (Start i w w')
  show ?case by (rule modify_ok [OF Start(3) Start(1) [unfolded process_start_input_def]]) simp
next
  case (Kill i w w')
  then show ?case by (blast intro: kill_ok)
next
  case (Detach i w w')
  then show ?case by (blast intro: detach_ok)
qed

section \<open>Properties\<close>

text \<open>
  Property C3: the accounts are right in every world the profiler can reach. Whatever processes
  start, fork, clone, execute, exit, send or lose, the reference count of every block is the
  number of processes whose table holds it, a block in a table has not been freed and is entered
  under its address, and the totals shown for a process are the number of its live blocks and
  the sum of their sizes (modulo \<open>2 ^ 32\<close>).
\<close>

theorem reachable_world_ok:
  assumes "enumerates_tables enum" and "(server_step enum)\<^sup>*\<^sup>* (initial_world j f e) w"
  shows "world_ok (\<lambda>r. 0) w"
  using assms(2)
proof (induction rule: rtranclp_induct)
  case base
  show ?case by (rule initial_world_ok)
next
  case (step v w)
  then show ?case using server_step_ok [OF _ assms(1)] by blast
qed

text \<open>An order of traversal, for the instances: by address.\<close>

definition by_address :: "(ptr \<rightharpoonup> bref) \<Rightarrow> ptr list" where
  "by_address t = sorted_list_of_set (dom t)"

lemma by_address_enumerates: "enumerates_tables by_address"
  by (simp add: enumerates_tables_def enumerates_def by_address_def)

text \<open>A world with one process, which holds one block recorded in its stash.\<close>

definition demo_node :: stack_node where
  "demo_node = \<lparr>sn_address = 0x1280, sn_total = - 1, sn_size = - 1, sn_toplevel = True, sn_parent = None,
     sn_siblings = None, sn_children = None, sn_next = None\<rparr>"

definition demo_process :: mp_process where
  "demo_process = (running_process 7)\<lparr>p_block_table := Some [0x10 \<mapsto> 0], p_bytes_used := 5,
     p_n_allocations := 1, p_seqno := 1, p_stack_stash := Some 0, p_follow_fork := True\<rparr>"

definition demo_world :: world where
  "demo_world = (initial_world (\<lambda>_. demo_node) True False)\<lparr>
     w_procs := [0 \<mapsto> demo_process], w_next_proc := 1,
     w_blocks := \<lparr>blocks = [0 \<mapsto> \<lparr>b_flags = 0, b_addr = 0x10, b_size = 5, b_stack = Some (Cell 0 0),
       b_refcount = 1\<rparr>], n_new = 1\<rparr>,
     w_nodes := \<lparr>nodes = [Cell 0 0 \<mapsto> demo_node], n_blocks = 1, junk = (\<lambda>_. demo_node)\<rparr>,
     w_stashes := [0 \<mapsto> \<lparr>ss_ref_count = 1, ss_root = Some (Cell 0 0), ss_nodes_by_data = [0x1280 \<mapsto> Cell 0 0],
       ss_destroy = False, ss_cached_nodes = None, ss_blocks = [0]\<rparr>],
     w_next_stash := 1, w_pid_table := Some [7 \<mapsto> 0]\<rparr>"

lemma demo_table: "table demo_process = [0x10 \<mapsto> 0]"
  by (simp add: demo_process_def table_def)

lemma demo_world_ok: "world_ok (\<lambda>r. 0) demo_world"
proof -
  have h: "holders (w_procs demo_world) r = (if r = 0 then {0} else {})" for r
    by (auto simp: holders_def demo_world_def demo_table)
  have "w_procs demo_world = [0 \<mapsto> demo_process]" "w_next_proc demo_world = 1"
    "w_blocks demo_world = \<lparr>blocks = [0 \<mapsto> \<lparr>b_flags = 0, b_addr = 0x10, b_size = 5, b_stack = Some (Cell 0 0),
       b_refcount = 1\<rparr>], n_new = 1\<rparr>"
    by (simp_all add: demo_world_def)
  then show ?thesis
    using h by (auto simp: world_ok_def table_ok_def totals_ok_def demo_table block_size_def split: if_splits)
      (simp_all add: demo_process_def)
qed

lemma demo_room: "room (w_blocks demo_world)"
  by (simp add: room_def demo_world_def)

section \<open>Forking\<close>

lemma modify_Some: "w_procs w i = Some p \<Longrightarrow> modify i f w = Some (put i (f p) w)"
  by (simp add: modify_def)

text \<open>
  Property C19: a forked child is connected and starts with what its parent had. When a traced
  process whose children are followed forks, the server answers yes, enters the child under its
  pid, watches its connection, and the child shows the same live blocks, sizes and call stacks,
  the same totals and the same next sequence number as the parent, whose own view is unchanged.
\<close>

theorem fork_inherits:
  assumes "world_ok x w" and "enumerates_tables enum" and "room (w_blocks w)"
    and "operation info = MI_FORK" and "mp_server_find_process w (i_pid info) = Some i"
    and "w_procs w i = Some p" and "p_follow_fork p" and "mp_server_find_process w (new_pid info) = None"
  shows "\<exists>w' j q. control_func enum (Some fd) (Some info) True w = Some w' \<and> world_ok x w' \<and>
    w_procs w j = None \<and> w_procs w' j = Some q \<and> mp_server_find_process w' (new_pid info) = Some j \<and>
    mp_server_find_process w' (i_pid info) = Some i \<and>
    p_status q = MP_PROCESS_RUNNING \<and> p_pid q = new_pid info \<and> p_parent q = Some i \<and>
    p_input_channel q = Some fd \<and> p_input_tag q \<and>
    p_seqno q = p_seqno p \<and> p_bytes_used q = p_bytes_used p \<and> p_n_allocations q = p_n_allocations p \<and>
    view w' j = view w i \<and> view w' i = view w i \<and>
    w_log w' = w_log w @ [Process_Created j, Status_Changed j, Response fd True]"
proof -
  from process_duplicate_ok [OF assms(1,2,3,6)] obtain v j q where v:
    "process_duplicate enum i w = Some (v, j)" "world_ok x v" "w_procs w j = None"
    "w_procs v = (w_procs w)(j \<mapsto> q)" "view v j = view w i" "view v i = view w i"
    "w_pid_table v = w_pid_table w" "w_log v = w_log w"
    and q: "q = mp_process_init\<lparr>p_block_table := p_block_table q, p_bytes_used := p_bytes_used p,
      p_n_allocations := p_n_allocations p, p_seqno := p_seqno p, p_parent := Some i\<rparr>" by blast
  have ij: "i \<noteq> j" using assms(6) v(3) by auto
  have npid: "new_pid info \<noteq> i_pid info" using assms(5,8) by auto
  have vj: "w_procs v j = Some q" using v(4) by simp
  have qf: "p_status q = MP_PROCESS_INIT" "p_parent q = Some i" "p_input_tag q = False"
    "p_seqno q = p_seqno p" "p_bytes_used q = p_bytes_used p" "p_n_allocations q = p_n_allocations p"
    by (subst q, simp add: mp_process_init_def)+
  let ?q1 = "q\<lparr>p_pid := new_pid info\<rparr>"
  let ?q2 = "init_process (w_follow_fork v) (w_follow_exec v) ?q1"
  let ?q3 = "?q2\<lparr>p_status := MP_PROCESS_RUNNING\<rparr>"
  let ?q4 = "start_input (?q3\<lparr>p_input_channel := Some fd\<rparr>)"
  let ?t = "(case w_pid_table w of None \<Rightarrow> Map.empty | Some t \<Rightarrow> t)(new_pid info \<mapsto> j)"
  let ?w = "v\<lparr>w_procs := (w_procs w)(j \<mapsto> ?q4), w_pid_table := Some ?t,
      w_log := w_log w @ [Process_Created j, Status_Changed j, Response fd True]\<rparr>"
  have "control_func enum (Some fd) (Some info) True w = Some ?w"
    using assms(4-8) v(1,4,7,8) vj qf
    by (simp add: control_func_def connect_def connect_new_def modify_def put_def Let_def
        mp_server_add_process_def mp_server_process_created_def emit_def process_set_status_def
        init_process_def process_set_follow_fork_def process_set_follow_exec_def)
  moreover have "world_ok x ?w"
    using control_func_ok [OF assms(1,2,3)] calculation by blast
  moreover have "view ?w j = view w i" "view ?w i = view w i"
  proof -
    have "table ?q4 = table q"
      by (simp add: table_def start_input_def init_process_def process_set_follow_fork_def
          process_set_follow_exec_def)
    then show "view ?w j = view w i" "view ?w i = view w i"
      using v(4,5,6) ij assms(6) by (auto simp: view_def fun_eq_iff)
  qed
  moreover have "mp_server_find_process ?w (new_pid info) = Some j"
    "mp_server_find_process ?w (i_pid info) = Some i"
    using assms(5) npid by (auto simp: mp_server_find_process_def split: option.splits)
  moreover have "p_status ?q4 = MP_PROCESS_RUNNING" "p_pid ?q4 = new_pid info" "p_parent ?q4 = Some i"
    "p_input_channel ?q4 = Some fd" "p_input_tag ?q4" "p_seqno ?q4 = p_seqno p"
    "p_bytes_used ?q4 = p_bytes_used p" "p_n_allocations ?q4 = p_n_allocations p"
    using qf by (simp_all add: start_input_def init_process_def process_set_follow_fork_def
          process_set_follow_exec_def)
  ultimately show ?thesis using v(3)
    by (intro exI [of _ ?w] exI [of _ j] exI [of _ ?q4]) simp
qed

definition fork_info :: mi_info where
  "fork_info = zero_info\<lparr>operation := MI_FORK, i_pid := 7, new_pid := 8\<rparr>"

theorem fork_inherits_witness:
  "\<exists>w' j q. control_func by_address (Some 4) (Some fork_info) True demo_world = Some w' \<and>
     w_procs w' j = Some q \<and> mp_server_find_process w' 8 = Some j \<and> p_seqno q = 1 \<and>
     view w' j 0x10 = Some (5, Some (Cell 0 0))"
proof -
  have "view demo_world 0 0x10 = Some (5, Some (Cell 0 0))"
    by (simp add: view_def demo_world_def demo_table block_info_def)
  then show ?thesis
    using fork_inherits [OF demo_world_ok by_address_enumerates demo_room, of fork_info 0 demo_process 4]
    by (auto simp: fork_info_def zero_info_def mp_server_find_process_def demo_world_def demo_process_def
        running_process_def)
qed


definition logged :: "world \<Rightarrow> world \<Rightarrow> bool" where
  "logged w w' \<longleftrightarrow> (\<exists>l. w_log w' = w_log w @ l)"

lemma logged_refl [simp]: "logged w w"
  by (simp add: logged_def)














theorem reachable_world_ok_witness:
  "\<exists>w. (server_step by_address)\<^sup>*\<^sup>* (initial_world (\<lambda>_. demo_node) True False) w \<and>
     mp_server_find_process w 7 = Some 0 \<and> world_ok (\<lambda>r. 0) w"
proof -
  let ?w = "initial_world (\<lambda>_. demo_node) True False"
  obtain v i where n: "process_new ?w = (v, i)" by (cases "process_new ?w")
  then have i: "i = 0" "w_procs v i = Some mp_process_init" "w_pid_table v = None"
    by (auto simp: process_new_def initial_world_def put_def Let_def)
  then obtain u where u: "process_run lib_env ''/bin/ls'' (Some (7, [])) i v = Some u"
    "mp_server_find_process u 7 = Some 0" "\<exists>p. w_procs u i = Some p"
    by (auto simp: process_run_def modify_def put_def mp_server_add_process_def process_set_status_def
        process_start_input_def mp_server_find_process_def emit_def mp_process_init_def Let_def)
  then obtain w where w: "modify i (init_process True False) u = Some w" by (auto simp: modify_def)
  have "server_step by_address ?w w" by (rule Run [OF n u(1) w])
  then have r: "(server_step by_address)\<^sup>*\<^sup>* ?w w" by simp
  have "mp_server_find_process w 7 = Some 0"
    using u(2) w by (auto simp: modify_def put_def mp_server_find_process_def)
  with r reachable_world_ok [OF by_address_enumerates r] show ?thesis by blast
qed

section \<open>Losing a connection\<close>

text \<open>
  When its connection ends, a process becomes defunct and loses its entry in the
  table of pids, but only its own: an entry that another process has taken over (as happens
  when a program is followed across \<open>exec\<close>) and the entries of all other pids stay.
\<close>

theorem end_of_input_removes:
  assumes "w_procs w i = Some p"
  shows "\<exists>w' q. input_func env i [] w = Some (w', [], False) \<and> w_procs w' i = Some q \<and>
    p_status q = MP_PROCESS_DEFUNCT \<and> p_input_channel q = None \<and>
    mp_server_find_process w' (p_pid p) =
      (if mp_server_find_process w (p_pid p) = Some i then None else mp_server_find_process w (p_pid p)) \<and>
    (\<forall>pid. pid \<noteq> p_pid p \<longrightarrow> mp_server_find_process w' pid = mp_server_find_process w pid) \<and>
    (\<forall>j. j \<noteq> i \<longrightarrow> w_procs w' j = w_procs w j)"
  using assms
  by (cases "w_pid_table w")
    (auto simp: modify_def put_def mp_server_remove_process_def process_set_status_def emit_def
      mp_server_find_process_def)

theorem end_of_input_removes_witness:
  "\<exists>w' q. input_func prog_env 0 [] demo_world = Some (w', [], False) \<and> w_procs w' 0 = Some q \<and>
     p_status q = MP_PROCESS_DEFUNCT \<and> mp_server_find_process w' 7 = None"
  using end_of_input_removes [of demo_world 0 demo_process prog_env]
  by (auto simp: demo_world_def demo_process_def running_process_def mp_server_find_process_def)

section \<open>A shared block outlives its call stack\<close>

lemma view_kept:
  assumes w: "world_ok x w" and j: "j \<noteq> i" "w_procs w j = Some q"
    and k: "blocks_kept (others x (w_procs w) i) (w_blocks w) h"
  shows "Option.bind (table q a) (block_info h) = Option.bind (table q a) (block_info (w_blocks w))"
proof (cases "table q a")
  case (Some r)
  have "0 < others x (w_procs w) i r" by (rule others_pos [OF world_okD(1) [OF w] j(2,1) Some])
  moreover obtain b where b: "blocks (w_blocks w) r = Some b"
    using world_okD(6) [OF w j(2)] Some by (auto simp: table_ok_def)
  ultimately obtain n where "blocks h r = Some (b\<lparr>b_refcount := n\<rparr>)" using blocks_keptD [OF k] by blast
  with b Some show ?thesis by (simp add: block_info_def)
qed simp

text \<open>
  Property C21: resetting a process frees the call stacks of blocks that a forked child still
  shows. \<open>process_duplicate\<close> gives the child the parent's blocks, whose \<open>stack\<close> points into the
  parent's stash; when the parent then executes another program, \<open>process_exec_reset\<close> drops the
  only reference to that stash. The child's view still has the block with its stack, but the
  walk over the stack, which the leak report and the profile make, follows a freed node.
\<close>

theorem exec_reset_leaves_dangling_stack:
  assumes "world_ok x w" and "enumerates_tables enum" and "w_procs w i = Some p"
    and "p_stack_stash p = Some s" and "w_stashes w s = Some st" and "ss_ref_count st = 1"
    and "cell_block r \<in> set (ss_blocks st)" and "j \<noteq> i" and "view w j a = Some (n, Some r)"
  shows "\<exists>w'. process_exec_reset enum i w = Some w' \<and> view w' j a = Some (n, Some r) \<and>
    frames_of (nodes (w_nodes w')) (Some r) = None"
proof -
  have b: "blocks_ok (others x (w_procs w) i) (table p) (w_blocks w)"
    by (rule process_blocks_ok [OF assms(1,3)])
  let ?p = "stop_input p"
  have sp: "p_stack_stash ?p = Some s" "p_block_table ?p = p_block_table p"
    using assms(4) by (simp_all add: stop_input_def)
  then have "table ?p = table p" by (simp add: table_def)
  with b release_table_ok [OF assms(2), of _ ?p "w_blocks w"] obtain h where
    h: "release_table enum ?p (w_blocks w) = Some h"
      "blocks_kept (others x (w_procs w) i) (w_blocks w) h" by auto
  let ?v = "put i ?p w"
  obtain u where u: "release_stash ?p (?v\<lparr>w_blocks := h\<rparr>) = Some u"
    "nodes (w_nodes u) = (\<lambda>r. if cell_block r \<in> set (ss_blocks st) then None else nodes (w_nodes w) r)"
    using assms(5,6) sp(1)
    by (auto simp: release_stash_def stack_stash_unref_def stack_stash_free_def put_def Let_def)
  note fr = release_stash_frame [OF u(1)]
  define w' where "w' = emit (Reset i) (put i (?p\<lparr>p_input_channel := None, p_bytes_used := 0,
      p_n_allocations := 0, p_seqno := 0, p_map_list := [], p_bad_pages := [], p_block_table := None,
      p_stack_stash := None, p_command_queue := []\<rparr>) u)"
  have "process_stop_input i w = Some ?v" "w_procs ?v i = Some ?p" "w_blocks ?v = w_blocks w"
    using assms(3) by (simp_all add: process_stop_input_def modify_def put_def)
  then have reset: "process_exec_reset enum i w = Some w'"
    using h(1) u(1) by (simp add: process_exec_reset_def process_reinit_def w'_def)
  have w': "w_nodes w' = w_nodes u" "w_blocks w' = h" "\<And>j. j \<noteq> i \<Longrightarrow> w_procs w' j = w_procs w j"
    using fr by (simp_all add: w'_def emit_def put_def)
  obtain q where q: "w_procs w j = Some q" using assms(9) by (auto simp: view_def bind_eq_Some)
  have "view w' j a = view w j a"
    using view_kept [OF assms(1,8) q h(2), of a] q w'(2,3) assms(8) by (simp add: view_def)
  moreover have "frames_of (nodes (w_nodes w')) (Some r) = None"
    using assms(7) w'(1) u(2) by (subst frames_of.simps) simp
  ultimately show ?thesis using reset assms(9) by auto
qed

text \<open>The instance: the process forks, and its parent executes another program.\<close>

definition forked_world :: world where
  "forked_world = demo_world\<lparr>
     w_procs := [0 \<mapsto> demo_process, 1 \<mapsto> demo_process\<lparr>p_pid := 8, p_stack_stash := None, p_parent := Some 0\<rparr>],
     w_next_proc := 2,
     w_blocks := \<lparr>blocks = [0 \<mapsto> \<lparr>b_flags = 0, b_addr = 0x10, b_size = 5, b_stack = Some (Cell 0 0),
       b_refcount = 2\<rparr>], n_new = 1\<rparr>\<rparr>"

lemma forked_table: "table (demo_process\<lparr>p_pid := 8, p_stack_stash := None, p_parent := Some 0\<rparr>) = [0x10 \<mapsto> 0]"
  by (simp add: demo_process_def table_def)

lemma forked_world_ok: "world_ok (\<lambda>r. 0) forked_world"
proof -
  have h: "holders (w_procs forked_world) r = (if r = 0 then {0, 1} else {})" for r
    by (auto simp: holders_def forked_world_def demo_table forked_table split: if_splits)
  have "w_procs forked_world = [0 \<mapsto> demo_process, 1 \<mapsto> demo_process\<lparr>p_pid := 8, p_stack_stash := None,
      p_parent := Some 0\<rparr>]" "w_next_proc forked_world = 2"
    "w_blocks forked_world = \<lparr>blocks = [0 \<mapsto> \<lparr>b_flags = 0, b_addr = 0x10, b_size = 5, b_stack = Some (Cell 0 0),
       b_refcount = 2\<rparr>], n_new = 1\<rparr>"
    by (simp_all add: forked_world_def)
  then show ?thesis
    using h by (auto simp: world_ok_def table_ok_def totals_ok_def demo_table forked_table block_size_def split: if_splits)
      (simp_all add: demo_process_def)
qed

theorem exec_reset_leaves_dangling_stack_witness:
  "\<exists>w'. process_exec_reset by_address 0 forked_world = Some w' \<and>
     view w' 1 0x10 = Some (5, Some (Cell 0 0)) \<and> frames_of (nodes (w_nodes w')) (Some (Cell 0 0)) = None"
  by (rule exec_reset_leaves_dangling_stack [OF forked_world_ok by_address_enumerates,
        where p = demo_process and s = 0 and st = "the (w_stashes forked_world 0)"])
    (simp_all add: forked_world_def demo_world_def demo_process_def view_def table_def block_info_def)

end
