(* ===== verification/Numerals.thy ===== *)
theory Numerals
  imports Proc_Maps
begin

text \<open>
  Printed numbers: the digits of a number in a base, the way \<open>printf\<close> and the kernel print
  them, and the fact that scanning them gives the number back. The program's own printer
  (lib/memintercept-utils.c) and its scanners of files in \<open>/proc\<close> are compared with it.
\<close>

definition digit_char :: "nat \<Rightarrow> char" where
  "digit_char d = (if d < 10 then char_of (d + 48) else char_of (d + 87))"

fun numeral_of :: "nat \<Rightarrow> nat \<Rightarrow> string" where
  "numeral_of b n =
     (if b < 2 \<or> n < b then [digit_char n] else numeral_of b (n div b) @ [digit_char (n mod b)])"

declare numeral_of.simps [simp del]

lemma digit_of_char:
  assumes "d < 16"
  shows "digit_of (digit_char d) = Some (int d)"
proof -
  have "(of_char (char_of n :: char) :: int) = int n" if "n < 256" for n :: nat
    using that of_nat_of_char [where 'a = int, of "char_of n"] by simp
  with assms show ?thesis by (auto simp: digit_of_def digit_char_def Let_def)
qed

lemma is_digit_char: "d < b \<Longrightarrow> b \<le> 16 \<Longrightarrow> is_digit (int b) (digit_char d)"
  by (simp add: is_digit_def digit_of_char)

lemma numeral_of_Cons: "\<exists>c cs. numeral_of b n = c # cs"
  by (subst numeral_of.simps) (cases "numeral_of b (n div b)", auto)

lemma numeral_of_nonempty [simp]: "numeral_of b n \<noteq> []"
  using numeral_of_Cons [of b n] by auto

lemma numeral_of_digits: "2 \<le> b \<Longrightarrow> b \<le> 16 \<Longrightarrow> list_all (is_digit (int b)) (numeral_of b n)"
proof (induction b n rule: numeral_of.induct)
  case (1 b n)
  show ?case
  proof (cases "n < b")
    case True
    with 1 show ?thesis by (subst numeral_of.simps) (simp add: is_digit_char)
  next
    case False
    with 1 have "list_all (is_digit (int b)) (numeral_of b (n div b))" by simp
    with False 1 show ?thesis by (subst numeral_of.simps) (simp add: is_digit_char)
  qed
qed

lemma number_of_append:
  "number_of b acc (xs @ [c]) = number_of b acc xs * b + the (digit_of c)"
  by (induction xs arbitrary: acc) simp_all

lemma number_of_numeral: "2 \<le> b \<Longrightarrow> b \<le> 16 \<Longrightarrow> number_of (int b) 0 (numeral_of b n) = int n"
proof (induction b n rule: numeral_of.induct)
  case (1 b n)
  show ?case
  proof (cases "n < b")
    case True
    with 1 show ?thesis by (subst numeral_of.simps) (simp add: digit_of_char)
  next
    case False
    with 1 have "number_of (int b) 0 (numeral_of b (n div b)) = int (n div b)" by simp
    moreover have "n mod b < 16" using mod_less_divisor [of b n] 1(2,3) by linarith
    moreover have "int (n div b) * int b + int (n mod b) = int n"
      by (simp flip: of_nat_mult of_nat_add)
    ultimately show ?thesis using False 1 by (subst numeral_of.simps) (simp add: number_of_append digit_of_char)
  qed
qed

lemma takeWhile_numeral:
  assumes "2 \<le> b" and "b \<le> 16" and "\<not> is_digit (int b) c"
  shows "takeWhile (is_digit (int b)) (numeral_of b n @ c # s) = numeral_of b n"
    and "dropWhile (is_digit (int b)) (numeral_of b n @ c # s) = c # s"
  using dropWhile_digits [OF numeral_of_digits [OF assms(1,2)] assms(3)] by simp_all

text \<open>Scanning a printed number that something else follows.\<close>

lemma scan_numeral:
  assumes "2 \<le> b" and "b \<le> 16" and "\<not> is_digit (int b) c" and "list_all is_space ws"
  shows "scan_number (int b) (ws @ numeral_of b n @ c # s) = Some (int n, c # s)"
proof -
  obtain d ds where d: "numeral_of b n = d # ds" using numeral_of_Cons by blast
  have "is_digit (int b) d" using numeral_of_digits [OF assms(1,2), of n] d by simp
  then have "\<not> is_space d" by (rule digit_not_space)
  moreover have "dropWhile is_space (ws @ xs) = dropWhile is_space xs" for xs
    using assms(4) by (induction ws) auto
  ultimately have "dropWhile is_space (ws @ numeral_of b n @ c # s) = numeral_of b n @ c # s" by (simp add: d)
  with takeWhile_numeral [OF assms(1-3)] show ?thesis
    by (simp add: scan_number_def number_of_numeral assms)
qed

section \<open>Signed numbers and the fields of a format\<close>

text \<open>\<open>%d\<close>, \<open>%u\<close> and \<open>%lu\<close> accept a sign.\<close>

definition scan_signed :: "string \<Rightarrow> (int \<times> string) option" where
  "scan_signed s = (case dropWhile is_space s of
       c # r \<Rightarrow> if c \<in> {CHR ''-'', CHR ''+''} then
           (if r \<noteq> [] \<and> is_digit 10 (hd r)
            then map_option (apfst (\<lambda>n. if c = CHR ''-'' then - n else n)) (scan_number 10 r) else None)
         else scan_number 10 (c # r)
     | [] \<Rightarrow> None)"

text \<open>
  The conversions of the format for \<open>/proc/PID/stat\<close>: \<open>%*d\<close> and \<open>%*u\<close>, \<open>%*s\<close>, \<open>%c\<close> after a
  blank, \<open>%lu\<close>. Scanning stops at the first that fails; the values it has stored by then are
  the result.
\<close>

datatype conversion = Skip_Number | Skip_Word | Letter | Number
datatype scanned = Letter_Value char | Number_Value "64 word"

fun scan_fields :: "conversion list \<Rightarrow> string \<Rightarrow> scanned list" where
  "scan_fields [] s = []"
| "scan_fields (Skip_Number # cs) s = (case scan_signed s of None \<Rightarrow> [] | Some (_, s) \<Rightarrow> scan_fields cs s)"
| "scan_fields (Skip_Word # cs) s = (case scan_word (length s) s of None \<Rightarrow> [] | Some (_, s) \<Rightarrow> scan_fields cs s)"
| "scan_fields (Letter # cs) s = (case dropWhile is_space s of [] \<Rightarrow> [] | c # s \<Rightarrow> Letter_Value c # scan_fields cs s)"
| "scan_fields (Number # cs) s = (case scan_signed s of None \<Rightarrow> []
     | Some (n, s) \<Rightarrow> Number_Value (if n < 0 then of_int n else ulong n) # scan_fields cs s)"

text \<open>A signed number in decimal digits.\<close>

definition signed_numeral :: "int \<Rightarrow> string" where
  "signed_numeral n = (if n < 0 then CHR ''-'' # numeral_of 10 (nat (- n)) else numeral_of 10 (nat n))"

lemma scan_signed_numeral:
  assumes "\<not> is_digit 10 c" and ws: "list_all is_space ws"
  shows "scan_signed (ws @ signed_numeral n @ c # s) = Some (n, c # s)"
proof -
  have skip: "dropWhile is_space (ws @ xs) = dropWhile is_space xs" for xs
    using ws by (induction ws) auto
  have scan: "scan_number 10 (numeral_of 10 m @ c # s) = Some (int m, c # s)" for m
    using scan_numeral [of 10 c "[]" m s] assms(1) by simp
  obtain d ds where d: "numeral_of 10 (nat \<bar>n\<bar>) = d # ds" using numeral_of_Cons by blast
  then have dig: "is_digit 10 d" using numeral_of_digits [of 10 "nat \<bar>n\<bar>"] by simp
  then have sp: "\<not> is_space d" by (rule digit_not_space)
  have sign: "d \<noteq> CHR ''-''" "d \<noteq> CHR ''+''" using dig by (auto simp: is_digit_def digit_of_def)
  have sgn: "\<not> is_space CHR ''-''" by (simp add: is_space_def)
  show ?thesis
  proof (cases "n < 0")
    case True
    then have "numeral_of 10 (nat (- n)) = d # ds" using d by simp
    with True dig sgn scan [of "nat (- n)"] show ?thesis
      by (simp add: scan_signed_def skip signed_numeral_def)
  next
    case False
    then have "numeral_of 10 (nat n) = d # ds" using d by simp
    with False sp sign scan [of "nat n"] show ?thesis
      by (simp add: scan_signed_def skip signed_numeral_def)
  qed
qed

section \<open>A long cut to an int\<close>

lemma sint_low: "- (2 ^ 31) \<le> k \<Longrightarrow> k < 2 ^ 31 \<Longrightarrow> sint (ucast (of_int k :: 64 word) :: 32 word) = k"
proof -
  assume k: "- (2 ^ 31) \<le> k" "k < 2 ^ 31"
  have "(ucast (of_int k :: 64 word) :: 32 word) = of_int k" 
  proof (rule bit_word_eqI)
    fix i assume "i < LENGTH(32)"
    then show "bit (ucast (of_int k :: 64 word) :: 32 word) i = bit (of_int k :: 32 word) i"
      by (simp add: bit_ucast_iff bit_word_of_int_iff)
  qed
  with k show ?thesis by (simp add: signed_of_int signed_take_bit_int_eq_self)
qed

end
