(* ===== verification/Leakdetect.thy ===== *)
theory Leakdetect
  imports World_Inv Numerals
begin

text \<open>
  The leak detector (src/leakdetect.c): it stops the threads of the process, collects the live
  blocks, sorts them by address, takes the stacks and the data sections as roots, scans words
  that point into a block, transitively, and reports the blocks it never met. Roots are
  blocks of the profiler's heap too; the memory of the stopped process is a function
  \<open>peek\<close>, \<open>None\<close> where \<open>ptrace\<close> cannot read a word.
\<close>

section \<open>The blocks, sorted\<close>

definition is_root :: "block \<Rightarrow> bool" where
  "is_root b \<longleftrightarrow> and (b_flags b) BLOCK_IS_ROOT \<noteq> 0"

definition is_marked :: "block \<Rightarrow> bool" where
  "is_marked b \<longleftrightarrow> and (b_flags b) BLOCK_MARKED \<noteq> 0"

definition set_mark :: "block \<Rightarrow> block" where
  "set_mark b = b\<lparr>b_flags := or (b_flags b) BLOCK_MARKED\<rparr>"

definition block_upd :: "bref \<Rightarrow> (block \<Rightarrow> block) \<Rightarrow> block_heap \<Rightarrow> block_heap option" where
  "block_upd r f h = map_option (\<lambda>b. h\<lparr>blocks := (blocks h)(r \<mapsto> f b)\<rparr>) (blocks h r)"

text \<open>\<open>prepare_block\<close>: no block of a table may be a root; its mark is cleared.\<close>

definition prepare_block :: "bref \<Rightarrow> block_heap \<Rightarrow> block_heap option" where
  "prepare_block r h = do {
     b \<leftarrow> blocks h r;
     if is_root b then None
     else block_upd r (\<lambda>b. b\<lparr>b_flags := and (b_flags b) (not BLOCK_MARKED),
            b_refcount := b_refcount b + 1\<rparr>) h
   }"

fun prepare_blocks :: "bref list \<Rightarrow> block_heap \<Rightarrow> block_heap option" where
  "prepare_blocks [] h = Some h"
| "prepare_blocks (r # rs) h = Option.bind (prepare_block r h) (prepare_blocks rs)"

definition compare_blocks :: "block_heap \<Rightarrow> bref \<Rightarrow> bref \<Rightarrow> int" where
  "compare_blocks h r s =
     (let a = b_addr (the (blocks h r)); b = b_addr (the (blocks h s)) in
      if a < b then -1 else if a = b then 0 else 1)"

text \<open>\<open>qsort\<close> with \<open>compare_blocks\<close>; the blocks of a table have different addresses.\<close>

definition sort_blocks :: "block_heap \<Rightarrow> bref list \<Rightarrow> bref list" where
  "sort_blocks h rs = sort_key (\<lambda>r. b_addr (the (blocks h r))) rs"

section \<open>Finding the block of an address\<close>

definition element :: "block_heap \<Rightarrow> bref list \<Rightarrow> nat \<Rightarrow> (bref \<times> block) option" where
  "element h arr i = do { r \<leftarrow> at arr i; b \<leftarrow> blocks h r; Some (r, b) }"

definition block_search :: "block_heap \<Rightarrow> bref list \<Rightarrow> ptr \<Rightarrow> u32 \<Rightarrow> u32 \<Rightarrow> u32 option" where
  "block_search h arr = bracket_loop (\<lambda>i. map_option (b_addr \<circ> snd) (element h arr i))"

definition in_block :: "ptr \<Rightarrow> block \<Rightarrow> bool" where
  "in_block a b \<longleftrightarrow> a < b_addr b + ucast (b_size b)"

definition find_block :: "block_heap \<Rightarrow> bref list \<Rightarrow> ptr \<Rightarrow> bref option option" where
  "find_block h arr a =
     (if arr = [] then Some None
      else let lst = of_nat (length arr) - 1 in do {
        (r0, b0) \<leftarrow> element h arr 0;
        if a < b_addr b0 then Some None
        else do {
          (rl, bl) \<leftarrow> element h arr (unat lst);
          if a < b_addr bl then do {
            first \<leftarrow> block_search h arr a 0 lst;
            (r, b) \<leftarrow> element h arr (unat first);
            Some (if in_block a b then Some r else None)
          } else Some (if in_block a bl then Some rl else None)
        }
      })"

section \<open>Scanning\<close>

text \<open>The list of blocks to visit is a stack.\<close>

fun scan_block_contents ::
    "bref list \<Rightarrow> ptr list \<Rightarrow> block_heap \<times> bref list \<Rightarrow> (block_heap \<times> bref list) option" where
  "scan_block_contents arr [] hl = Some hl"
| "scan_block_contents arr (v # vs) hl = do {
     found \<leftarrow> find_block (fst hl) arr v;
     hl \<leftarrow> (case found of None \<Rightarrow> Some hl
       | Some r \<Rightarrow> do {
           b \<leftarrow> blocks (fst hl) r;
           if is_root b then None
           else if is_marked b then Some hl
           else do { h \<leftarrow> block_upd r set_mark (fst hl); Some (h, r # snd hl) }
         });
     scan_block_contents arr vs hl
   }"

text \<open>
  \<open>scan_block\<close> reads \<open>(size + 3) / 4\<close> words, computed in 32 bits, and hands over only the
  first \<open>size / sizeof (void * )\<close> of them. A word it cannot read ends the scan of the block.
\<close>

definition peek_count :: "u32 \<Rightarrow> nat" where
  "peek_count n = unat ((n + 3) div 4)"

definition word_count :: "u32 \<Rightarrow> nat" where
  "word_count n = unat n div 8"

fun peek_words :: "(ptr \<Rightarrow> ptr option) \<Rightarrow> ptr \<Rightarrow> nat \<Rightarrow> ptr list option" where
  "peek_words peek a 0 = Some []"
| "peek_words peek a (Suc n) = do { v \<leftarrow> peek a; vs \<leftarrow> peek_words peek (a + 8) n; Some (v # vs) }"

text \<open>For a size above \<open>2 ^ 32 - 4\<close> the array is empty and is read past its end.\<close>

definition scan_block ::
    "(ptr \<Rightarrow> ptr option) \<Rightarrow> bref list \<Rightarrow> bref \<Rightarrow> block_heap \<times> bref list \<Rightarrow> (block_heap \<times> bref list) option" where
  "scan_block peek arr r hl = do {
     b \<leftarrow> blocks (fst hl) r;
     (case peek_words peek (b_addr b) (peek_count (b_size b)) of None \<Rightarrow> Some hl
      | Some mem \<Rightarrow> if length mem < word_count (b_size b) then None
          else scan_block_contents arr (take (word_count (b_size b)) mem) hl)
   }"

text \<open>The loop of \<open>leaks_find\<close> over the blocks to visit.\<close>

partial_function (option) scan_all ::
    "(ptr \<Rightarrow> ptr option) \<Rightarrow> bref list \<Rightarrow> block_heap \<Rightarrow> bref list \<Rightarrow> block_heap option" where
  "scan_all peek arr h todo =
     (if todo = [] then Some h
      else Option.bind (scan_block peek arr (hd todo) (h, tl todo))
        (\<lambda>hl. scan_all peek arr (fst hl) (snd hl)))"

section \<open>Roots\<close>

text \<open>
  \<open>read_stack_maps\<close> scans all numbers of a line but the offset as decimal ones. Only the
  address and the size of the maps it returns are ever read.
\<close>

fun stack_map_lines :: "maps_line list \<Rightarrow> (ptr \<times> ptr) list \<Rightarrow> (ptr \<times> ptr) list" where
  "stack_map_lines [] acc = acc"
| "stack_map_lines (l # ls) acc = stack_map_lines ls
     (if ml_count l \<ge> 6 \<and> ml_perms l = ''rwxp'' then (ml_start l, ml_end l - ml_start l) # acc else acc)"

definition read_stack_maps :: "env \<Rightarrow> pid \<Rightarrow> (ptr \<times> ptr) list" where
  "read_stack_maps env pid = (case proc_maps env pid of None \<Rightarrow> []
     | Some ls \<Rightarrow> stack_map_lines (map (parse_maps_line 10 10) ls) [])"

text \<open>
  \<open>read_proc_stat\<close>: the letter of the state, the start of the stack and the stack pointer. When
  the file cannot be read or a field cannot be scanned it fails.
\<close>

definition stat_format :: "conversion list" where
  "stat_format = [Skip_Number, Skip_Word, Letter] @ replicate 24 Skip_Number @ [Number, Number] @
     replicate 8 Skip_Number"

definition read_proc_stat :: "string option \<Rightarrow> (char \<times> ptr \<times> ptr) option" where
  "read_proc_stat file = (case file of None \<Rightarrow> None
     | Some s \<Rightarrow> (case scan_fields stat_format s of
           [Letter_Value c, Number_Value start_stack, Number_Value end_stack] \<Rightarrow> Some (c, start_stack, end_stack)
         | _ \<Rightarrow> None))"

definition stat_status :: "string option \<Rightarrow> char" where
  "stat_status file = (case read_proc_stat file of None \<Rightarrow> CHR ''T'' | Some (c, _) \<Rightarrow> c)"

definition root_block :: "ptr \<Rightarrow> u32 \<Rightarrow> block" where
  "root_block a n = \<lparr>b_flags = BLOCK_IS_ROOT, b_addr = a, b_size = n, b_stack = None, b_refcount = 1\<rparr>"

definition add_root :: "ptr \<Rightarrow> u32 \<Rightarrow> block_heap \<times> bref list \<Rightarrow> block_heap \<times> bref list" where
  "add_root a n hl = (let (h, r) = block_new (root_block a n) (fst hl) in (h, r # snd hl))"

fun stack_root_in :: "ptr \<Rightarrow> ptr \<Rightarrow> (ptr \<times> ptr) list \<Rightarrow> (ptr \<times> u32) option" where
  "stack_root_in start_stack end_stack [] = None"
| "stack_root_in start_stack end_stack ((addr, sz) # ms) =
     (if end_stack \<ge> addr \<and> end_stack < addr + sz
      then Some (end_stack, ucast (if start_stack > addr \<and> start_stack < addr + sz
             then start_stack - end_stack else addr + sz - end_stack))
      else stack_root_in start_stack end_stack ms)"

definition add_stack_root ::
    "env \<Rightarrow> pid \<Rightarrow> (ptr \<times> ptr) list \<Rightarrow> block_heap \<times> bref list \<Rightarrow> block_heap \<times> bref list" where
  "add_stack_root env pid maps hl = (case read_proc_stat (proc_stat env pid) of None \<Rightarrow> hl
     | Some (_, start_stack, end_stack) \<Rightarrow>
         (case stack_root_in start_stack end_stack maps of None \<Rightarrow> hl
          | Some (a, n) \<Rightarrow> add_root a n hl))"

fun add_stack_roots ::
    "env \<Rightarrow> (ptr \<times> ptr) list \<Rightarrow> pid list \<Rightarrow> block_heap \<times> bref list \<Rightarrow> block_heap \<times> bref list" where
  "add_stack_roots env maps [] hl = hl"
| "add_stack_roots env maps (pid # pids) hl =
     add_stack_roots env maps pids (add_stack_root env pid maps hl)"

text \<open>\<open>process_data_root\<close> is the function given to \<open>process_sections\<close>.\<close>

fun add_data_roots :: "(ptr \<times> u32) list \<Rightarrow> block_heap \<times> bref list \<Rightarrow> block_heap \<times> bref list" where
  "add_data_roots [] hl = hl"
| "add_data_roots ((a, n) # cs) hl = add_data_roots cs (add_root a n hl)"

section \<open>The search for leaks\<close>

text \<open>
  Stopping a clone: \<open>polls pid\<close> is what the successive readings of \<open>/proc/PID/stat\<close> find in
  that file (\<open>stat_status\<close> is \<open>process_status\<close> of src/leakdetect.c); if none of them says that
  the clone has stopped, the loop does not end.
\<close>

fun wait_stopped :: "string option list \<Rightarrow> bool" where
  "wait_stopped [] = False"
| "wait_stopped (f # fs) = (stat_status f \<in> {CHR ''t'', CHR ''T''} \<or> wait_stopped fs)"

fun stop_clones :: "(pid \<Rightarrow> string option list) \<Rightarrow> pid list \<Rightarrow> world \<Rightarrow> world option" where
  "stop_clones polls [] w = Some w"
| "stop_clones polls (pid # pids) w =
     (if wait_stopped (polls pid) then stop_clones polls pids (emit (Signal_Stop pid) w) else None)"

fun continue_clones :: "pid list \<Rightarrow> world \<Rightarrow> world" where
  "continue_clones [] w = w"
| "continue_clones (pid # pids) w = continue_clones pids (emit (Signal_Continue pid) w)"

text \<open>The unmarked blocks, last first; a marked block loses the reference taken above.\<close>

fun collect_leaks :: "bref list \<Rightarrow> block_heap \<times> bref list \<Rightarrow> (block_heap \<times> bref list) option" where
  "collect_leaks [] hl = Some hl"
| "collect_leaks (r # rs) hl = do {
     b \<leftarrow> blocks (fst hl) r;
     if \<not> is_marked b then collect_leaks rs (fst hl, r # snd hl)
     else do { h \<leftarrow> block_unref r (fst hl); collect_leaks rs (h, snd hl) }
   }"

definition pids_of :: "world \<Rightarrow> pref list \<Rightarrow> pid list" where
  "pids_of w is = map p_pid (List.map_filter (w_procs w) is)"

definition leaks_find ::
    "env \<Rightarrow> ((ptr \<rightharpoonup> bref) \<Rightarrow> ptr list) \<Rightarrow> ((pid \<rightharpoonup> pref) \<Rightarrow> pid list) \<Rightarrow> (pid \<Rightarrow> string option list) \<Rightarrow> bool \<Rightarrow>
     (ptr \<Rightarrow> ptr option) \<Rightarrow> pref \<Rightarrow> world \<Rightarrow> (world \<times> bref list) option" where
  "leaks_find env enumb enump polls mem_opens peek i w = do {
     clones \<leftarrow> process_get_clones enump i w;
     p \<leftarrow> w_procs w i;
     w \<leftarrow> stop_clones polls (pids_of w clones) (emit (Trace_Attach (p_pid p)) w);
     if \<not> mem_opens then Some (emit (Warning ''open mem'') w, [])
     else do {
       (w, rs) \<leftarrow> process_block_foreach enumb i w;
       h \<leftarrow> prepare_blocks rs (w_blocks w);
       let arr = sort_blocks h rs;
       let hl = add_stack_roots env (read_stack_maps env (p_pid p)) (pids_of w clones) (h, []);
       p \<leftarrow> w_procs w i;
       (p, s, calls) \<leftarrow> process_sections env (p, w_inodes w);
       let (h, todo) = add_data_roots calls hl;
       h \<leftarrow> scan_all peek arr h todo;
       (h, leaks) \<leftarrow> collect_leaks arr (h, []);
       let w = emit Close_Memory (put i p (w\<lparr>w_blocks := h, w_inodes := s\<rparr>));
       let w = continue_clones (pids_of w clones) w;
       Some (emit (Trace_Detach (p_pid p)) (emit Close_Memory w), leaks)
     }
   }"

text \<open>The report: a line for each block and the dump of its call stack.\<close>

datatype report_line = Leaked ptr u32 | Frame dump_line

fun leaks_print ::
    "env \<Rightarrow> pref \<Rightarrow> bref list \<Rightarrow> world \<Rightarrow> (world \<times> report_line list) option" where
  "leaks_print env i [] w = Some (w, [])"
| "leaks_print env i (r # rs) w = do {
     b \<leftarrow> blocks (w_blocks w) r;
     p \<leftarrow> w_procs w i;
     (p, s, ls) \<leftarrow> process_dump_stack env (nodes (w_nodes w)) (b_stack b) (p, w_inodes w);
     (w, out) \<leftarrow> leaks_print env i rs (put i p (w\<lparr>w_inodes := s\<rparr>));
     Some (w, Leaked (b_addr b) (b_size b) # map Frame ls @ out)
   }"

end
