(* ===== verification/Leakdetect_Marking.thy ===== *)
theory Leakdetect_Marking
  imports Leakdetect
begin

text \<open>
  The two algorithms inside the leak detector: the binary search \<open>find_block\<close> finds the block
  an address points into, and the scan with its list of blocks to visit marks exactly the blocks
  that can be reached from the roots, and ends.
\<close>

section \<open>The block an address points into\<close>

definition block_addr :: "block_heap \<Rightarrow> bref \<Rightarrow> ptr" where
  "block_addr h r = b_addr (the (blocks h r))"

definition sorted_blocks :: "block_heap \<Rightarrow> bref list \<Rightarrow> bool" where
  "sorted_blocks h arr \<longleftrightarrow> set arr \<subseteq> dom (blocks h) \<and> sorted_wrt (\<lambda>r s. block_addr h r < block_addr h s) arr"

text \<open>
  \<open>points_into h R a r\<close>: of the blocks \<open>R\<close>, \<open>r\<close> is the one with the greatest address that is
  not above \<open>a\<close>, and \<open>a\<close> is below its end.
\<close>

definition points_into :: "block_heap \<Rightarrow> bref set \<Rightarrow> ptr \<Rightarrow> bref \<Rightarrow> bool" where
  "points_into h R a r \<longleftrightarrow> r \<in> R \<and> (\<exists>b. blocks h r = Some b \<and> b_addr b \<le> a \<and> in_block a b) \<and>
     (\<forall>s \<in> R. block_addr h s \<le> a \<longrightarrow> block_addr h s \<le> block_addr h r)"

lemma sorted_blocks_nth:
  assumes "sorted_blocks h arr" and "i < length arr"
  shows "\<exists>b. blocks h (arr ! i) = Some b \<and> b_addr b = block_addr h (arr ! i)"
proof -
  have "arr ! i \<in> dom (blocks h)" using assms by (auto simp: sorted_blocks_def dest: nth_mem)
  then show ?thesis by (auto simp: block_addr_def)
qed

lemma sorted_blocks_less:
  "sorted_blocks h arr \<Longrightarrow> i < j \<Longrightarrow> j < length arr \<Longrightarrow> block_addr h (arr ! i) < block_addr h (arr ! j)"
  by (auto simp: sorted_blocks_def sorted_wrt_iff_nth_less)

lemma sorted_blocks_le:
  "sorted_blocks h arr \<Longrightarrow> i \<le> j \<Longrightarrow> j < length arr \<Longrightarrow> block_addr h (arr ! i) \<le> block_addr h (arr ! j)"
  using sorted_blocks_less [of h arr i j] by (cases "i = j") auto

lemma element_nth:
  assumes "sorted_blocks h arr" and "i < length arr" and "blocks h (arr ! i) = Some b"
  shows "element h arr i = Some (arr ! i, b)"
  using assms by (simp add: element_def at_in)

text \<open>At the right index, the test of the end of the block decides.\<close>

lemma points_into_index:
  assumes s: "sorted_blocks h arr" and i: "i < length arr" and b: "blocks h (arr ! i) = Some b"
    and le: "block_addr h (arr ! i) \<le> a"
    and above: "Suc i < length arr \<Longrightarrow> a < block_addr h (arr ! Suc i)"
  shows "points_into h (set arr) a r \<longleftrightarrow> in_block a b \<and> r = arr ! i"
proof -
  have top: "block_addr h (arr ! j) \<le> a \<longleftrightarrow> j \<le> i" if "j < length arr" for j
  proof (cases "j \<le> i")
    case True
    then have "block_addr h (arr ! j) \<le> block_addr h (arr ! i)" using s i by (intro sorted_blocks_le)
    then have "block_addr h (arr ! j) \<le> a" using le by simp
    with True show ?thesis by simp
  next
    case False
    then have j: "Suc i \<le> j" by simp
    then have "a < block_addr h (arr ! Suc i)" using that above by simp
    moreover have "block_addr h (arr ! Suc i) \<le> block_addr h (arr ! j)"
      using s j that by (intro sorted_blocks_le)
    ultimately have "a < block_addr h (arr ! j)" by simp
    with False show ?thesis by simp
  qed
  have greatest: "\<forall>x \<in> set arr. block_addr h x \<le> a \<longrightarrow> block_addr h x \<le> block_addr h (arr ! i)"
  proof (intro ballI impI)
    fix x assume "x \<in> set arr" and x: "block_addr h x \<le> a"
    then obtain j where j: "j < length arr" "x = arr ! j" by (auto simp: in_set_conv_nth)
    with x top have "j \<le> i" by simp
    with j show "block_addr h x \<le> block_addr h (arr ! i)" using s i by (simp add: sorted_blocks_le)
  qed
  have ba: "b_addr b = block_addr h (arr ! i)" using b by (simp add: block_addr_def)
  show ?thesis
  proof
    assume p: "points_into h (set arr) a r"
    then obtain j where j: "j < length arr" "r = arr ! j" by (auto simp: points_into_def in_set_conv_nth)
    from p obtain c where c: "blocks h r = Some c" "b_addr c \<le> a" "in_block a c"
      by (auto simp: points_into_def)
    then have "block_addr h r \<le> a" by (simp add: block_addr_def)
    with j top have "j \<le> i" by simp
    have "arr ! i \<in> set arr" using i by simp
    with p le have "block_addr h (arr ! i) \<le> block_addr h r" by (auto simp: points_into_def)
    with j have "\<not> j < i" using sorted_blocks_less [OF s _ i, of j] by auto
    with \<open>j \<le> i\<close> have "j = i" by simp
    with j b c show "in_block a b \<and> r = arr ! i" by simp
  next
    assume "in_block a b \<and> r = arr ! i"
    then show "points_into h (set arr) a r"
      using b le ba i greatest by (auto simp: points_into_def)
  qed
qed

lemma find_block_spec:
  assumes s: "sorted_blocks h arr" and n: "length arr \<le> 2 ^ 31"
  shows "\<exists>x. find_block h arr a = Some x \<and> (\<forall>r. x = Some r \<longleftrightarrow> points_into h (set arr) a r)"
proof (cases "arr = []")
  case True
  then show ?thesis by (simp add: find_block_def points_into_def)
next
  case False
  let ?n = "length arr" and ?l = "of_nat (length arr) - 1 :: u32"
  have nz: "(of_nat ?n :: u32) \<noteq> 0"
  proof
    assume "(of_nat ?n :: u32) = 0"
    then have "unat (of_nat ?n :: u32) = 0" by simp
    moreover have "unat (of_nat ?n :: u32) = ?n" using n by (intro unat_of_nat_small) simp
    ultimately show False using False by simp
  qed
  have l: "unat ?l = ?n - 1" using nz n by (simp add: unat_pred unat_of_nat_small)
  have n0: "0 < ?n" using False by simp
  obtain b0 where b0: "blocks h (arr ! 0) = Some b0" "b_addr b0 = block_addr h (arr ! 0)"
    using sorted_blocks_nth [OF s n0] by blast
  have l': "?n - 1 < ?n" using n0 by simp
  obtain bl where bl: "blocks h (arr ! (?n - 1)) = Some bl" "b_addr bl = block_addr h (arr ! (?n - 1))"
    using sorted_blocks_nth [OF s l'] by blast
  note e0 = element_nth [OF s n0 b0(1)] and el = element_nth [OF s l' bl(1), folded l]
  show ?thesis
  proof (cases "a < b_addr b0")
    case below: True
    have "\<not> points_into h (set arr) a r" for r
    proof
      assume p: "points_into h (set arr) a r"
      then obtain j where j: "j < ?n" "r = arr ! j" by (auto simp: points_into_def in_set_conv_nth)
      have "block_addr h (arr ! 0) \<le> block_addr h (arr ! j)" using s j by (intro sorted_blocks_le) auto
      moreover have "block_addr h r \<le> a" using p by (auto simp: points_into_def block_addr_def)
      ultimately show False using below b0 j by simp
    qed
    with below False show ?thesis by (simp add: find_block_def e0)
  next
    case ge0: False
    show ?thesis
    proof (cases "a < b_addr bl")
      case False
      have "points_into h (set arr) a r \<longleftrightarrow> in_block a bl \<and> r = arr ! (?n - 1)" for r
        by (rule points_into_index [OF s l' bl(1)]) (use False bl in auto)
      with False ge0 \<open>arr \<noteq> []\<close> show ?thesis
        by (simp add: find_block_def e0 el) (auto simp: l)
    next
      case mid: True
      have lt: "unat (0 :: u32) < unat ?l"
      proof (rule ccontr)
        assume "\<not> unat (0 :: u32) < unat ?l"
        then have "?n - 1 = 0" using l by simp
        then show False using mid ge0 b0 bl by simp
      qed
      have keys: "i < ?n \<Longrightarrow> map_option (b_addr \<circ> snd) (element h arr i) = Some (block_addr h (arr ! i))" for i
        using sorted_blocks_nth [OF s, of i] element_nth [OF s, of i] by auto
      have top: "unat ?l < ?n" using l n0 by simp
      have "a < block_addr h (arr ! unat ?l)" using mid bl l by simp
      with bracket_loop_bracket [OF lt top n, where a = a
          and f = "\<lambda>i. block_addr h (arr ! i)"
          and key = "\<lambda>i. map_option (b_addr \<circ> snd) (element h arr i)"] keys
      obtain i where i: "block_search h arr a 0 ?l = Some i" "unat i < unat ?l"
        "a < block_addr h (arr ! Suc (unat i))" "i = 0 \<or> block_addr h (arr ! unat i) \<le> a"
        unfolding block_search_def by blast
      have i': "unat i < ?n" using i(2) l by simp
      obtain b where b: "blocks h (arr ! unat i) = Some b" using sorted_blocks_nth [OF s i'] by blast
      have le: "block_addr h (arr ! unat i) \<le> a" using i(4) ge0 b0 by auto
      have "points_into h (set arr) a r \<longleftrightarrow> in_block a b \<and> r = arr ! unat i" for r
        by (rule points_into_index [OF s i' b le i(3)])
      with mid ge0 False \<open>arr \<noteq> []\<close> show ?thesis
        using i(1) element_nth [OF s i' b] by (auto simp: find_block_def e0 el)
    qed
  qed
qed


text \<open>For blocks sorted by address, at most \<open>2 ^ 31\<close> of them, \<open>find_block\<close>
  returns the block an address points into, if there is one, on every branch.\<close>

theorem find_block_correct:
  assumes "sorted_blocks h arr" and "length arr \<le> 2 ^ 31"
  shows "\<exists>x. find_block h arr a = Some x \<and> (\<forall>r. x = Some r \<longleftrightarrow> points_into h (set arr) a r)"
  by (rule find_block_spec [OF assms])

definition three_blocks :: block_heap where
  "three_blocks = \<lparr>blocks = [0 \<mapsto> \<lparr>b_flags = 0, b_addr = 0x10, b_size = 8, b_stack = None, b_refcount = 1\<rparr>,
      1 \<mapsto> \<lparr>b_flags = 0, b_addr = 0x40, b_size = 16, b_stack = None, b_refcount = 1\<rparr>,
      2 \<mapsto> \<lparr>b_flags = 0, b_addr = 0x80, b_size = 8, b_stack = None, b_refcount = 1\<rparr>], n_new = 3\<rparr>"

lemma three_blocks_sorted: "sorted_blocks three_blocks [0, 1, 2]"
  by (auto simp: sorted_blocks_def block_addr_def three_blocks_def)

theorem find_block_correct_witness:
  "\<exists>x. find_block three_blocks [0, 1, 2] 0x48 = Some x \<and>
     (\<forall>r. x = Some r \<longleftrightarrow> points_into three_blocks (set [0, 1, 2]) 0x48 r) \<and> x = Some 1"
proof -
  have "\<exists>x. find_block three_blocks [0, 1, 2] 0x48 = Some x \<and>
     (\<forall>r. x = Some r \<longleftrightarrow> points_into three_blocks (set [0, 1, 2]) 0x48 r)"
    by (rule find_block_correct [OF three_blocks_sorted]) simp
  moreover have "points_into three_blocks (set [0, 1, 2]) 0x48 1"
    by (auto simp: points_into_def block_addr_def three_blocks_def in_block_def)
  ultimately show ?thesis by metis
qed

section \<open>What is read of a block\<close>

definition scanned_words :: "(ptr \<Rightarrow> ptr option) \<Rightarrow> block \<Rightarrow> ptr list" where
  "scanned_words peek b = (case peek_words peek (b_addr b) (peek_count (b_size b)) of
     None \<Rightarrow> [] | Some vs \<Rightarrow> take (word_count (b_size b)) vs)"

lemma length_peek_words: "peek_words peek a n = Some vs \<Longrightarrow> length vs = n"
  by (induction peek a n arbitrary: vs rule: peek_words.induct) (auto simp: bind_eq_Some)

lemma peek_words_nth:
  "peek_words peek a n = Some vs \<longleftrightarrow> length vs = n \<and> (\<forall>k < n. peek (a + 8 * of_nat k) = Some (vs ! k))"
proof (induction n arbitrary: a vs)
  case 0
  then show ?case by auto
next
  case (Suc n)
  show ?case
  proof (cases vs)
    case (Cons v us)
    have "peek_words peek a (Suc n) = Some vs \<longleftrightarrow> peek a = Some v \<and> peek_words peek (a + 8) n = Some us"
      by (cases "peek a"; cases "peek_words peek (a + 8) n") (auto simp: Cons)
    also have "\<dots> \<longleftrightarrow> length us = n \<and> peek a = Some v \<and> (\<forall>k < n. peek (a + 8 + 8 * of_nat k) = Some (us ! k))"
      by (auto simp: Suc.IH)
    also have "\<dots> \<longleftrightarrow> length vs = Suc n \<and> (\<forall>k < Suc n. peek (a + 8 * of_nat k) = Some (vs ! k))"
      by (auto simp: Cons All_less_Suc2 algebra_simps)
    finally show ?thesis .
  qed (auto simp: bind_eq_Some)
qed

definition scannable :: "block \<Rightarrow> bool" where
  "scannable b \<longleftrightarrow> unat (b_size b) + 3 < 2 ^ 32"

lemma peek_count_eq: "unat n + 3 < 2 ^ 32 \<Longrightarrow> peek_count n = (unat n + 3) div 4"
  by (simp add: peek_count_def unat_div unat_word_ariths)

lemma word_count_le: "unat n + 3 < 2 ^ 32 \<Longrightarrow> word_count n \<le> peek_count n"
  by (simp add: peek_count_eq word_count_def)

lemma scan_block_words:
  assumes "blocks (fst hl) r = Some b" and "scannable b"
  shows "scan_block peek arr r hl = scan_block_contents arr (scanned_words peek b) hl"
  using assms word_count_le [of "b_size b"]
  by (auto simp: scan_block_def scanned_words_def scannable_def dest!: length_peek_words split: option.split)

section \<open>Scanning marks what can be reached\<close>

text \<open>
  The blocks that a word of \<open>V\<close> points into, and those the words in such a block point into,
  and so on.
\<close>

inductive_set reachable ::
    "(ptr \<Rightarrow> ptr option) \<Rightarrow> block_heap \<Rightarrow> bref set \<Rightarrow> ptr set \<Rightarrow> bref set"
  for peek h R V where
  from_root: "v \<in> V \<Longrightarrow> points_into h R v r \<Longrightarrow> r \<in> reachable peek h R V"
| from_block: "r \<in> reachable peek h R V \<Longrightarrow> blocks h r = Some b \<Longrightarrow> v \<in> set (scanned_words peek b) \<Longrightarrow>
    points_into h R v s \<Longrightarrow> s \<in> reachable peek h R V"

lemma reachable_in: "r \<in> reachable peek h R V \<Longrightarrow> r \<in> R"
  by (induction rule: reachable.induct) (auto simp: points_into_def)

text \<open>\<open>marked_as h h' R M\<close>: \<open>h'\<close> is \<open>h\<close> with the marks set in exactly the blocks \<open>M\<close> of \<open>R\<close>.\<close>

definition marked_as :: "block_heap \<Rightarrow> block_heap \<Rightarrow> bref set \<Rightarrow> bref set \<Rightarrow> bool" where
  "marked_as h h' R M \<longleftrightarrow> M \<subseteq> R \<and> h' = h\<lparr>blocks := (\<lambda>r. if r \<in> M then map_option set_mark (blocks h r) else blocks h r)\<rparr>"

definition unmarked_blocks :: "block_heap \<Rightarrow> bref set \<Rightarrow> bool" where
  "unmarked_blocks h R \<longleftrightarrow> (\<forall>r \<in> R. \<exists>b. blocks h r = Some b \<and> \<not> is_root b \<and> \<not> is_marked b)"

lemma mark_bits [simp]:
  "b_addr (set_mark b) = b_addr b" "b_size (set_mark b) = b_size b" "b_stack (set_mark b) = b_stack b"
  "b_refcount (set_mark b) = b_refcount b" "is_marked (set_mark b)" "is_root (set_mark b) \<longleftrightarrow> is_root b"
proof -
  have "and (or (b_flags b) 1) 1 = (1 :: u32)" by (simp add: bit_eq_iff bit_simps)
  then show "is_marked (set_mark b)" by (simp add: is_marked_def set_mark_def BLOCK_MARKED_def)
  have "and (or (b_flags b) 1) 2 = and (b_flags b) (2 :: u32)"
    by (rule bit_eqI) (auto simp: bit_simps)
  then show "is_root (set_mark b) \<longleftrightarrow> is_root b" by (simp add: is_root_def set_mark_def BLOCK_IS_ROOT_def BLOCK_MARKED_def)
qed (simp_all add: set_mark_def)

lemma scanned_words_mark [simp]: "scanned_words peek (set_mark b) = scanned_words peek b"
  by (simp add: scanned_words_def split: option.split)

lemma marked_as_blocks:
  "marked_as h h' R M \<Longrightarrow> blocks h' r = (if r \<in> M then map_option set_mark (blocks h r) else blocks h r)"
  by (simp add: marked_as_def)

lemma marked_as_addr: "marked_as h h' R M \<Longrightarrow> M \<subseteq> dom (blocks h) \<Longrightarrow> block_addr h' r = block_addr h r"
  by (auto simp: block_addr_def marked_as_blocks)

lemma marked_as_sorted:
  assumes "marked_as h h' R M" and "sorted_blocks h arr" and "R = set arr"
  shows "sorted_blocks h' arr"
proof -
  have "M \<subseteq> dom (blocks h)" using assms by (auto simp: marked_as_def sorted_blocks_def)
  then have "block_addr h' r = block_addr h r" for r using assms(1) by (intro marked_as_addr)
  moreover have "dom (blocks h') = dom (blocks h)" using marked_as_blocks [OF assms(1)] by (auto split: if_splits)
  ultimately show ?thesis using assms(2) by (simp add: sorted_blocks_def)
qed

lemma marked_as_points:
  assumes "marked_as h h' R M" and "R \<subseteq> dom (blocks h)"
  shows "points_into h' R a r \<longleftrightarrow> points_into h R a r"
proof -
  have "M \<subseteq> dom (blocks h)" using assms by (auto simp: marked_as_def)
  then have a: "block_addr h' s = block_addr h s" for s using assms(1) by (intro marked_as_addr)
  have "(\<exists>b. blocks h' r = Some b \<and> b_addr b \<le> a \<and> in_block a b) \<longleftrightarrow>
        (\<exists>b. blocks h r = Some b \<and> b_addr b \<le> a \<and> in_block a b)"
    by (auto simp: marked_as_blocks [OF assms(1)] in_block_def)
  with a show ?thesis by (simp add: points_into_def)
qed

text \<open>Scanning a list of words: the blocks pointed into and not yet marked are marked and pushed.\<close>

lemma scan_contents_spec:
  assumes s: "sorted_blocks h arr" and n: "length arr \<le> 2 ^ 31" and u: "unmarked_blocks h (set arr)"
  shows "marked_as h h1 (set arr) M \<Longrightarrow>
    \<exists>h2 new. scan_block_contents arr vs (h1, todo) = Some (h2, new @ todo) \<and>
      marked_as h h2 (set arr) (M \<union> set new) \<and> distinct new \<and> set new \<inter> M = {} \<and>
      set new \<subseteq> {r. \<exists>v \<in> set vs. points_into h (set arr) v r} \<and>
      {r. \<exists>v \<in> set vs. points_into h (set arr) v r} \<subseteq> M \<union> set new"
proof (induction vs arbitrary: h1 M todo)
  case Nil
  then show ?case by (intro exI [of _ h1] exI [of _ "[]"]) simp
next
  case (Cons v vs)
  have R: "set arr \<subseteq> dom (blocks h)" using s by (simp add: sorted_blocks_def)
  have s1: "sorted_blocks h1 arr" using Cons.prems s by (rule marked_as_sorted) simp
  obtain x where x: "find_block h1 arr v = Some x"
    "\<forall>r. x = Some r \<longleftrightarrow> points_into h (set arr) v r"
    using find_block_spec [OF s1 n, of v] unfolding marked_as_points [OF Cons.prems R]
    by (elim exE conjE) (rule that)
  show ?case
  proof (cases "\<exists>r. x = Some r \<and> r \<notin> M")
    case False
    then have skip: "scan_block_contents arr (v # vs) (h1, todo) = scan_block_contents arr vs (h1, todo)"
    proof (cases x)
      case (Some r)
      with False have "r \<in> M" by simp
      moreover have "r \<in> set arr" using x Some by (auto simp: points_into_def)
      ultimately obtain b where "blocks h1 r = Some (set_mark b)" "\<not> is_root b"
        using u marked_as_blocks [OF Cons.prems, of r] by (auto simp: unmarked_blocks_def)
      with Some x(1) show ?thesis by simp
    qed (simp add: x(1))
    have "{r. \<exists>v \<in> set (v # vs). points_into h (set arr) v r} \<subseteq> {r. \<exists>v \<in> set vs. points_into h (set arr) v r} \<union> M"
      using False x by auto
    then have sub: "{r. \<exists>v \<in> set (v # vs). points_into h (set arr) v r} \<subseteq> M \<union> S"
      if "{r. \<exists>v \<in> set vs. points_into h (set arr) v r} \<subseteq> M \<union> S" for S
      using that by blast
    have sup: "S \<subseteq> {r. \<exists>v \<in> set (v # vs). points_into h (set arr) v r}"
      if "S \<subseteq> {r. \<exists>v \<in> set vs. points_into h (set arr) v r}" for S
      using that by auto
    obtain h2 new where "scan_block_contents arr vs (h1, todo) = Some (h2, new @ todo)"
      "marked_as h h2 (set arr) (M \<union> set new)" "distinct new" "set new \<inter> M = {}"
      "set new \<subseteq> {r. \<exists>v \<in> set vs. points_into h (set arr) v r}"
      "{r. \<exists>v \<in> set vs. points_into h (set arr) v r} \<subseteq> M \<union> set new"
      using Cons.IH [OF Cons.prems, of todo] by blast
    with sub sup show ?thesis unfolding skip by blast
  next
    case True
    then obtain r where r: "x = Some r" "r \<notin> M" by blast
    have p: "points_into h (set arr) v r" using x r by blast
    then have ra: "r \<in> set arr" by (simp add: points_into_def)
    then obtain b where b: "blocks h r = Some b" "\<not> is_root b" "\<not> is_marked b"
      using u by (auto simp: unmarked_blocks_def)
    then have b1: "blocks h1 r = Some b" using r marked_as_blocks [OF Cons.prems, of r] by simp
    let ?h = "h1\<lparr>blocks := (blocks h1)(r \<mapsto> set_mark b)\<rparr>"
    have step: "scan_block_contents arr (v # vs) (h1, todo) = scan_block_contents arr vs (?h, r # todo)"
      using x(1) r(1) b b1 by (simp add: block_upd_def)
    have "(\<lambda>s. if s = r \<or> s \<in> M then map_option set_mark (blocks h s) else blocks h s) =
      (\<lambda>s. if s \<in> M then map_option set_mark (blocks h s) else blocks h s)(r \<mapsto> set_mark b)"
      using b by (auto simp: fun_eq_iff)
    then have m: "marked_as h ?h (set arr) (insert r M)"
      using Cons.prems ra b by (simp add: marked_as_def)
    obtain h2 new where new: "scan_block_contents arr vs (?h, r # todo) = Some (h2, new @ r # todo)"
      "marked_as h h2 (set arr) (insert r M \<union> set new)" "distinct new" "set new \<inter> insert r M = {}"
      "set new \<subseteq> {r. \<exists>v \<in> set vs. points_into h (set arr) v r}"
      "{r. \<exists>v \<in> set vs. points_into h (set arr) v r} \<subseteq> insert r M \<union> set new"
      using Cons.IH [OF m, of "r # todo"] by blast
    have only: "s = r" if "points_into h (set arr) v s" for s using that x(2) r by (metis option.inject)
    have "scan_block_contents arr (v # vs) (h1, todo) = Some (h2, (new @ [r]) @ todo)" using step new(1) by simp
    moreover have "marked_as h h2 (set arr) (M \<union> set (new @ [r]))" using new(2) by simp
    moreover have "distinct (new @ [r])" "set (new @ [r]) \<inter> M = {}" using new(3,4) r(2) by auto
    moreover have "set (new @ [r]) \<subseteq> {r. \<exists>v \<in> set (v # vs). points_into h (set arr) v r}" using new(5) p by auto
    moreover have "{r. \<exists>v \<in> set (v # vs). points_into h (set arr) v r} \<subseteq> M \<union> set (new @ [r])"
      using new(6) only by auto
    ultimately show ?thesis by blast
  qed
qed

text \<open>The words in the roots, and what a block points to.\<close>

definition root_words :: "(ptr \<Rightarrow> ptr option) \<Rightarrow> block_heap \<Rightarrow> bref set \<Rightarrow> ptr set" where
  "root_words peek h T = {v. \<exists>r \<in> T. \<exists>b. blocks h r = Some b \<and> v \<in> set (scanned_words peek b)}"

definition targets :: "(ptr \<Rightarrow> ptr option) \<Rightarrow> block_heap \<Rightarrow> bref set \<Rightarrow> bref \<Rightarrow> bref set" where
  "targets peek h R r = {s. \<exists>b. blocks h r = Some b \<and> (\<exists>v \<in> set (scanned_words peek b). points_into h R v s)}"

lemma targets_reachable:
  assumes "r \<in> T \<or> r \<in> reachable peek h R (root_words peek h T)"
  shows "targets peek h R r \<subseteq> reachable peek h R (root_words peek h T)"
  using assms by (auto simp: targets_def root_words_def intro: reachable.intros)

lemma closed_reachable:
  assumes "\<And>r. r \<in> T \<union> M \<Longrightarrow> targets peek h R r \<subseteq> M"
  shows "reachable peek h R (root_words peek h T) \<subseteq> M"
proof
  fix r assume "r \<in> reachable peek h R (root_words peek h T)"
  then show "r \<in> M"
  proof (induction rule: reachable.induct)
    case (from_root v r)
    then obtain t where "t \<in> T" "r \<in> targets peek h R t" by (auto simp: root_words_def targets_def)
    with assms show ?case by blast
  next
    case (from_block r b v s)
    then have "s \<in> targets peek h R r" by (auto simp: targets_def)
    with assms from_block.IH show ?case by blast
  qed
qed

lemma scan_block_spec:
  assumes s: "sorted_blocks h arr" and n: "length arr \<le> 2 ^ 31" and u: "unmarked_blocks h (set arr)"
    and m: "marked_as h h1 (set arr) M" and r: "blocks h r = Some b" "scannable b"
  shows "\<exists>h2 new. scan_block peek arr r (h1, todo) = Some (h2, new @ todo) \<and>
    marked_as h h2 (set arr) (M \<union> set new) \<and> distinct new \<and> set new \<inter> M = {} \<and>
    set new \<subseteq> targets peek h (set arr) r \<and> targets peek h (set arr) r \<subseteq> M \<union> set new"
proof -
  note b = r(1)
  then obtain c where c: "blocks h1 r = Some c" "scanned_words peek c = scanned_words peek b" "scannable c"
    using marked_as_blocks [OF m, of r] r(2) by (cases "r \<in> M") (simp_all add: scannable_def)
  have "targets peek h (set arr) r = {r. \<exists>v \<in> set (scanned_words peek b). points_into h (set arr) v r}"
    using b by (simp add: targets_def)
  with scan_contents_spec [OF s n u m, of "scanned_words peek b" todo] c show ?thesis
    by (simp add: scan_block_words)
qed

text \<open>The loop ends, and it has marked the blocks that can be reached from the roots \<open>T\<close>.\<close>

lemma scan_all_spec:
  assumes s: "sorted_blocks h arr" and n: "length arr \<le> 2 ^ 31" and u: "unmarked_blocks h (set arr)"
    and T: "\<forall>r \<in> T \<union> set arr. \<exists>b. blocks h r = Some b \<and> scannable b"
  shows "marked_as h h1 (set arr) M \<Longrightarrow> set todo \<subseteq> T \<union> M \<Longrightarrow>
    M \<subseteq> reachable peek h (set arr) (root_words peek h T) \<Longrightarrow>
    (\<And>r. r \<in> T \<union> M - set todo \<Longrightarrow> targets peek h (set arr) r \<subseteq> M) \<Longrightarrow>
    \<exists>h2. scan_all peek arr h1 todo = Some h2 \<and>
      marked_as h h2 (set arr) (reachable peek h (set arr) (root_words peek h T))"
proof (induction "card (set arr - M) + length todo" arbitrary: h1 M todo rule: less_induct)
  case less
  let ?R = "reachable peek h (set arr) (root_words peek h T)"
  show ?case
  proof (cases todo)
    case Nil
    have "?R \<subseteq> M" by (rule closed_reachable) (use less.prems(4) Nil in simp)
    with less.prems(1,3) have "marked_as h h1 (set arr) ?R" by (simp add: subset_antisym)
    moreover have "scan_all peek arr h1 todo = Some h1" using Nil by (subst scan_all.simps) simp
    ultimately show ?thesis by blast
  next
    case (Cons r rs)
    have M: "M \<subseteq> set arr" using less.prems(1) by (simp add: marked_as_def)
    then obtain b where r: "blocks h r = Some b" "scannable b" using less.prems(2) Cons T by fastforce
    obtain h2 new where sb: "scan_block peek arr r (h1, rs) = Some (h2, new @ rs)"
      and m2: "marked_as h h2 (set arr) (M \<union> set new)" and d: "distinct new" "set new \<inter> M = {}"
      and new: "set new \<subseteq> targets peek h (set arr) r" "targets peek h (set arr) r \<subseteq> M \<union> set new"
      using scan_block_spec [OF s n u less.prems(1) r, of peek rs] by blast
    have "set new \<subseteq> set arr" using m2 by (simp add: marked_as_def)
    then have sub: "set new \<subseteq> set arr - M" using d(2) by blast
    have "set arr - (M \<union> set new) = set arr - M - set new" by blast
    then have "card (set arr - (M \<union> set new)) = card (set arr - M) - length new"
      using sub d(1) by (simp add: card_Diff_subset distinct_card)
    moreover have "length new \<le> card (set arr - M)"
      using card_mono [OF _ sub] d(1) by (simp add: distinct_card)
    ultimately have dec: "card (set arr - (M \<union> set new)) + length (new @ rs) < card (set arr - M) + length todo"
      using Cons by simp
    have rT: "r \<in> T \<or> r \<in> ?R" using less.prems(2,3) Cons by auto
    have "\<exists>h3. scan_all peek arr h2 (new @ rs) = Some h3 \<and> marked_as h h3 (set arr) ?R"
    proof (rule less.hyps [OF dec m2])
      show "set (new @ rs) \<subseteq> T \<union> (M \<union> set new)" using less.prems(2) Cons by auto
      show "M \<union> set new \<subseteq> ?R" using less.prems(3) new(1) targets_reachable [OF rT] by blast
      show "targets peek h (set arr) q \<subseteq> M \<union> set new" if "q \<in> T \<union> (M \<union> set new) - set (new @ rs)" for q
        using that new(2) less.prems(4) [of q] Cons by (cases "q = r") auto
    qed
    moreover have "scan_all peek arr h1 todo = scan_all peek arr h2 (new @ rs)"
      using sb Cons by (subst scan_all.simps) simp
    ultimately show ?thesis by simp
  qed
qed

end
