(* ===== verification/Leakdetect_Inv.thy ===== *)
theory Leakdetect_Inv
  imports Leakdetect_Marking
begin

text \<open>
  The search for leaks as a whole: from the table of a process to the list of leaks, in the
  world, with the reference counts it leaves behind; and what it does when the maps, the memory
  of a block or the memory of the process cannot be read.
\<close>

section \<open>The steps of the search\<close>

text \<open>The block as \<open>prepare_block\<close> leaves it.\<close>

definition prepared :: "block \<Rightarrow> block" where
  "prepared b = b\<lparr>b_flags := and (b_flags b) (not BLOCK_MARKED), b_refcount := b_refcount b + 1\<rparr>"

lemma prepared_simps [simp]:
  "b_addr (prepared b) = b_addr b" "b_size (prepared b) = b_size b" "b_stack (prepared b) = b_stack b"
  "b_refcount (prepared b) = b_refcount b + 1" "\<not> is_marked (prepared b)"
  "is_root (prepared b) \<longleftrightarrow> is_root b"
proof -
  have "and (and (b_flags b) (not 1)) 1 = (0 :: u32)" by (rule bit_eqI) (auto simp: bit_simps)
  then show "\<not> is_marked (prepared b)" by (simp add: is_marked_def prepared_def BLOCK_MARKED_def)
  have "and (and (b_flags b) (not 1)) 2 = and (b_flags b) (2 :: u32)"
    by (rule bit_eqI) (auto simp: bit_simps)
  then show "is_root (prepared b) \<longleftrightarrow> is_root b"
    by (simp add: is_root_def prepared_def BLOCK_IS_ROOT_def BLOCK_MARKED_def)
qed (simp_all add: prepared_def)

lemma prepare_blocks_spec:
  assumes "distinct rs" and "\<And>r. r \<in> set rs \<Longrightarrow> \<exists>b. blocks h r = Some b \<and> \<not> is_root b"
  shows "prepare_blocks rs h =
    Some (h\<lparr>blocks := (\<lambda>r. if r \<in> set rs then map_option prepared (blocks h r) else blocks h r)\<rparr>)"
  using assms
proof (induction rs arbitrary: h)
  case Nil
  then show ?case by simp
next
  case (Cons r rs)
  then obtain b where b: "blocks h r = Some b" "\<not> is_root b" by auto
  let ?h = "h\<lparr>blocks := (blocks h)(r \<mapsto> prepared b)\<rparr>"
  have "prepare_block r h = Some ?h" using b by (simp add: prepare_block_def block_upd_def prepared_def)
  moreover have "prepare_blocks rs ?h =
    Some (?h\<lparr>blocks := (\<lambda>q. if q \<in> set rs then map_option prepared (blocks ?h q) else blocks ?h q)\<rparr>)"
    by (rule Cons.IH) (use Cons.prems in auto)
  ultimately show ?case using Cons.prems(1) b by (auto simp: fun_eq_iff)
qed

text \<open>The regions that become root blocks, as a list.\<close>

definition stack_region :: "env \<Rightarrow> (ptr \<times> ptr) list \<Rightarrow> pid \<Rightarrow> (ptr \<times> u32) list" where
  "stack_region env maps pid = (case read_proc_stat (proc_stat env pid) of None \<Rightarrow> []
     | Some (_, start_stack, end_stack) \<Rightarrow>
         (case stack_root_in start_stack end_stack maps of None \<Rightarrow> [] | Some r \<Rightarrow> [r]))"

lemma add_stack_root_region: "add_stack_root env pid maps hl = add_data_roots (stack_region env maps pid) hl"
  by (auto simp: add_stack_root_def stack_region_def split: option.split)

lemma add_data_roots_append: "add_data_roots (rs @ qs) hl = add_data_roots qs (add_data_roots rs hl)"
  by (induction rs hl rule: add_data_roots.induct) simp_all

lemma add_stack_roots_regions:
  "add_stack_roots env maps pids hl = add_data_roots (concat (map (stack_region env maps) pids)) hl"
  by (induction pids arbitrary: hl) (simp_all add: add_stack_root_region add_data_roots_append)

lemma add_data_roots_spec:
  "\<forall>r \<in> dom (blocks h). r < n_new h \<Longrightarrow>
   \<exists>h'. add_data_roots rs (h, todo) = (h', rev [n_new h ..< n_new h + length rs] @ todo) \<and>
     n_new h' = n_new h + length rs \<and>
     (\<forall>r < n_new h. blocks h' r = blocks h r) \<and>
     (\<forall>k < length rs. blocks h' (n_new h + k) = Some (root_block (fst (rs ! k)) (snd (rs ! k)))) \<and>
     (\<forall>r \<ge> n_new h + length rs. blocks h' r = None)"
proof (induction rs arbitrary: h todo)
  case Nil
  then have "blocks h r = None" if "n_new h \<le> r" for r using that by (meson domIff not_less)
  then show ?case by simp
next
  case (Cons c rs)
  obtain a n where c: "c = (a, n)" by (cases c)
  let ?h = "h\<lparr>blocks := (blocks h)(n_new h \<mapsto> root_block a n), n_new := Suc (n_new h)\<rparr>"
  have step: "add_data_roots (c # rs) (h, todo) = add_data_roots rs (?h, n_new h # todo)"
    by (simp add: c add_root_def block_new_def)
  have "\<forall>r \<in> dom (blocks ?h). r < n_new ?h" using Cons.prems by (auto simp: less_Suc_eq)
  from Cons.IH [OF this, of "n_new h # todo"] obtain h' where
    h': "add_data_roots rs (?h, n_new h # todo) = (h', rev [n_new ?h ..< n_new ?h + length rs] @ n_new h # todo)"
      "n_new h' = n_new ?h + length rs" "\<forall>r < n_new ?h. blocks h' r = blocks ?h r"
      "\<forall>k < length rs. blocks h' (n_new ?h + k) = Some (root_block (fst (rs ! k)) (snd (rs ! k)))"
      "\<forall>r \<ge> n_new ?h + length rs. blocks h' r = None"
    by (elim exE conjE) (rule that)
  have N: "n_new ?h = Suc (n_new h)" by simp
  note h' = h' [unfolded N]
  have "[n_new h ..< n_new h + length (c # rs)] = n_new h # [Suc (n_new h) ..< Suc (n_new h) + length rs]"
    by (subst upt_rec) simp
  then have "add_data_roots (c # rs) (h, todo) = (h', rev [n_new h ..< n_new h + length (c # rs)] @ todo)"
    using step h'(1) by simp
  moreover have "blocks h' (n_new h + k) = Some (root_block (fst ((c # rs) ! k)) (snd ((c # rs) ! k)))"
    if "k < length (c # rs)" for k
  proof (cases k)
    case 0
    then show ?thesis using h'(3) c by simp
  next
    case (Suc j)
    with that h'(4) show ?thesis by auto
  qed
  moreover have "blocks h' r = blocks h r" if "r < n_new h" for r using h'(3) that by simp
  ultimately show ?case using h'(2,5) by auto
qed

lemma stop_clones_log:
  "\<forall>pid \<in> set pids. wait_stopped (polls pid) \<Longrightarrow>
   stop_clones polls pids w = Some (w\<lparr>w_log := w_log w @ map Signal_Stop pids\<rparr>)"
  by (induction pids arbitrary: w) (auto simp: emit_def)

lemma continue_clones_log: "continue_clones pids w = w\<lparr>w_log := w_log w @ map Signal_Continue pids\<rparr>"
  by (induction pids arbitrary: w) (auto simp: emit_def)

text \<open>A block that stays marked loses the reference that \<open>prepare_block\<close> took.\<close>

definition settled :: "block_heap \<Rightarrow> bref \<Rightarrow> block option" where
  "settled h r = (case blocks h r of None \<Rightarrow> None
     | Some b \<Rightarrow> Some (if is_marked b then b\<lparr>b_refcount := b_refcount b - 1\<rparr> else b))"

lemma collect_leaks_spec:
  "distinct rs \<Longrightarrow> (\<And>r. r \<in> set rs \<Longrightarrow> \<exists>b. blocks h r = Some b \<and> b_refcount b \<noteq> 1) \<Longrightarrow>
   collect_leaks rs (h, acc) =
     Some (h\<lparr>blocks := (\<lambda>r. if r \<in> set rs then settled h r else blocks h r)\<rparr>,
       rev (filter (\<lambda>r. \<not> is_marked (the (blocks h r))) rs) @ acc)"
proof (induction rs arbitrary: h acc)
  case Nil
  then show ?case by simp
next
  case (Cons r rs)
  obtain b where b: "blocks h r = Some b" "b_refcount b \<noteq> 1" using Cons.prems(2) [of r] by auto
  show ?case
  proof (cases "is_marked b")
    case False
    have "collect_leaks rs (h, r # acc) = Some (h\<lparr>blocks := (\<lambda>r. if r \<in> set rs then settled h r else blocks h r)\<rparr>,
       rev (filter (\<lambda>r. \<not> is_marked (the (blocks h r))) rs) @ r # acc)"
      by (rule Cons.IH) (use Cons.prems in auto)
    moreover have "(\<lambda>q. if q \<in> set (r # rs) then settled h q else blocks h q) =
        (\<lambda>q. if q \<in> set rs then settled h q else blocks h q)"
      using b False by (auto simp: fun_eq_iff settled_def)
    ultimately show ?thesis using b False by simp
  next
    case True
    let ?h = "h\<lparr>blocks := (blocks h)(r \<mapsto> b\<lparr>b_refcount := b_refcount b - 1\<rparr>)\<rparr>"
    have u: "block_unref r h = Some ?h" using b by (simp add: block_unref_def Let_def)
    have other: "blocks ?h q = blocks h q" if "q \<in> set rs" for q using that Cons.prems(1) by auto
    have "collect_leaks rs (?h, acc) = Some (?h\<lparr>blocks := (\<lambda>r. if r \<in> set rs then settled ?h r else blocks ?h r)\<rparr>,
       rev (filter (\<lambda>r. \<not> is_marked (the (blocks ?h r))) rs) @ acc)"
      by (rule Cons.IH) (use Cons.prems other in auto)
    moreover have "filter (\<lambda>r. \<not> is_marked (the (blocks ?h r))) rs = filter (\<lambda>r. \<not> is_marked (the (blocks h r))) rs"
      using other by (intro filter_cong) auto
    moreover have "(\<lambda>q. if q \<in> set rs then settled ?h q else blocks ?h q) =
        (\<lambda>q. if q \<in> set (r # rs) then settled h q else blocks h q)"
      using b True other Cons.prems(1) by (auto simp: fun_eq_iff settled_def)
    ultimately show ?thesis using b True u by simp
  qed
qed

lemma reachable_mono:
  assumes "\<And>r. r \<in> R \<Longrightarrow> \<exists>b c. blocks h r = Some b \<and> blocks k r = Some c \<and> b_addr c = b_addr b \<and> b_size c = b_size b"
  shows "reachable peek h R V \<subseteq> reachable peek k R V"
proof
  have a: "block_addr k r = block_addr h r" if "r \<in> R" for r
    using assms [OF that] by (auto simp: block_addr_def)
  have p: "points_into k R v r" if p: "points_into h R v r" for v r
  proof -
    have r: "r \<in> R" using p by (simp add: points_into_def)
    with p assms [OF r] have "\<exists>c. blocks k r = Some c \<and> b_addr c \<le> v \<and> in_block v c"
      by (auto simp: points_into_def in_block_def)
    with p r a show ?thesis by (simp add: points_into_def)
  qed
  fix r assume "r \<in> reachable peek h R V"
  then show "r \<in> reachable peek k R V"
  proof (induction rule: reachable.induct)
    case (from_root v r)
    show ?case by (rule reachable.from_root [OF from_root(1) p [OF from_root(2)]])
  next
    case (from_block r b v s)
    have "r \<in> R" by (rule reachable_in [OF from_block.hyps(1)])
    with from_block.hyps(2) assms obtain c where c: "blocks k r = Some c" "b_addr c = b_addr b" "b_size c = b_size b"
      by fastforce
    then have "v \<in> set (scanned_words peek c)" using from_block.hyps(3) by (simp add: scanned_words_def)
    then show ?case by (rule reachable.from_block [OF from_block.IH c(1) _ p [OF from_block.hyps(4)]])
  qed
qed

lemma reachable_cong:
  assumes "\<And>r. r \<in> R \<Longrightarrow> \<exists>b c. blocks h r = Some b \<and> blocks k r = Some c \<and> b_addr c = b_addr b \<and> b_size c = b_size b"
  shows "reachable peek k R V = reachable peek h R V"
  by (intro subset_antisym reachable_mono) (use assms in fastforce)+

lemma sort_blocks_sorted:
  assumes "distinct rs" and "set rs \<subseteq> dom (blocks h)" and "inj_on (block_addr h) (set rs)"
  shows "sorted_blocks h (sort_blocks h rs)" and "distinct (sort_blocks h rs)" and "set (sort_blocks h rs) = set rs"
    and "length (sort_blocks h rs) = length rs"
proof -
  let ?xs = "sort_blocks h rs"
  have e: "?xs = sort_key (block_addr h) rs" by (simp add: sort_blocks_def block_addr_def [abs_def])
  show d: "distinct ?xs" and s: "set ?xs = set rs" and "length ?xs = length rs" using assms(1) by (simp_all add: e)
  have "distinct (map (block_addr h) ?xs)" using d s assms(3) by (simp add: distinct_map)
  moreover have "sorted (map (block_addr h) ?xs)" by (simp add: e)
  ultimately have "sorted_wrt (<) (map (block_addr h) ?xs)" by (simp add: strict_sorted_iff)
  then show "sorted_blocks h ?xs" using assms(2) s by (simp add: sorted_blocks_def sorted_wrt_map)
qed

definition region_words :: "(ptr \<Rightarrow> ptr option) \<Rightarrow> (ptr \<times> u32) list \<Rightarrow> ptr set" where
  "region_words peek rs = {v. \<exists>a n. (a, n) \<in> set rs \<and> v \<in> set (scanned_words peek (root_block a n))}"

text \<open>The search on the blocks alone, from the table's blocks to the list of leaks.\<close>

lemma search_spec:
  assumes bound: "\<forall>r \<in> dom (blocks h). r < n_new h" and d: "distinct rs" and n: "length rs \<le> 2 ^ 31"
    and live: "\<forall>r \<in> set rs. \<exists>b. blocks h r = Some b \<and> \<not> is_root b \<and> b_refcount b \<noteq> 0 \<and> scannable b"
    and regions: "\<forall>c \<in> set regions. unat (snd c) + 3 < 2 ^ 32"
    and inj: "inj_on (block_addr h) (set rs)"
  shows "\<exists>h1 h2 todo h3 h4 leaks. prepare_blocks rs h = Some h1 \<and>
    add_data_roots regions (h1, []) = (h2, todo) \<and>
    scan_all peek (sort_blocks h1 rs) h2 todo = Some h3 \<and>
    collect_leaks (sort_blocks h1 rs) (h3, []) = Some (h4, leaks) \<and>
    set leaks = set rs - reachable peek h (set rs) (region_words peek regions) \<and> distinct leaks \<and>
    sorted_wrt (\<lambda>r s. block_addr h s < block_addr h r) leaks \<and>
    n_new h4 = n_new h + length regions \<and>
    (\<forall>r < n_new h. r \<notin> set rs \<longrightarrow> blocks h4 r = blocks h r) \<and>
    (\<forall>r \<in> set rs. \<exists>b f. blocks h r = Some b \<and>
       blocks h4 r = Some (b\<lparr>b_flags := f, b_refcount := b_refcount b + (if r \<in> set leaks then 1 else 0)\<rparr>)) \<and>
    (\<forall>k < length regions. blocks h4 (n_new h + k) = Some (root_block (fst (regions ! k)) (snd (regions ! k)))) \<and>
    (\<forall>r \<ge> n_new h + length regions. blocks h4 r = None)"
proof -
  let ?h1 = "h\<lparr>blocks := (\<lambda>r. if r \<in> set rs then map_option prepared (blocks h r) else blocks h r)\<rparr>"
  let ?R = "set rs" and ?n = "n_new h" and ?m = "length regions"
  have rs: "\<exists>b. blocks h r = Some b \<and> \<not> is_root b \<and> b_refcount b \<noteq> 0 \<and> scannable b" if "r \<in> set rs" for r
    using live that by blast
  have pre: "prepare_blocks rs h = Some ?h1" by (rule prepare_blocks_spec [OF d]) (use rs in blast)
  have "\<forall>r \<in> dom (blocks ?h1). r < n_new ?h1" using bound by (force split: if_splits)
  from add_data_roots_spec [OF this, of regions "[]"] obtain h2 where
    h2: "add_data_roots regions (?h1, []) = (h2, rev [?n ..< ?n + ?m])" "n_new h2 = ?n + ?m"
      "\<forall>r < ?n. blocks h2 r = blocks ?h1 r"
      "\<forall>k < ?m. blocks h2 (?n + k) = Some (root_block (fst (regions ! k)) (snd (regions ! k)))"
      "\<forall>r \<ge> ?n + ?m. blocks h2 r = None" by auto
  have R: "r < ?n" if "r \<in> ?R" for r using rs [OF that] bound by auto
  have b2: "blocks h2 r = map_option prepared (blocks h r)" if "r \<in> ?R" for r
    using that R [OF that] h2(3) by simp
  have addr: "block_addr ?h1 r = block_addr h r" "block_addr h2 r = block_addr h r" if "r \<in> ?R" for r
    using that rs [OF that] b2 [OF that] by (auto simp: block_addr_def)
  let ?arr = "sort_blocks ?h1 rs"
  have dom1: "?R \<subseteq> dom (blocks ?h1)" using rs by fastforce
  have inj1: "inj_on (block_addr ?h1) ?R" using inj addr(1) by (simp add: inj_on_def)
  note arr = sort_blocks_sorted [OF d dom1 inj1]
  have sorted2: "sorted_blocks h2 ?arr"
    unfolding sorted_blocks_def
  proof (intro conjI)
    show "set ?arr \<subseteq> dom (blocks h2)" using arr(3) b2 rs by fastforce
    show "sorted_wrt (\<lambda>r s. block_addr h2 r < block_addr h2 s) ?arr"
      using arr(1,3) addr by (auto simp: sorted_blocks_def elim!: sorted_wrt_mono_rel [rotated])
  qed
  have un: "unmarked_blocks h2 (set ?arr)"
    unfolding unmarked_blocks_def arr(3) using b2 rs by fastforce
  let ?T = "{?n ..< ?n + ?m}"
  have T: "\<forall>r \<in> ?T \<union> set ?arr. \<exists>b. blocks h2 r = Some b \<and> scannable b"
  proof
    fix r assume "r \<in> ?T \<union> set ?arr"
    then show "\<exists>b. blocks h2 r = Some b \<and> scannable b"
    proof
      assume "r \<in> ?T"
      then have "r - ?n < ?m" "r = ?n + (r - ?n)" by auto
      with h2(4) have "blocks h2 r = Some (root_block (fst (regions ! (r - ?n))) (snd (regions ! (r - ?n))))"
        by metis
      moreover have "regions ! (r - ?n) \<in> set regions" using \<open>r - ?n < ?m\<close> by simp
      ultimately show ?thesis using regions by (simp add: scannable_def root_block_def)
    next
      assume "r \<in> set ?arr"
      then have r: "r \<in> ?R" using arr(3) by simp
      from rs [OF r] b2 [OF r] show ?thesis by (auto simp: scannable_def)
    qed
  qed
  let ?reach = "reachable peek h2 ?R (root_words peek h2 ?T)"
  have m0: "marked_as h2 h2 (set ?arr) {}" by (simp add: marked_as_def)
  obtain h3 where h3: "scan_all peek ?arr h2 (rev [?n ..< ?n + ?m]) = Some h3" "marked_as h2 h3 ?R ?reach"
    using scan_all_spec [OF sorted2 _ un T m0, of "rev [?n ..< ?n + ?m]" peek] n arr(3,4) by auto
  have words: "root_words peek h2 ?T = region_words peek regions"
  proof (rule set_eqI)
    fix v
    have "v \<in> root_words peek h2 ?T \<longleftrightarrow> (\<exists>k < ?m. \<exists>b. blocks h2 (?n + k) = Some b \<and> v \<in> set (scanned_words peek b))"
    proof -
      have "?T = (+) ?n ` {..< ?m}" by (simp add: lessThan_atLeast0 add.commute)
      then show ?thesis by (simp add: root_words_def Bex_def)
    qed
    also have "\<dots> \<longleftrightarrow> (\<exists>k < ?m. v \<in> set (scanned_words peek (root_block (fst (regions ! k)) (snd (regions ! k)))))"
      using h2(4) by auto
    also have "\<dots> \<longleftrightarrow> v \<in> region_words peek regions"
      unfolding region_words_def by (force simp: in_set_conv_nth)
    finally show "v \<in> root_words peek h2 ?T \<longleftrightarrow> v \<in> region_words peek regions" .
  qed
  have reach: "?reach = reachable peek h ?R (region_words peek regions)"
    unfolding words by (rule reachable_cong) (use b2 rs in fastforce)
  have sub: "?reach \<subseteq> ?R" by (auto dest: reachable_in)
  have b3: "blocks h3 r = (if r \<in> ?reach then map_option set_mark (blocks h2 r) else blocks h2 r)" for r
    by (rule marked_as_blocks [OF h3(2)])
  have b3R: "\<exists>b. blocks h r = Some b \<and> b_refcount b \<noteq> 0 \<and>
      blocks h3 r = Some (if r \<in> ?reach then set_mark (prepared b) else prepared b)" if "r \<in> ?R" for r
    using rs [OF that] b2 [OF that] b3 [of r] by auto
  have ref: "\<exists>b. blocks h3 r = Some b \<and> b_refcount b \<noteq> 1" if "r \<in> set ?arr" for r
    using b3R [of r] that arr(3) by auto
  let ?h4 = "h3\<lparr>blocks := (\<lambda>r. if r \<in> set ?arr then settled h3 r else blocks h3 r)\<rparr>"
  let ?leaks = "rev (filter (\<lambda>r. \<not> is_marked (the (blocks h3 r))) ?arr)"
  have col: "collect_leaks ?arr (h3, []) = Some (?h4, ?leaks)"
    using collect_leaks_spec [OF arr(2) ref, of "[]"] by simp
  have marked: "is_marked (the (blocks h3 r)) \<longleftrightarrow> r \<in> ?reach" if "r \<in> ?R" for r
    using b3R [OF that] by (cases "r \<in> ?reach") auto
  then have leaks: "set ?leaks = ?R - ?reach" using arr(3) by auto
  have desc: "sorted_wrt (\<lambda>r s. block_addr h s < block_addr h r) ?leaks"
    using arr(1,3) addr(1) by (auto simp: sorted_blocks_def sorted_wrt_rev
      intro!: sorted_wrt_filter elim!: sorted_wrt_mono_rel [rotated])
  have b4: "\<exists>b f. blocks h r = Some b \<and>
      blocks ?h4 r = Some (b\<lparr>b_flags := f, b_refcount := b_refcount b + (if r \<in> set ?leaks then 1 else 0)\<rparr>)"
    if r: "r \<in> ?R" for r
  proof -
    obtain b where b: "blocks h r = Some b"
      "blocks h3 r = Some (if r \<in> ?reach then set_mark (prepared b) else prepared b)" using b3R [OF r] by blast
    show ?thesis
    proof (cases "r \<in> ?reach")
      case True
      have "blocks ?h4 r = Some (b\<lparr>b_flags := b_flags (set_mark (prepared b)), b_refcount := b_refcount b + 0\<rparr>)"
        using r True b arr(3) by (simp add: settled_def)
      moreover have "r \<notin> set ?leaks" using True leaks by blast
      ultimately show ?thesis using b(1) by (auto simp del: set_rev set_filter)
    next
      case False
      have "blocks ?h4 r = Some (b\<lparr>b_flags := b_flags (prepared b), b_refcount := b_refcount b + 1\<rparr>)"
        using r False b arr(3) by (simp add: settled_def)
      moreover have "r \<in> set ?leaks" using False leaks r by blast
      ultimately show ?thesis using b(1) by (auto simp del: set_rev set_filter)
    qed
  qed
  have other: "blocks ?h4 r = blocks h2 r" if "r \<notin> ?R" for r using that b3 [of r] sub arr(3) by auto
  have above: "blocks ?h4 r = blocks h2 r" if "?n \<le> r" for r
  proof -
    have "r \<notin> ?R" using R [of r] that by auto
    then show ?thesis by (rule other)
  qed
  show ?thesis
  proof (intro exI conjI)
    show "prepare_blocks rs h = Some ?h1" by (rule pre)
    show "add_data_roots regions (?h1, []) = (h2, rev [?n ..< ?n + ?m])" by (rule h2(1))
    show "scan_all peek ?arr h2 (rev [?n ..< ?n + ?m]) = Some h3" by (rule h3(1))
    show "collect_leaks ?arr (h3, []) = Some (?h4, ?leaks)" by (rule col)
    show "set ?leaks = ?R - reachable peek h ?R (region_words peek regions)" using leaks unfolding reach .
    show "distinct ?leaks" using arr(2) by simp
    show "n_new ?h4 = ?n + ?m" using h2(2) h3(2) by (simp add: marked_as_def)
    show "\<forall>r < ?n. r \<notin> ?R \<longrightarrow> blocks ?h4 r = blocks h r" using other h2(3) by simp
    show "\<forall>k < ?m. blocks ?h4 (?n + k) = Some (root_block (fst (regions ! k)) (snd (regions ! k)))"
      using above h2(4) by simp
    show "\<forall>r \<ge> ?n + ?m. blocks ?h4 r = None" using above h2(5) by simp
    show "sorted_wrt (\<lambda>r s. block_addr h s < block_addr h r) ?leaks" by (rule desc)
    show "\<forall>r \<in> ?R. \<exists>b f. blocks h r = Some b \<and>
       blocks ?h4 r = Some (b\<lparr>b_flags := f, b_refcount := b_refcount b + (if r \<in> set ?leaks then 1 else 0)\<rparr>)"
      using b4 by (rule ballI)
  qed
qed

section \<open>The search in the world\<close>

definition root_regions :: "env \<Rightarrow> pid \<Rightarrow> pid list \<Rightarrow> (ptr \<times> u32) list \<Rightarrow> (ptr \<times> u32) list" where
  "root_regions env pid pids calls =
     concat (map (stack_region env (read_stack_maps env pid)) pids) @ calls"

text \<open>The blocks of a table, in the order in which its keys are visited.\<close>

lemma table_blocks:
  assumes b: "blocks_ok own t h" and e: "enumerates_tables enum"
  shows "distinct (List.map_filter t (enum t))" and "set (List.map_filter t (enum t)) = ran t"
    and "length (List.map_filter t (enum t)) = card (dom t)" and "inj_on (block_addr h) (ran t)"
proof -
  have "enumerates enum dom t" using e blocks_okD(1) [OF b] by (simp add: enumerates_tables_def)
  then have en: "distinct (enum t)" "set (enum t) = dom t" by (auto simp: enumerates_def)
  have mf: "List.map_filter t as = map (\<lambda>a. the (t a)) as" if "set as \<subseteq> dom t" for as
    using that by (induction as) (auto simp: List.map_filter_simps)
  have inj: "inj_on (\<lambda>a. the (t a)) (dom t)"
    by (rule inj_onI) (use blocks_ok_inj [OF b] in \<open>metis domD option.sel\<close>)
  show "distinct (List.map_filter t (enum t))" using en inj by (simp add: mf distinct_map)
  show "set (List.map_filter t (enum t)) = ran t" using en by (force simp: mf ran_def)
  show "length (List.map_filter t (enum t)) = card (dom t)"
    using en by (simp add: mf) (metis distinct_card)
  show "inj_on (block_addr h) (ran t)"
  proof (rule inj_onI)
    fix r s assume "r \<in> ran t" "s \<in> ran t" and eq: "block_addr h r = block_addr h s"
    then obtain a c where "t a = Some r" "t c = Some s" by (auto simp: ran_def)
    with blocks_okD(6) [OF b, of a r] blocks_okD(6) [OF b, of c s] eq show "r = s"
      by (auto simp: block_addr_def)
  qed
qed

lemma sections_frame:
  assumes "process_sections env ps = Some (p', s, calls)"
  shows "recached (fst ps) p'"
proof -
  from assms obtain q t where q: "process_read_maps env ps = Some (q, t)"
    "p' = q\<lparr>p_map_list := fst (prepare_sections env (p_map_list q))\<rparr>"
    by (cases "process_read_maps env ps") (auto simp: process_sections_def split: prod.splits)
  have "recached (fst ps) q" using process_read_maps_frame [OF q(1)] by simp
  moreover have "recached q p'" unfolding q(2) by (rule recached_upd)
  ultimately show ?thesis by (rule recached_trans)
qed

lemma pids_of_upd:
  "w_procs v = (w_procs w)(i \<mapsto> q) \<Longrightarrow> w_procs w i = Some p \<Longrightarrow> p_pid q = p_pid p \<Longrightarrow> pids_of v is = pids_of w is"
  by (induction "is") (auto simp: pids_of_def List.map_filter_simps split: option.split)

lemma pids_of_cong: "w_procs v = w_procs w \<Longrightarrow> pids_of v is = pids_of w is"
  by (simp add: pids_of_def)

text \<open>A fresh root is referenced by the list it was put on, a leak by the list of leaks.\<close>

definition leak_refs :: "(bref \<Rightarrow> nat) \<Rightarrow> bref list \<Rightarrow> nat \<Rightarrow> nat \<Rightarrow> bref \<Rightarrow> nat" where
  "leak_refs x leaks n m r = x r + (if r \<in> set leaks then 1 else 0) + (if n \<le> r \<and> r < n + m then 1 else 0)"


lemma leaks_world_ok:
  assumes w: "world_ok x w" and p: "w_procs w i = Some p" and roomy: "room (w_blocks w)"
    and same: "table q = table p" "p_bytes_used q = p_bytes_used p" "p_n_allocations q = p_n_allocations p"
    and v: "w_procs v = (w_procs w)(i \<mapsto> q)" "w_next_proc v = w_next_proc w"
    and leaks: "set leaks \<subseteq> ran (table p)" and n: "n_new (w_blocks v) = n_new (w_blocks w) + m"
    and other: "\<And>r. r < n_new (w_blocks w) \<Longrightarrow> r \<notin> ran (table p) \<Longrightarrow> blocks (w_blocks v) r = blocks (w_blocks w) r"
    and own: "\<And>r. r \<in> ran (table p) \<Longrightarrow> \<exists>b f. blocks (w_blocks w) r = Some b \<and>
       blocks (w_blocks v) r = Some (b\<lparr>b_flags := f, b_refcount := b_refcount b + (if r \<in> set leaks then 1 else 0)\<rparr>)"
    and new: "\<And>k. k < m \<Longrightarrow> \<exists>a s. blocks (w_blocks v) (n_new (w_blocks w) + k) = Some (root_block a s)"
    and above: "\<And>r. n_new (w_blocks w) + m \<le> r \<Longrightarrow> blocks (w_blocks v) r = None"
  shows "world_ok (leak_refs x leaks (n_new (w_blocks w)) m) v"
proof -
  note D = world_okD [OF w]
  let ?n = "n_new (w_blocks w)" and ?x = "leak_refs x leaks (n_new (w_blocks w)) m"
  have old: "\<exists>f. blocks (w_blocks v) r = Some (b\<lparr>b_flags := f, b_refcount := b_refcount b + (if r \<in> set leaks then 1 else 0)\<rparr>)"
    if b: "blocks (w_blocks w) r = Some b" for r b
  proof (cases "r \<in> ran (table p)")
    case True
    with own [OF True] b show ?thesis by auto
  next
    case False
    then have "r \<notin> set leaks" using leaks by blast
    then have "b\<lparr>b_flags := b_flags b, b_refcount := b_refcount b + (if r \<in> set leaks then 1 else 0)\<rparr> = b" by simp
    with other [OF D(4) [OF b] False] b show ?thesis by metis
  qed
  have holders: "holders (w_procs v) r = holders (w_procs w) r" for r
    using p same(1) by (auto simp: holders_def v(1))
  have none: "card (holders (w_procs w) r) = 0 \<and> x r = 0 \<and> r \<notin> set leaks" if "?n \<le> r" for r
  proof -
    have nb: "blocks (w_blocks w) r = None"
    proof (rule ccontr)
      assume "blocks (w_blocks w) r \<noteq> None"
      then obtain b where "blocks (w_blocks w) r = Some b" by blast
      from D(4) [OF this] that show False by simp
    qed
    then have "x r = 0" using D(3) [of r] by (meson domIff gr0I)
    moreover have nt: "r \<notin> ran (table q)" if "w_procs w j = Some q" for j q
      using D(6) [OF that] nb by (fastforce simp: table_ok_def ran_def)
    then have "holders (w_procs w) r = {}" by (auto simp: holders_def)
    moreover have "r \<notin> set leaks" using nt [OF p] leaks by blast
    ultimately show ?thesis by simp
  qed
  have tab: "table_ok (table q) (w_blocks w) \<Longrightarrow> table_ok (table q) (w_blocks v)" for q
    unfolding table_ok_def using old by fastforce
  have size: "block_size (w_blocks v) r = block_size (w_blocks w) r" if "r \<in> dom (blocks (w_blocks w))" for r
    using that old by (fastforce simp: block_size_def)
  have tot: "totals_ok q (w_blocks v)" if t: "totals_ok q (w_blocks w)" "table_ok (table q) (w_blocks w)" for q
    by (rule totals_ok_kept [OF t(1)]) (use t(2) size in \<open>fastforce simp: table_ok_def ran_def\<close>)
  show ?thesis
    unfolding world_ok_def
  proof (intro conjI allI impI ballI)
    show "finite (dom (w_procs v))" using D(1) by (simp add: v)
    show "j < w_next_proc v" if "j \<in> dom (w_procs v)" for j
      using that p D(2) [of j] D(2) [of i] by (auto simp: v split: if_splits)
    show "r \<in> dom (blocks (w_blocks v))" if "0 < ?x r" for r
    proof (cases "?n \<le> r \<and> r < ?n + m")
      case True
      then have "r - ?n < m" "r = ?n + (r - ?n)" by auto
      with new [of "r - ?n"] show ?thesis by fastforce
    next
      case False
      with that have "0 < x r \<or> r \<in> set leaks" by (auto simp: leak_refs_def split: if_splits)
      then have "r \<in> dom (blocks (w_blocks w))" using D(3) [of r] own leaks by fastforce
      with old show ?thesis by fastforce
    qed
  next
    fix r b assume b: "blocks (w_blocks v) r = Some b"
    show "r < n_new (w_blocks v)" using above [of r] b n by (cases "?n + m \<le> r") auto
    show "unat (b_refcount b) = card (holders (w_procs v) r) + ?x r"
    proof (cases "r < ?n")
      case True
      obtain c where c: "blocks (w_blocks w) r = Some c"
        using b True other [of r] own [of r] by (cases "r \<in> ran (table p)") auto
      from old [OF c] b have "b_refcount b = b_refcount c + (if r \<in> set leaks then 1 else 0)" by auto
      moreover have "b_refcount c \<noteq> - 1" using roomy c by (auto simp: room_def)
      then have "1 + b_refcount c \<noteq> 0" by (metis add.commute add_eq_0_iff)
      then have "unat (b_refcount c + 1) = unat (b_refcount c) + 1" by (simp add: unatSuc add.commute)
      ultimately have "unat (b_refcount b) = unat (b_refcount c) + (if r \<in> set leaks then 1 else 0)" by simp
      with D(5) [OF c] True show ?thesis by (simp add: holders leak_refs_def)
    next
      case False
      then have m: "r < ?n + m" using above [of r] b by (cases "?n + m \<le> r") auto
      with False have "r - ?n < m" "r = ?n + (r - ?n)" by auto
      with new [of "r - ?n"] b have "b_refcount b = 1" by (auto simp: root_block_def)
      with False m none [of r] show ?thesis by (simp add: holders leak_refs_def)
    qed
  next
    fix j q' assume q': "w_procs v j = Some q'"
    have "table_ok (table q') (w_blocks w) \<and> totals_ok q' (w_blocks w)"
    proof (cases "j = i")
      case True
      then have "q' = q" using q' v by simp
      then show ?thesis using D(6,7) [OF p] same by (simp add: totals_ok_def)
    next
      case False
      then show ?thesis using q' v D(6,7) [of j q'] by simp
    qed
    then show "table_ok (table q') (w_blocks v)" "totals_ok q' (w_blocks v)" using tab tot by blast+
  qed
qed

text \<open>A run of \<open>leaks_find\<close>, step by step.\<close>

lemma leaks_find_run:
  assumes "process_get_clones enump i w = Some clones" and "w_procs w i = Some p"
    and "stop_clones polls (pids_of w clones) (emit (Trace_Attach (p_pid p)) w) = Some w1"
    and "process_block_foreach enumb i w1 = Some (w2, rs)" and "prepare_blocks rs (w_blocks w2) = Some h"
    and "w_procs w2 i = Some p1" and "process_sections env (p1, w_inodes w2) = Some (q, s, calls)"
    and "add_data_roots calls (add_stack_roots env (read_stack_maps env (p_pid p)) (pids_of w2 clones) (h, [])) = (h2, todo)"
    and "scan_all peek (sort_blocks h rs) h2 todo = Some h3"
    and "collect_leaks (sort_blocks h rs) (h3, []) = Some (h4, leaks)"
    and "w3 = put i q (w2\<lparr>w_blocks := h4, w_inodes := s\<rparr>)"
  shows "leaks_find env enumb enump polls True peek i w =
    Some (w3\<lparr>w_log := w_log w3 @ Close_Memory # map Signal_Continue (pids_of w3 clones) @
      [Close_Memory, Trace_Detach (p_pid q)]\<rparr>, leaks)"
  using assms by (simp add: leaks_find_def Let_def emit_def continue_clones_log pids_of_def)

lemma leaks_find_spec:
  assumes w: "world_ok x w" and p: "w_procs w i = Some p" and roomy: "room (w_blocks w)"
    and e: "enumerates_tables enumb" and n: "card (dom (table p)) \<le> 2 ^ 31"
    and nr: "\<forall>r \<in> ran (table p). \<forall>b. blocks (w_blocks w) r = Some b \<longrightarrow> \<not> is_root b \<and> scannable b"
    and clones: "process_get_clones enump i w = Some clones"
    and stop: "\<forall>pid \<in> set (pids_of w clones). wait_stopped (polls pid)"
    and sections: "process_sections env (fst (get_block_table p), w_inodes w) = Some (q, s, calls)"
    and regions: "regions = root_regions env (p_pid p) (pids_of w clones) calls"
    and small: "\<forall>c \<in> set regions. unat (snd c) + 3 < 2 ^ 32"
  shows "\<exists>w' leaks. leaks_find env enumb enump polls True peek i w = Some (w', leaks) \<and>
    set leaks = ran (table p) - reachable peek (w_blocks w) (ran (table p)) (region_words peek regions) \<and>
    distinct leaks \<and> sorted_wrt (\<lambda>r s. block_addr (w_blocks w) s < block_addr (w_blocks w) r) leaks \<and>
    world_ok (leak_refs x leaks (n_new (w_blocks w)) (length regions)) w' \<and>
    w_log w' = w_log w @ Trace_Attach (p_pid p) # map Signal_Stop (pids_of w clones) @ Close_Memory #
      map Signal_Continue (pids_of w clones) @ [Close_Memory, Trace_Detach (p_pid p)]"
proof -
  let ?R = "ran (table p)" and ?h = "w_blocks w" and ?pids = "pids_of w clones"
  have b: "blocks_ok (others x (w_procs w) i) (table p) ?h" by (rule process_blocks_ok [OF w p])
  let ?rs = "List.map_filter (table p) (enumb (table p))"
  note rs = table_blocks [OF b e]
  obtain p1 where g: "get_block_table p = (p1, table p)" and tab1: "table p1 = table p"
    and p1: "p1 = p\<lparr>p_block_table := Some (table p)\<rparr>"
    by (cases "get_block_table p") (metis get_block_table_spec)
  have pid1: "p_pid p1 = p_pid p" by (simp add: p1)
  have blocks: "\<exists>c. blocks ?h r = Some c \<and> \<not> is_root c \<and> b_refcount c \<noteq> 0 \<and> scannable c" if r: "r \<in> ?R" for r
  proof -
    obtain c where c: "blocks ?h r = Some c" using blocks_okD(2) [OF b r] by blast
    have "unat (b_refcount c) \<noteq> 0" using blocks_okD(5) [OF b c] r by simp
    then show ?thesis using c nr r by auto
  qed
  have bound: "\<forall>r \<in> dom (blocks ?h). r < n_new ?h" using blocks_okD(4) [OF b] by auto
  have n': "length ?rs \<le> 2 ^ 31" using rs(3) n by simp
  have live: "\<forall>r \<in> set ?rs. \<exists>b. blocks ?h r = Some b \<and> \<not> is_root b \<and> b_refcount b \<noteq> 0 \<and> scannable b"
    unfolding rs(2) using blocks by (rule ballI)
  have inj: "inj_on (block_addr ?h) (set ?rs)" using rs(2,4) by simp
  obtain h1 h2 todo h3 h4 leaks where h: "prepare_blocks ?rs ?h = Some h1"
    "add_data_roots regions (h1, []) = (h2, todo)" "scan_all peek (sort_blocks h1 ?rs) h2 todo = Some h3"
    "collect_leaks (sort_blocks h1 ?rs) (h3, []) = Some (h4, leaks)"
    and leaks: "set leaks = ?R - reachable peek ?h ?R (region_words peek regions)" "distinct leaks"
      "sorted_wrt (\<lambda>r s. block_addr ?h s < block_addr ?h r) leaks"
    and h4: "n_new h4 = n_new ?h + length regions" "\<forall>r < n_new ?h. r \<notin> ?R \<longrightarrow> blocks h4 r = blocks ?h r"
      "\<forall>r \<in> ?R. \<exists>b f. blocks ?h r = Some b \<and>
         blocks h4 r = Some (b\<lparr>b_flags := f, b_refcount := b_refcount b + (if r \<in> set leaks then 1 else 0)\<rparr>)"
      "\<forall>k < length regions. blocks h4 (n_new ?h + k) = Some (root_block (fst (regions ! k)) (snd (regions ! k)))"
      "\<forall>r \<ge> n_new ?h + length regions. blocks h4 r = None"
    using search_spec [OF bound rs(1) n' live small inj, of peek] unfolding rs(2)
    by (elim exE conjE) (rule that)
  have roots: "add_data_roots calls (add_stack_roots env (read_stack_maps env (p_pid p)) ?pids (h1, [])) = (h2, todo)"
    using h(2) by (simp add: add_stack_roots_regions regions root_regions_def add_data_roots_append)
  have q: "recached p1 q" using sections_frame [OF sections] g by simp
  note fr = recached_frame [OF q]
  have qp: "p_pid q = p_pid p" using fr pid1 by simp
  let ?w1 = "w\<lparr>w_log := (w_log w @ [Trace_Attach (p_pid p)]) @ map Signal_Stop ?pids\<rparr>"
  let ?w2 = "put i p1 ?w1"
  let ?w3 = "put i q (?w2\<lparr>w_blocks := h4, w_inodes := s\<rparr>)"
  have st: "stop_clones polls ?pids (emit (Trace_Attach (p_pid p)) w) = Some ?w1"
    using stop_clones_log [OF stop] by (simp add: emit_def)
  have each: "process_block_foreach enumb i ?w1 = Some (?w2, ?rs)"
    using p g by (simp add: process_block_foreach_def)
  have pids: "pids_of ?w1 clones = ?pids" "pids_of ?w2 clones = ?pids" "pids_of ?w3 clones = ?pids"
    using p pid1 qp by (auto simp: put_def intro: pids_of_cong pids_of_upd)
  let ?w4 = "?w3\<lparr>w_log := w_log w @ Trace_Attach (p_pid p) # map Signal_Stop ?pids @ Close_Memory #
      map Signal_Continue ?pids @ [Close_Memory, Trace_Detach (p_pid p)]\<rparr>"
  have p2: "w_procs ?w2 i = Some p1" and inodes2: "w_inodes ?w2 = w_inodes w" and blocks2: "w_blocks ?w2 = ?h"
    by (simp_all add: put_def)
  have "leaks_find env enumb enump polls True peek i w =
    Some (?w3\<lparr>w_log := w_log ?w3 @ Close_Memory # map Signal_Continue (pids_of ?w3 clones) @
      [Close_Memory, Trace_Detach (p_pid q)]\<rparr>, leaks)"
  proof (rule leaks_find_run [OF clones p st each])
    show "prepare_blocks ?rs (w_blocks ?w2) = Some h1" using h(1) unfolding blocks2 .
    show "process_sections env (p1, w_inodes ?w2) = Some (q, s, calls)" using sections g unfolding inodes2 by simp
    show "add_data_roots calls (add_stack_roots env (read_stack_maps env (p_pid p)) (pids_of ?w2 clones) (h1, [])) = (h2, todo)"
      using roots unfolding pids .
  qed (rule p2 h refl)+
  moreover have "?w3\<lparr>w_log := w_log ?w3 @ Close_Memory # map Signal_Continue (pids_of ?w3 clones) @
      [Close_Memory, Trace_Detach (p_pid q)]\<rparr> = ?w4"
    unfolding pids(3) qp by (simp add: put_def)
  ultimately have run: "leaks_find env enumb enump polls True peek i w = Some (?w4, leaks)" by simp
  have new: "\<exists>a s. blocks h4 (n_new ?h + k) = Some (root_block a s)" if "k < length regions" for k
    using h4(4) that by blast
  have ok: "world_ok (leak_refs x leaks (n_new ?h) (length regions)) ?w4"
  proof (rule leaks_world_ok [OF w p roomy, where q = q])
    show "table q = table p" using tab1 fr by (simp add: table_def)
    show "p_bytes_used q = p_bytes_used p" "p_n_allocations q = p_n_allocations p" using fr by (simp_all add: p1)
    show "set leaks \<subseteq> ?R" using leaks(1) by blast
  qed (use h4 new in \<open>simp_all add: put_def\<close>)
  have "w_log ?w4 = w_log w @ Trace_Attach (p_pid p) # map Signal_Stop ?pids @ Close_Memory #
      map Signal_Continue ?pids @ [Close_Memory, Trace_Detach (p_pid p)]" by simp
  with run leaks ok show ?thesis by blast
qed

section \<open>The status of a process\<close>

lemma read_proc_stat_None [simp]: "read_proc_stat None = None"
  by (simp add: read_proc_stat_def)

text \<open>A line of \<open>/proc/PID/stat\<close> as the kernel prints it; \<open>ns\<close> are the fields from the fourth on.\<close>

fun stat_numbers :: "int list \<Rightarrow> string" where
  "stat_numbers [] = [CHR 0x0A]"
| "stat_numbers (n # ns) = CHR '' '' # signed_numeral n @ stat_numbers ns"

definition stat_line :: "int \<Rightarrow> string \<Rightarrow> char \<Rightarrow> int list \<Rightarrow> string" where
  "stat_line pid comm c ns = signed_numeral pid @ CHR '' '' # comm @ CHR '' '' # c # stat_numbers ns"

lemma stat_numbers_head: "\<exists>c s. stat_numbers ns = c # s \<and> \<not> is_digit 10 c"
  by (cases ns) (auto simp: is_digit_def digit_of_def)

lemma scan_signed_stat: "scan_signed (stat_numbers (n # ns)) = Some (n, stat_numbers ns)"
proof -
  obtain c s where c: "stat_numbers ns = c # s" "\<not> is_digit 10 c" using stat_numbers_head by blast
  have "list_all is_space [CHR '' '']" by (simp add: is_space_def)
  from scan_signed_numeral [OF c(2) this, of n s] c(1) show ?thesis by simp
qed

lemma scan_skip_numbers:
  "k \<le> length ns \<Longrightarrow> scan_fields (replicate k Skip_Number @ cs) (stat_numbers ns) =
     scan_fields cs (stat_numbers (drop k ns))"
proof (induction k arbitrary: ns)
  case 0
  then show ?case by simp
next
  case (Suc k)
  then obtain m ms where ns: "ns = m # ms" by (cases ns) auto
  with Suc show ?case by (simp add: scan_signed_stat del: stat_numbers.simps)
qed

lemma scan_skip_nothing: "scan_fields (replicate k Skip_Number) s = []"
  by (induction k arbitrary: s) (auto split: option.split)

lemma scan_stat_start:
  "scan_fields (Skip_Number # cs) (stat_line pid comm c ns) =
     scan_fields cs (CHR '' '' # comm @ CHR '' '' # c # stat_numbers ns)"
proof -
  have "\<not> is_digit 10 CHR '' ''" by (simp add: is_digit_def digit_of_def)
  from scan_signed_numeral [OF this, of "[]" pid] show ?thesis by (simp add: stat_line_def)
qed

lemma scan_skip_word:
  assumes "w \<noteq> []" and "list_all (\<lambda>c. \<not> is_space c) w"
  shows "scan_fields (Skip_Word # cs) (CHR '' '' # w @ CHR '' '' # s) = scan_fields cs (CHR '' '' # s)"
proof -
  have sp: "is_space CHR '' ''" by (simp add: is_space_def)
  obtain x xs where w: "w = x # xs" "\<not> is_space x" using assms by (cases w) auto
  have t: "takeWhile (\<lambda>c. \<not> is_space c) (w @ CHR '' '' # s) = w"
    using assms(2) sp by (induction w) auto
  have "scan_word (length (CHR '' '' # w @ CHR '' '' # s)) (CHR '' '' # w @ CHR '' '' # s) = Some (w, CHR '' '' # s)"
    using t w sp by (simp add: scan_word_def)
  then show ?thesis by (simp only: scan_fields.simps option.simps prod.case)
qed

lemma scan_letter: "\<not> is_space c \<Longrightarrow> scan_fields (Letter # cs) (CHR '' '' # c # s) = Letter_Value c # scan_fields cs s"
  by (simp add: is_space_def)

text \<open>
  Property C22: for a status line of the kernel whose command name holds no white space,
  \<open>read_proc_stat\<close> returns the state and the fields 28 and 29, the start of the stack and the
  stack pointer. With a blank in the name it fails when the blank is followed by a word of two
  letters or more, and the process counts as stopped, whatever its state is.
\<close>

theorem read_proc_stat_fields:
  shows "comm \<noteq> [] \<Longrightarrow> list_all (\<lambda>c. \<not> is_space c) comm \<Longrightarrow> \<not> is_space c \<Longrightarrow> 26 \<le> length ns \<Longrightarrow>
      0 \<le> ns ! 24 \<Longrightarrow> ns ! 24 < 2 ^ 64 \<Longrightarrow> 0 \<le> ns ! 25 \<Longrightarrow> ns ! 25 < 2 ^ 64 \<Longrightarrow>
      read_proc_stat (Some (stat_line pid comm c ns)) = Some (c, of_int (ns ! 24), of_int (ns ! 25)) \<and>
      (u \<noteq> [] \<and> list_all (\<lambda>c. \<not> is_space c) u \<and> \<not> is_space x \<and> \<not> is_space y \<and>
       \<not> is_digit 10 y \<and> y \<notin> {CHR ''-'', CHR ''+''} \<longrightarrow>
         read_proc_stat (Some (stat_line pid (u @ CHR '' '' # x # y # v) c ns)) = None \<and>
         wait_stopped (Some (stat_line pid (u @ CHR '' '' # x # y # v) c ns) # files))"
proof (intro conjI impI)
  assume w: "comm \<noteq> []" "list_all (\<lambda>c. \<not> is_space c) comm" and c: "\<not> is_space c" and n: "26 \<le> length ns"
    and r: "0 \<le> ns ! 24" "ns ! 24 < 2 ^ 64" "0 \<le> ns ! 25" "ns ! 25 < 2 ^ 64"
  have d: "drop 24 ns = ns ! 24 # ns ! 25 # drop 26 ns"
    using n by (simp add: Cons_nth_drop_Suc [symmetric] Suc_le_eq)
  have "scan_fields stat_format (stat_line pid comm c ns) =
      Letter_Value c # scan_fields (replicate 24 Skip_Number @ Number # Number # replicate 8 Skip_Number) (stat_numbers ns)"
    unfolding stat_format_def append.simps scan_stat_start scan_skip_word [OF w] scan_letter [OF c] ..
  also have "scan_fields (replicate 24 Skip_Number @ Number # Number # replicate 8 Skip_Number) (stat_numbers ns) =
      scan_fields (Number # Number # replicate 8 Skip_Number) (stat_numbers (ns ! 24 # ns ! 25 # drop 26 ns))"
    using scan_skip_numbers [of 24 ns "Number # Number # replicate 8 Skip_Number"] n unfolding d by simp
  also have "\<dots> = [Number_Value (of_int (ns ! 24)), Number_Value (of_int (ns ! 25))]"
    using r by (simp only: scan_fields.simps scan_signed_stat option.simps prod.case scan_skip_nothing)
      (simp add: ulong_def)
  finally show "read_proc_stat (Some (stat_line pid comm c ns)) = Some (c, of_int (ns ! 24), of_int (ns ! 25))"
    by (simp add: read_proc_stat_def)
next
  assume u: "u \<noteq> [] \<and> list_all (\<lambda>c. \<not> is_space c) u \<and> \<not> is_space x \<and> \<not> is_space y \<and>
       \<not> is_digit 10 y \<and> y \<notin> {CHR ''-'', CHR ''+''}"
  let ?s = "x # y # v @ CHR '' '' # c # stat_numbers ns"
  have line: "stat_line pid (u @ CHR '' '' # x # y # v) c ns = signed_numeral pid @ CHR '' '' # u @ CHR '' '' # ?s"
    by (simp add: stat_line_def)
  have "scan_fields stat_format (stat_line pid (u @ CHR '' '' # x # y # v) c ns) =
      scan_fields (Letter # replicate 24 Skip_Number @ [Number, Number] @ replicate 8 Skip_Number) (CHR '' '' # ?s)"
    unfolding stat_format_def append.simps scan_stat_start
    using scan_skip_word [of u _ ?s] u by simp
  also have "\<dots> = Letter_Value x # scan_fields (replicate 24 Skip_Number @ [Number, Number] @ replicate 8 Skip_Number)
      (y # v @ CHR '' '' # c # stat_numbers ns)"
    using u by (simp add: is_space_def)
  also have "\<dots> = [Letter_Value x]"
    using u by (simp add: scan_signed_def scan_number_def numeral_eq_Suc)
  finally show none: "read_proc_stat (Some (stat_line pid (u @ CHR '' '' # x # y # v) c ns)) = None"
    by (simp add: read_proc_stat_def)
  then show "wait_stopped (Some (stat_line pid (u @ CHR '' '' # x # y # v) c ns) # files)"
    by (simp add: stat_status_def)
qed

definition sample_stat :: string where
  "sample_stat = stat_line 7 ''(prog)'' CHR ''S''
     ([1, 7, 7, 0, -1] @ replicate 19 0 @ [0x7ffeff0, 0x7ffe800, 0])"

theorem read_proc_stat_fields_witness:
  "read_proc_stat (Some sample_stat) = Some (CHR ''S'', 0x7ffeff0, 0x7ffe800) \<and>
   wait_stopped [Some (stat_line 7 ''(Web Content)'' CHR ''S''
     ([1, 7, 7, 0, -1] @ replicate 19 0 @ [0x7ffeff0, 0x7ffe800, 0]))]"
proof -
  let ?ns = "[1, 7, 7, 0, -1] @ replicate 19 0 @ [0x7ffeff0, 0x7ffe800, 0 :: int]"
  have ns: "26 \<le> length ?ns" "?ns ! 24 = 0x7ffeff0" "?ns ! 25 = 0x7ffe800"
    by (simp_all add: nth_append)
  have name: "''(prog)'' \<noteq> []" "list_all (\<lambda>c. \<not> is_space c) ''(prog)''" "\<not> is_space CHR ''S''"
    "list_all (\<lambda>c. \<not> is_space c) ''(Web''" "\<not> is_space CHR ''C''" "\<not> is_space CHR ''o''"
    "\<not> is_digit 10 CHR ''o''"
    by (simp_all add: is_space_def is_digit_def digit_of_def)
  note fields = read_proc_stat_fields [OF name(1,2,3) ns(1), unfolded ns(2,3)]
  have "read_proc_stat (Some (stat_line 7 ''(prog)'' CHR ''S'' ?ns)) = Some (CHR ''S'', 0x7ffeff0, 0x7ffe800)"
    using fields [of 7 "''(prog)''" "CHR ''C''" "CHR ''o''" "[]" "[]"] by simp
  moreover have "wait_stopped (Some (stat_line 7 (''(Web'' @ CHR '' '' # CHR ''C'' # CHR ''o'' # ''ntent)'') CHR ''S'' ?ns) # [])"
    using fields [of 7 "''(Web''" "CHR ''C''" "CHR ''o''" "''ntent)''" "[]"] name by simp
  ultimately show ?thesis by (simp add: sample_stat_def)
qed

section \<open>Properties\<close>

text \<open>
  Property C4: the blocks the leak detector reports are exactly the live blocks that no chain of
  words leads to from the stacks and the data sections, each once, the highest address first.
  The search returns, every reference count is right afterwards (a reported block has one
  reference more, each root block keeps the one it was made with), and the threads are
  continued and the process detached.
\<close>

theorem leaks_are_unreachable:
  assumes "world_ok x w" and "w_procs w i = Some p" and "room (w_blocks w)"
    and "enumerates_tables enumb" and "card (dom (table p)) \<le> 2 ^ 31"
    and "\<forall>r \<in> ran (table p). \<forall>b. blocks (w_blocks w) r = Some b \<longrightarrow> \<not> is_root b \<and> scannable b"
    and "process_get_clones enump i w = Some clones"
    and "\<forall>pid \<in> set (pids_of w clones). wait_stopped (polls pid)"
    and "process_sections env (fst (get_block_table p), w_inodes w) = Some (q, s, calls)"
    and "regions = root_regions env (p_pid p) (pids_of w clones) calls"
    and "\<forall>c \<in> set regions. unat (snd c) + 3 < 2 ^ 32"
  shows "\<exists>w' leaks. leaks_find env enumb enump polls True peek i w = Some (w', leaks) \<and>
    set leaks = ran (table p) - reachable peek (w_blocks w) (ran (table p)) (region_words peek regions) \<and>
    distinct leaks \<and> sorted_wrt (\<lambda>r s. block_addr (w_blocks w) s < block_addr (w_blocks w) r) leaks \<and>
    world_ok (leak_refs x leaks (n_new (w_blocks w)) (length regions)) w' \<and>
    w_log w' = w_log w @ Trace_Attach (p_pid p) # map Signal_Stop (pids_of w clones) @ Close_Memory #
      map Signal_Continue (pids_of w clones) @ [Close_Memory, Trace_Detach (p_pid p)]"
  by (rule leaks_find_spec [OF assms])

text \<open>
  An instance: a data section holds a pointer into the middle of the block at \<open>0x10\<close>, which
  points to the block at \<open>0x20\<close>; the block at \<open>0x40\<close> only points to itself.
\<close>

definition leaky_process :: mp_process where
  "leaky_process = (running_process 7)\<lparr>p_block_table := Some [0x10 \<mapsto> 0, 0x20 \<mapsto> 1, 0x40 \<mapsto> 2],
     p_bytes_used := 24, p_n_allocations := 3\<rparr>"

definition leaky_block :: "ptr \<Rightarrow> block" where
  "leaky_block a = \<lparr>b_flags = 0, b_addr = a, b_size = 8, b_stack = None, b_refcount = 1\<rparr>"

definition leaky_world :: world where
  "leaky_world = (initial_world (\<lambda>_. demo_node) True False)\<lparr>
     w_procs := [0 \<mapsto> leaky_process], w_next_proc := 1,
     w_blocks := \<lparr>blocks = [0 \<mapsto> leaky_block 0x10, 1 \<mapsto> leaky_block 0x20, 2 \<mapsto> leaky_block 0x40], n_new = 3\<rparr>,
     w_pid_table := Some [7 \<mapsto> 0]\<rparr>"

definition leaky_peek :: "ptr \<Rightarrow> ptr option" where
  "leaky_peek a = Some (if a = 0x1000 then 0x14 else if a = 0x10 then 0x20 else if a = 0x40 then 0x40 else 0)"

definition leaky_env :: env where
  "leaky_env = prog_env\<lparr>map_sections := (\<lambda>_. [(0x1000, 8)])\<rparr>"

lemma leaky_table: "table leaky_process = [0x10 \<mapsto> 0, 0x20 \<mapsto> 1, 0x40 \<mapsto> 2]"
  by (simp add: leaky_process_def table_def)

lemma leaky_ran: "ran (table leaky_process) = {0, 1, 2}"
  by (auto simp: leaky_table)

lemma leaky_fields:
  "w_procs leaky_world = [0 \<mapsto> leaky_process]" "w_next_proc leaky_world = 1"
  "w_blocks leaky_world = \<lparr>blocks = [0 \<mapsto> leaky_block 0x10, 1 \<mapsto> leaky_block 0x20, 2 \<mapsto> leaky_block 0x40], n_new = 3\<rparr>"
  "w_pid_table leaky_world = Some [7 \<mapsto> 0]"
  by (simp_all add: leaky_world_def)

lemma leaky_world_ok: "world_ok (\<lambda>r. 0) leaky_world"
proof -
  have h: "holders (w_procs leaky_world) r = (if r \<in> {0, 1, 2} then {0} else {})" for r
    by (auto simp: holders_def leaky_fields leaky_ran)
  show ?thesis
    using h by (auto simp: world_ok_def table_ok_def totals_ok_def leaky_table block_size_def leaky_fields
        leaky_block_def split: if_splits) (simp_all add: leaky_process_def)
qed

lemma leaky_clones: "process_get_clones (\<lambda>_. [7]) 0 leaky_world = Some [0]"
proof -
  have "clone_root (w_procs leaky_world) 0 = Some 0"
    by (subst clone_root.simps) (simp add: leaky_fields leaky_process_def running_process_def)
  then show ?thesis
    by (simp add: process_get_clones_def mp_server_get_process_clones_def leaky_fields List.map_filter_simps)
qed

lemma leaky_sections:
  "\<exists>q s. process_sections leaky_env (fst (get_block_table leaky_process), w_inodes leaky_world) =
     Some (q, s, [(0x1000, 8)])"
  by (simp add: process_sections_def process_read_maps_def leaky_env_def prog_env_def prog_line get_block_table_def
      leaky_process_def running_process_def read_map_line_def lib_env_def leaky_world_def initial_world_def
      Let_def split: prod.split)

lemma counts_8: "peek_count 8 = Suc (Suc 0)" "word_count 8 = Suc 0"
  by (simp_all add: peek_count_eq word_count_def)

lemma leaky_words:
  "region_words leaky_peek [(0x1000, 8)] = {0x14}"
  "scanned_words leaky_peek (leaky_block 0x10) = [0x20]"
  "scanned_words leaky_peek (leaky_block 0x20) = [0]"
  "scanned_words leaky_peek (leaky_block 0x40) = [0x40]"
  by (simp_all add: region_words_def scanned_words_def leaky_block_def root_block_def counts_8 leaky_peek_def)

lemma leaky_points:
  "points_into (w_blocks leaky_world) {0, 1, 2} 0x14 r \<longleftrightarrow> r = 0"
  "points_into (w_blocks leaky_world) {0, 1, 2} 0x20 r \<longleftrightarrow> r = 1"
  "\<not> points_into (w_blocks leaky_world) {0, 1, 2} 0 r"
  by (auto simp: points_into_def leaky_fields leaky_block_def in_block_def block_addr_def)

lemma leaky_reachable: "reachable leaky_peek (w_blocks leaky_world) {0, 1, 2} {0x14} = {0, 1}"
proof
  show "reachable leaky_peek (w_blocks leaky_world) {0, 1, 2} {0x14} \<subseteq> {0, 1}"
  proof
    fix r assume "r \<in> reachable leaky_peek (w_blocks leaky_world) {0, 1, 2} {0x14}"
    then show "r \<in> {0, 1}"
    proof (induction rule: reachable.induct)
      case (from_root v r)
      then show ?case using leaky_points(1) [of r] by simp
    next
      case (from_block r b v s)
      then have "r = 0 \<or> r = 1" by simp
      then show ?case
        using from_block leaky_points(2,3) [of s] by (auto simp: leaky_fields leaky_words)
    qed
  qed
  have r0: "0 \<in> reachable leaky_peek (w_blocks leaky_world) {0, 1, 2} {0x14}"
    by (rule reachable.from_root [of "0x14"]) (simp, simp only: leaky_points)
  have "1 \<in> reachable leaky_peek (w_blocks leaky_world) {0, 1, 2} {0x14}"
    by (rule reachable.from_block [OF r0, of "leaky_block 0x10" "0x20"])
      (simp add: leaky_fields, simp add: leaky_words, simp only: leaky_points)
  with r0 show "{0, 1} \<subseteq> reachable leaky_peek (w_blocks leaky_world) {0, 1, 2} {0x14}" by simp
qed

theorem leaks_are_unreachable_witness:
  "\<exists>w'. leaks_find leaky_env by_address (\<lambda>_. [7]) (\<lambda>_. [None]) True leaky_peek 0 leaky_world = Some (w', [2]) \<and>
     world_ok (leak_refs (\<lambda>r. 0) [2] 3 1) w'"
proof -
  obtain q s where sec: "process_sections leaky_env (fst (get_block_table leaky_process), w_inodes leaky_world) =
     Some (q, s, [(0x1000, 8)])" using leaky_sections by blast
  have roomy: "room (w_blocks leaky_world)" by (simp add: room_def leaky_fields leaky_block_def)
  have p: "w_procs leaky_world 0 = Some leaky_process" by (simp add: leaky_fields)
  have n: "card (dom (table leaky_process)) \<le> 2 ^ 31" by (simp add: leaky_table)
  have bl: "\<forall>r \<in> ran (table leaky_process). \<forall>b. blocks (w_blocks leaky_world) r = Some b \<longrightarrow>
      \<not> is_root b \<and> scannable b"
    unfolding leaky_ran by (simp add: leaky_fields leaky_block_def is_root_def scannable_def)
  have stop: "\<forall>pid \<in> set (pids_of leaky_world [0]). wait_stopped [None]" by (simp add: stat_status_def)
  have regions: "[(0x1000, 8)] = root_regions leaky_env (p_pid leaky_process) (pids_of leaky_world [0]) [(0x1000, 8)]"
    by (simp add: root_regions_def pids_of_def List.map_filter_simps leaky_fields stack_region_def leaky_env_def
        prog_env_def lib_env_def)
  from leaks_are_unreachable [OF leaky_world_ok p roomy by_address_enumerates n bl leaky_clones stop sec regions,
      of leaky_peek]
  obtain w' leaks where run: "leaks_find leaky_env by_address (\<lambda>_. [7]) (\<lambda>_. [None]) True leaky_peek 0 leaky_world = Some (w', leaks)"
    and set: "set leaks = ran (table leaky_process) - reachable leaky_peek (w_blocks leaky_world) (ran (table leaky_process))
      (region_words leaky_peek [(0x1000, 8)])" and d: "distinct leaks"
    and ok: "world_ok (leak_refs (\<lambda>r. 0) leaks (n_new (w_blocks leaky_world)) (length [(0x1000 :: ptr, 8 :: u32)])) w'"
    by auto
  have "set leaks = {2}" unfolding set leaky_ran leaky_words leaky_reachable by auto
  with d have "leaks = [2]"
    by (metis distinct.simps(2) insert_iff list.exhaust list.set_intros(1) list.simps(15) set_empty singletonD)
  with run ok show ?thesis by (auto simp: leaky_fields)
qed

lemma parse_bad_address:
  assumes "list_all (is_digit b) ds" and "\<not> is_digit b c" and "c \<noteq> CHR ''-''" and "\<not> is_space c"
  shows "ml_count (parse_maps_line b d (ds @ c # s)) \<le> 1"
proof (cases "ds = []")
  case True
  with assms(2,4) show ?thesis by (simp add: parse_maps_line_def scan_number_def no_line_def)
next
  case False
  from parse_wrong_literal [OF assms(1) False assms(2,3)] show ?thesis by simp
qed

lemma stack_map_lines_none: "\<forall>l \<in> set ls. ml_count l < 6 \<Longrightarrow> stack_map_lines ls acc = acc"
  by (induction ls arbitrary: acc) auto

definition hex_address :: "string \<Rightarrow> bool" where
  "hex_address l \<longleftrightarrow>
     (\<exists>ds c s. l = ds @ c # s \<and> list_all (is_digit 10) ds \<and> c \<in> set ''abcdef'')"

text \<open>
  Property C23: \<open>read_stack_maps\<close> scans the hexadecimal addresses of \<open>/proc/PID/maps\<close> with a
  conversion for decimal numbers. When the first address of every line has a hexadecimal letter
  (as the addresses of stacks on x86 have), it finds no map at all, whatever the permissions
  say, and no stack becomes a root.
\<close>

theorem hex_stack_maps_skipped:
  assumes "proc_maps env pid = Some ls"
    and "\<forall>l \<in> set ls. hex_address l"
  shows "read_stack_maps env pid = [] \<and> add_stack_roots env (read_stack_maps env pid) pids hl = hl"
proof -
  have "ml_count (parse_maps_line 10 10 l) < 6" if "l \<in> set ls" for l
  proof -
    from assms(2) that obtain ds c s where l: "l = ds @ c # s" "list_all (is_digit 10) ds" "c \<in> set ''abcdef''"
      by (auto simp: hex_address_def)
    then have "\<not> is_digit 10 c" "c \<noteq> CHR ''-''" "\<not> is_space c"
      by (auto simp: is_digit_def digit_of_def is_space_def)
    from parse_bad_address [OF l(2) this, of 10 s] l(1) show ?thesis by simp
  qed
  then have none: "read_stack_maps env pid = []"
    using assms(1) by (simp add: read_stack_maps_def stack_map_lines_none)
  have "stack_region env [] p = []" for p by (simp add: stack_region_def split: option.split)
  then have c: "concat (map (stack_region env []) pids) = []" by simp
  have "add_stack_roots env [] pids hl = hl"
    unfolding add_stack_roots_regions c by (rule add_data_roots.simps)
  with none show ?thesis by simp
qed

theorem hex_stack_maps_skipped_witness:
  "read_stack_maps (lib_env\<lparr>proc_maps := (\<lambda>_. Some [''7ffe000-7fff000 rwxp 00000000 00:00 0'']),
     proc_stat := (\<lambda>_. Some sample_stat)\<rparr>) 7 = []"
proof -
  let ?rest = "''fe000-7fff000 rwxp 00000000 00:00 0''"
  have "list_all (is_digit 10) ''7''" by (simp add: is_digit_def digit_of_def)
  then have "hex_address (''7'' @ CHR ''f'' # ?rest)"
    unfolding hex_address_def
    by (intro exI [of _ "''7''"] exI [of _ "CHR ''f''"] exI [of _ ?rest]) simp
  then have hex: "hex_address ''7ffe000-7fff000 rwxp 00000000 00:00 0''" unfolding append.simps .
  have "\<forall>l \<in> set [''7ffe000-7fff000 rwxp 00000000 00:00 0'']. hex_address l"
  proof
    fix l assume "l \<in> set [''7ffe000-7fff000 rwxp 00000000 00:00 0'']"
    then have "l = ''7ffe000-7fff000 rwxp 00000000 00:00 0''" unfolding list.set by blast
    then show "hex_address l" using hex by (rule ssubst)
  qed
  with hex_stack_maps_skipped [where pids = "[]" and hl = "(three_blocks, [])" and pid = 7
      and ls = "[''7ffe000-7fff000 rwxp 00000000 00:00 0'']"
      and env = "lib_env\<lparr>proc_maps := (\<lambda>_. Some [''7ffe000-7fff000 rwxp 00000000 00:00 0'']),
        proc_stat := (\<lambda>_. Some sample_stat)\<rparr>"]
  show ?thesis by simp
qed



text \<open>
  Property C25: when the memory of the process cannot be opened, the search gives up with no
  leaks after it has attached to the process and stopped its threads, and neither detaches nor
  continues them.
\<close>

theorem unopened_memory_stays_stopped:
  assumes "process_get_clones enump i w = Some clones" and "w_procs w i = Some p"
    and "\<forall>pid \<in> set (pids_of w clones). wait_stopped (polls pid)"
  shows "leaks_find env enumb enump polls False peek i w =
    Some (w\<lparr>w_log := w_log w @ Trace_Attach (p_pid p) # map Signal_Stop (pids_of w clones) @ [Warning ''open mem'']\<rparr>, [])"
proof -
  have "stop_clones polls (pids_of w clones) (emit (Trace_Attach (p_pid p)) w) =
      Some (w\<lparr>w_log := (w_log w @ [Trace_Attach (p_pid p)]) @ map Signal_Stop (pids_of w clones)\<rparr>)"
    using stop_clones_log [OF assms(3)] by (simp add: emit_def)
  with assms show ?thesis by (simp add: leaks_find_def) (simp add: emit_def)
qed

theorem unopened_memory_stays_stopped_witness:
  "leaks_find leaky_env by_address (\<lambda>_. [7]) (\<lambda>_. [None]) False leaky_peek 0 leaky_world =
     Some (leaky_world\<lparr>w_log := [Trace_Attach 7, Signal_Stop 7, Warning ''open mem'']\<rparr>, [])"
proof -
  have pids: "pids_of leaky_world [0] = [7]" "p_pid leaky_process = 7" "w_log leaky_world = []"
    by (simp_all add: pids_of_def List.map_filter_simps leaky_fields leaky_process_def running_process_def
        leaky_world_def initial_world_def)
  have "w_procs leaky_world 0 = Some leaky_process" by (simp add: leaky_fields)
  from unopened_memory_stays_stopped [OF leaky_clones this, of "\<lambda>_. [None]"] show ?thesis
    by (simp add: pids stat_status_def)
qed

end
