(* ===== verification/Profile.thy ===== *)
theory Profile
  imports World
begin

text \<open>
  The memory profile (src/profile.c, src/profile.h): a tree of call paths by symbol with the
  bytes allocated below and in each, the functions that occur in it, and for one function the
  tree of its descendants and the list of its callers.

  A node of the call tree is named by its path, the symbols from the root down to it: the code
  makes a node only where there is none for the path. Symbols are compared as pointers.
\<close>

section \<open>The data\<close>

type_synonym pnref = "cstr list"

record profile_node =
  pn_symbol :: cstr
  pn_total :: u32
  pn_self :: u32
  pn_toplevel :: bool
  pn_next :: "pnref option"
  pn_children :: "pnref list"
  pn_parent :: "pnref option"

record profile_func =
  pf_total :: u32
  pf_self :: u32
  pf_node :: "pnref option"

record profile =
  pr_nodes :: "pnref \<rightharpoonup> profile_node"
  pr_roots :: "pnref list"
  pr_functions :: "profile_func list"
  pr_n_bytes :: u32
  pr_by_symbol :: "cstr \<rightharpoonup> pnref"

definition symbol_equal :: "cstr option \<Rightarrow> cstr option \<Rightarrow> bool" where
  "symbol_equal a b \<longleftrightarrow> a = b"

section \<open>Adding a call stack\<close>

text \<open>
  The array of siblings in which a frame is looked up: that of the roots, or of the children
  of the frame before. The search goes on after a match, so the last one counts.
\<close>

definition siblings :: "profile \<Rightarrow> pnref option \<Rightarrow> pnref list option" where
  "siblings pr parent = (case parent of None \<Rightarrow> Some (pr_roots pr)
     | Some q \<Rightarrow> map_option pn_children (pr_nodes pr q))"

definition push_sibling :: "pnref option \<Rightarrow> pnref \<Rightarrow> profile \<Rightarrow> profile option" where
  "push_sibling parent r pr = (case parent of None \<Rightarrow> Some (pr\<lparr>pr_roots := pr_roots pr @ [r]\<rparr>)
     | Some q \<Rightarrow> do {
         n \<leftarrow> pr_nodes pr q;
         Some (pr\<lparr>pr_nodes := (pr_nodes pr)(q \<mapsto> n\<lparr>pn_children := pn_children n @ [r]\<rparr>)\<rparr>)
       })"

fun match_node :: "(pnref \<rightharpoonup> profile_node) \<Rightarrow> cstr \<Rightarrow> pnref list \<Rightarrow> pnref option \<Rightarrow> pnref option option" where
  "match_node h s [] m = Some m"
| "match_node h s (r # rs) m = do {
     n \<leftarrow> h r;
     match_node h s rs (if symbol_equal (Some (pn_symbol n)) (Some s) then Some r else m)
   }"

definition child_path :: "pnref option \<Rightarrow> cstr \<Rightarrow> pnref" where
  "child_path parent s = (case parent of None \<Rightarrow> [s] | Some q \<Rightarrow> q @ [s])"

definition new_profile_node :: "pnref option \<Rightarrow> cstr set \<Rightarrow> cstr \<Rightarrow> profile \<Rightarrow> (profile \<times> pnref) option" where
  "new_profile_node parent seen s pr = do {
     let r = child_path parent s;
     let n = \<lparr>pn_symbol = s, pn_total = 0, pn_self = 0, pn_toplevel = s \<notin> seen,
       pn_next = pr_by_symbol pr s, pn_children = [], pn_parent = parent\<rparr>;
     pr \<leftarrow> push_sibling parent r
       (pr\<lparr>pr_nodes := (pr_nodes pr)(r \<mapsto> n), pr_by_symbol := (pr_by_symbol pr)(s \<mapsto> r)\<rparr>);
     Some (pr, r)
   }"

definition add_frame :: "u32 \<Rightarrow> bool \<Rightarrow> pnref option \<Rightarrow> cstr set \<Rightarrow> cstr \<Rightarrow> profile \<Rightarrow> (profile \<times> pnref) option" where
  "add_frame sz innermost parent seen s pr = do {
     rs \<leftarrow> siblings pr parent;
     m \<leftarrow> match_node (pr_nodes pr) s rs None;
     (pr, r) \<leftarrow> (case m of Some r \<Rightarrow> Some (pr, r) | None \<Rightarrow> new_profile_node parent seen s pr);
     n \<leftarrow> pr_nodes pr r;
     Some (pr\<lparr>pr_nodes := (pr_nodes pr)(r \<mapsto> n\<lparr>pn_total := pn_total n + sz,
       pn_self := (if innermost then pn_self n + sz else pn_self n)\<rparr>)\<rparr>, r)
   }"

text \<open>
  The loop of \<open>profile_add_stack_trace\<close> over the frames, the outermost first. The hash table of
  seen symbols hashes every symbol with \<open>g_str_hash\<close>, which reads the string: a frame without a
  symbol (in a map that has no name) is a null pointer there.
\<close>

fun add_stack_frames ::
    "env \<Rightarrow> u32 \<Rightarrow> pnref option \<Rightarrow> cstr set \<Rightarrow> ptr list \<Rightarrow> mp_process \<times> inode_state \<Rightarrow> profile \<Rightarrow>
     (mp_process \<times> inode_state \<times> profile) option" where
  "add_stack_frames env sz parent seen [] ps pr = Some (fst ps, snd ps, pr)"
| "add_stack_frames env sz parent seen (a # as) ps pr = do {
     (p, st, name) \<leftarrow> process_locate_symbol env a ps;
     s \<leftarrow> name;
     (pr, r) \<leftarrow> add_frame sz (as = []) parent seen s pr;
     add_stack_frames env sz (Some r) (insert s seen) as (p, st) pr
   }"

definition profile_add_stack_trace ::
    "env \<Rightarrow> ptr list \<Rightarrow> u32 \<Rightarrow> mp_process \<times> inode_state \<Rightarrow> profile \<Rightarrow>
     (mp_process \<times> inode_state \<times> profile) option" where
  "profile_add_stack_trace env stack sz = add_stack_frames env sz None {} stack"

text \<open>
  The stack of a block, the outermost frame first, without the functions to skip (compared by
  their text).
\<close>

definition skipped :: "string set \<Rightarrow> cstr option \<Rightarrow> bool" where
  "skipped skip name \<longleftrightarrow> (case name of None \<Rightarrow> False | Some s \<Rightarrow> text_of s \<in> skip)"

partial_function (option) block_create_stack_list ::
    "env \<Rightarrow> (nref \<rightharpoonup> stack_node) \<Rightarrow> string set \<Rightarrow> nref option \<Rightarrow> ptr list \<Rightarrow> mp_process \<times> inode_state \<Rightarrow>
     (mp_process \<times> inode_state \<times> ptr list) option" where
  "block_create_stack_list env m skip element acc ps =
     (case element of None \<Rightarrow> Some (fst ps, snd ps, acc)
      | Some r \<Rightarrow> Option.bind (m r) (\<lambda>nd.
          Option.bind (process_locate_symbol env (sn_address nd) ps) (\<lambda>psy.
          block_create_stack_list env m skip (sn_parent nd)
            (if skipped skip (snd (snd psy)) then acc else sn_address nd # acc) (fst psy, fst (snd psy)))))"

fun profile_build_tree ::
    "env \<Rightarrow> (nref \<rightharpoonup> stack_node) \<Rightarrow> string set \<Rightarrow> block list \<Rightarrow> mp_process \<times> inode_state \<Rightarrow> profile \<Rightarrow>
     (mp_process \<times> inode_state \<times> profile) option" where
  "profile_build_tree env m skip [] ps pr = Some (fst ps, snd ps, pr)"
| "profile_build_tree env m skip (b # bs) ps pr = do {
     (p, st, stack) \<leftarrow> block_create_stack_list env m skip (b_stack b) [] ps;
     (p, st, pr) \<leftarrow> profile_add_stack_trace env stack (b_size b) (p, st) pr;
     profile_build_tree env m skip bs (p, st) pr
   }"

section \<open>The functions\<close>

text \<open>\<open>add_function\<close>: the sums over the nodes of a symbol, along \<open>next\<close>.\<close>

partial_function (option) sum_nodes ::
    "(pnref \<rightharpoonup> profile_node) \<Rightarrow> pnref option \<Rightarrow> u32 \<Rightarrow> u32 \<Rightarrow> (u32 \<times> u32) option" where
  "sum_nodes h node tot own =
     (case node of None \<Rightarrow> Some (tot, own)
      | Some r \<Rightarrow> Option.bind (h r) (\<lambda>n.
          sum_nodes h (pn_next n) (if pn_toplevel n then tot + pn_total n else tot) (own + pn_self n)))"

definition add_function :: "cstr \<Rightarrow> profile \<Rightarrow> profile option" where
  "add_function s pr = do {
     r \<leftarrow> pr_by_symbol pr s;
     (tot, own) \<leftarrow> sum_nodes (pr_nodes pr) (Some r) 0 0;
     Some (pr\<lparr>pr_functions := pr_functions pr @ [\<lparr>pf_total = tot, pf_self = own, pf_node = Some r\<rparr>]\<rparr>)
   }"

fun add_functions :: "cstr list \<Rightarrow> profile \<Rightarrow> profile option" where
  "add_functions [] pr = Some pr"
| "add_functions (s # ss) pr = Option.bind (add_function s pr) (add_functions ss)"

fun sum_sizes :: "block list \<Rightarrow> u32 \<Rightarrow> u32" where
  "sum_sizes [] n = n"
| "sum_sizes (b # bs) n = sum_sizes bs (n + b_size b)"

fun blocks_at :: "block_heap \<Rightarrow> bref list \<Rightarrow> block list option" where
  "blocks_at h [] = Some []"
| "blocks_at h (r # rs) = do { b \<leftarrow> blocks h r; bs \<leftarrow> blocks_at h rs; Some (b # bs) }"

definition empty_profile :: profile where
  "empty_profile = \<lparr>pr_nodes = Map.empty, pr_roots = [], pr_functions = [], pr_n_bytes = 0,
     pr_by_symbol = Map.empty\<rparr>"

text \<open>
  \<open>profile_create\<close>. \<open>add_block_to_list\<close> turns the order of the block table around; \<open>enums\<close> is
  the order in which \<open>nodes_by_symbol\<close> is visited at the end.
\<close>

definition profile_create ::
    "env \<Rightarrow> ((ptr \<rightharpoonup> bref) \<Rightarrow> ptr list) \<Rightarrow> ((cstr \<rightharpoonup> pnref) \<Rightarrow> cstr list) \<Rightarrow> string list \<Rightarrow> pref \<Rightarrow> world \<Rightarrow>
     (world \<times> profile) option" where
  "profile_create env enumb enums skip_funcs i w = do {
     (w, rs) \<leftarrow> process_block_foreach enumb i w;
     bs \<leftarrow> blocks_at (w_blocks w) (rev rs);
     p \<leftarrow> w_procs w i;
     (p, s, pr) \<leftarrow> profile_build_tree env (nodes (w_nodes w)) (set skip_funcs) bs (p, w_inodes w) empty_profile;
     let pr = pr\<lparr>pr_n_bytes := sum_sizes bs 0\<rparr>;
     pr \<leftarrow> add_functions (enums (pr_by_symbol pr)) pr;
     Some (put i p (w\<lparr>w_inodes := s\<rparr>), pr)
   }"

section \<open>Freeing\<close>

text \<open>
  \<open>profile_node_free\<close> frees the children of a node, then the node. The recursion is unfolded
  into a list of the nodes still to free; a node that is gone when its turn comes is a double
  free.
\<close>

partial_function (option) free_profile_nodes ::
    "pnref list \<Rightarrow> (pnref \<rightharpoonup> profile_node) \<Rightarrow> (pnref \<rightharpoonup> profile_node) option" where
  "free_profile_nodes todo h =
     (if todo = [] then Some h
      else Option.bind (h (hd todo)) (\<lambda>n. free_profile_nodes (pn_children n @ tl todo) (h(hd todo := None))))"

definition profile_node_free :: "pnref \<Rightarrow> (pnref \<rightharpoonup> profile_node) \<Rightarrow> (pnref \<rightharpoonup> profile_node) option" where
  "profile_node_free r = free_profile_nodes [r]"

fun profile_free :: "pnref list \<Rightarrow> (pnref \<rightharpoonup> profile_node) \<Rightarrow> (pnref \<rightharpoonup> profile_node) option" where
  "profile_free [] h = Some h"
| "profile_free (r # rs) h = Option.bind (profile_node_free r h) (profile_free rs)"

section \<open>The callers of a function\<close>

text \<open>The nodes of a function, along \<open>next\<close>.\<close>

partial_function (option) node_chain :: "(pnref \<rightharpoonup> profile_node) \<Rightarrow> pnref option \<Rightarrow> pnref list option" where
  "node_chain h node =
     (case node of None \<Rightarrow> Some []
      | Some r \<Rightarrow> Option.bind (h r) (\<lambda>n. Option.bind (node_chain h (pn_next n)) (\<lambda>rs. Some (r # rs))))"

text \<open>
  The array of callers, the table \<open>callers_by_symbol\<close> and \<open>spontaneous\<close> as indices into it, and
  the set \<open>marked_callers\<close>, in which \<open>None\<close> is the null pointer.
\<close>

record callers =
  ca_result :: "profile_func list"
  ca_by_symbol :: "cstr \<rightharpoonup> nat"
  ca_spontaneous :: "nat option"
  ca_marked :: "pnref option set"

definition new_caller :: "pnref option \<Rightarrow> profile_func" where
  "new_caller r = \<lparr>pf_total = 0, pf_self = 0, pf_node = r\<rparr>"

fun collect_callers :: "(pnref \<rightharpoonup> profile_node) \<Rightarrow> pnref list \<Rightarrow> callers \<Rightarrow> callers option" where
  "collect_callers h [] c = Some c"
| "collect_callers h (r # rs) c = do {
     n \<leftarrow> h r;
     c \<leftarrow> (case pn_parent n of
         Some q \<Rightarrow> do {
           m \<leftarrow> h q;
           Some (if ca_by_symbol c (pn_symbol m) = None
             then c\<lparr>ca_by_symbol := (ca_by_symbol c)(pn_symbol m \<mapsto> length (ca_result c)),
                 ca_result := ca_result c @ [new_caller (Some q)]\<rparr>
             else c)
         }
       | None \<Rightarrow> Some (if ca_spontaneous c = None
           then c\<lparr>ca_spontaneous := Some (length (ca_result c)), ca_result := ca_result c @ [new_caller None]\<rparr>
           else c));
     collect_callers h rs c
   }"

text \<open>The topmost pair of nodes with the symbols of the node and of its parent, on the way up.\<close>

partial_function (option) top_pair ::
    "(pnref \<rightharpoonup> profile_node) \<Rightarrow> cstr \<Rightarrow> pnref option \<Rightarrow> pnref option \<times> pnref \<Rightarrow> (pnref option \<times> pnref) option" where
  "top_pair h s n tp =
     (case n of None \<Rightarrow> Some tp
      | Some r \<Rightarrow> Option.bind (h r) (\<lambda>m.
          (case pn_parent m of None \<Rightarrow> Some tp
           | Some q \<Rightarrow> Option.bind (h q) (\<lambda>pm. Option.bind (fst tp) (\<lambda>c. Option.bind (h c) (\<lambda>cm.
               top_pair h s (Some q)
                 (if symbol_equal (Some (pn_symbol m)) (Some s) \<and>
                     symbol_equal (Some (pn_symbol pm)) (Some (pn_symbol cm))
                  then (Some q, r) else tp)))))))"

definition count_caller :: "(pnref \<rightharpoonup> profile_node) \<Rightarrow> pnref \<Rightarrow> callers \<Rightarrow> callers option" where
  "count_caller h r c = do {
     n \<leftarrow> h r;
     i \<leftarrow> (case pn_parent n of None \<Rightarrow> ca_spontaneous c
       | Some q \<Rightarrow> Option.bind (h q) (\<lambda>m. ca_by_symbol c (pn_symbol m)));
     (top_caller, top_callee) \<leftarrow> top_pair h (pn_symbol n) (pn_parent n) (pn_parent n, r);
     t \<leftarrow> h top_callee;
     let f = ca_result c ! i;
     let f = (if top_caller \<in> ca_marked c then f else f\<lparr>pf_total := pf_total f + pn_total t\<rparr>);
     let f = (if pn_self n > 0 then f\<lparr>pf_self := pf_self f + pn_self n\<rparr> else f);
     Some (c\<lparr>ca_result := (ca_result c)[i := f], ca_marked := insert top_caller (ca_marked c)\<rparr>)
   }"

fun count_callers :: "(pnref \<rightharpoonup> profile_node) \<Rightarrow> pnref list \<Rightarrow> callers \<Rightarrow> callers option" where
  "count_callers h [] c = Some c"
| "count_callers h (r # rs) c = Option.bind (count_caller h r c) (count_callers h rs)"

definition no_callers :: callers where
  "no_callers = \<lparr>ca_result = [], ca_by_symbol = Map.empty, ca_spontaneous = None, ca_marked = {}\<rparr>"

definition profile_func_create_caller_list ::
    "(pnref \<rightharpoonup> profile_node) \<Rightarrow> profile_func \<Rightarrow> profile_func list option" where
  "profile_func_create_caller_list h f = do {
     rs \<leftarrow> node_chain h (pf_node f);
     c \<leftarrow> collect_callers h rs no_callers;
     c \<leftarrow> count_callers h rs c;
     Some (ca_result c)
   }"

end
