(* ===== verification/Path_Tree.thy ===== *)
theory Path_Tree
  imports Prelude
begin

text \<open>
  Trees whose nodes are named by their paths, as the call tree of a profile and the descendant
  tree of a function are: a node is made only where its path has none, so the path names it. The
  theory has what does not depend on the fields of a node: the shape, a new leaf, the nodes below
  a list of nodes, and the contract of a function that frees a tree.
\<close>

section \<open>The shape\<close>

definition path_tree :: "('n \<Rightarrow> 'k list list) \<Rightarrow> ('k list \<rightharpoonup> 'n) \<Rightarrow> 'k list list \<Rightarrow> bool" where
  "path_tree ch h roots \<longleftrightarrow> finite (dom h) \<and> [] \<notin> dom h \<and>
     (\<forall>p n. h p = Some n \<longrightarrow> (butlast p = [] \<or> butlast p \<in> dom h) \<and> distinct (ch n) \<and>
        set (ch n) = {q \<in> dom h. butlast q = p}) \<and>
     distinct roots \<and> set roots = {q \<in> dom h. butlast q = []}"

lemma path_treeD:
  assumes "path_tree ch h roots"
  shows "finite (dom h)" "h [] = None" "h p = Some n \<Longrightarrow> butlast p = [] \<or> butlast p \<in> dom h"
    "h p = Some n \<Longrightarrow> distinct (ch n)" "h p = Some n \<Longrightarrow> set (ch n) = {q \<in> dom h. butlast q = p}"
    "distinct roots" "set roots = {q \<in> dom h. butlast q = []}"
  using assms unfolding path_tree_def by (auto simp: domIff)

lemma path_tree_empty: "path_tree ch Map.empty []"
  by (simp add: path_tree_def)

text \<open>An update that leaves the children alone.\<close>

lemma path_tree_cong:
  assumes t: "path_tree ch h roots" and c: "\<forall>p. map_option ch (h' p) = map_option ch (h p)"
  shows "path_tree ch h' roots"
proof -
  have d: "dom h' = dom h"
  proof (rule set_eqI)
    fix p show "p \<in> dom h' \<longleftrightarrow> p \<in> dom h"
      using c [rule_format, of p] by (cases "h p"; cases "h' p") auto
  qed
  have "\<exists>m. h p = Some m \<and> ch n = ch m" if n: "h' p = Some n" for p n
  proof -
    have "map_option ch (h p) = Some (ch n)" using c [rule_format, of p] n by simp
    then show ?thesis by auto
  qed
  with path_treeD [OF t] show ?thesis unfolding path_tree_def d by (metis domIff)
qed

lemma path_tree_new:
  assumes t: "path_tree ch h roots" and c: "c = [] \<or> c \<in> dom h" and new: "c @ [s] \<notin> dom h"
    and r: "h' (c @ [s]) = Some n" "ch n = []"
    and old: "\<forall>p. p \<noteq> c @ [s] \<longrightarrow> map_option ch (h' p) = map_option (\<lambda>m. if p = c then ch m @ [c @ [s]] else ch m) (h p)"
  shows "path_tree ch h' (if c = [] then roots @ [c @ [s]] else roots)"
proof -
  note D = path_treeD [OF t]
  let ?r = "c @ [s]"
  have old': "\<exists>m. h p = Some m \<and> ch k = (if p = c then ch m @ [?r] else ch m)" if k: "h' p = Some k" "p \<noteq> ?r" for p k
  proof -
    have "map_option (\<lambda>m. if p = c then ch m @ [?r] else ch m) (h p) = Some (ch k)" unfolding old [rule_format, OF k(2), symmetric] k(1) by simp
    then show ?thesis unfolding map_option_eq_Some by metis
  qed
  have d: "dom h' = insert ?r (dom h)"
  proof (rule set_eqI)
    fix p show "p \<in> dom h' \<longleftrightarrow> p \<in> insert ?r (dom h)"
    proof (cases "p = ?r")
      case False
      from arg_cong [OF old [rule_format, OF this], of "\<lambda>x. x = None"]
      have "h' p = None \<longleftrightarrow> h p = None" by simp
      with False show ?thesis by auto
    qed (use r in auto)
  qed
  have node: "(butlast p = [] \<or> butlast p \<in> dom h') \<and> distinct (ch k) \<and> set (ch k) = {q \<in> dom h'. butlast q = p}"
    if k: "h' p = Some k" for p k
  proof (cases "p = ?r")
    case True
    have "q \<notin> dom h" if "butlast q = ?r" for q using D(3) [of q] that new by auto
    then have "{q \<in> dom h'. butlast q = ?r} = {}" by (auto simp: d)
    with True k r c d show ?thesis by auto
  next
    case False
    from old' [OF k False] obtain m where m: "h p = Some m" "ch k = (if p = c then ch m @ [?r] else ch m)" by blast
    have "?r \<notin> set (ch m)" using D(5) [OF m(1)] new by auto
    with m D(3-5) [OF m(1)] show ?thesis by (auto simp: d)
  qed
  have "?r \<notin> set roots" using D(7) new by auto
  with D(1,2,6,7) node d show ?thesis by (auto simp: path_tree_def)
qed

lemma path_tree_prefix:
  assumes t: "path_tree ch h roots"
  shows "prefix q p \<Longrightarrow> q \<noteq> [] \<Longrightarrow> p \<in> dom h \<Longrightarrow> q \<in> dom h"
proof (induction p rule: rev_induct)
  case Nil
  then show ?case by simp
next
  case (snoc x p)
  show ?case
  proof (cases "q = p @ [x]")
    case True
    with snoc.prems show ?thesis by simp
  next
    case False
    with snoc.prems(1) have q: "prefix q p" by (simp add: prefix_snoc)
    then have "p \<noteq> []" using snoc.prems(2) by auto
    moreover obtain n where "h (p @ [x]) = Some n" using snoc.prems(3) by blast
    ultimately have "p \<in> dom h" using path_treeD(3) [OF t] by fastforce
    with snoc.IH [OF q snoc.prems(2)] show ?thesis by simp
  qed
qed

section \<open>The nodes below\<close>

definition below :: "('k list \<rightharpoonup> 'n) \<Rightarrow> 'k list list \<Rightarrow> 'k list set" where
  "below h rs = {p \<in> dom h. \<exists>r \<in> set rs. prefix r p}"

definition antichain :: "'k list list \<Rightarrow> bool" where
  "antichain rs \<longleftrightarrow> distinct rs \<and> (\<forall>a \<in> set rs. \<forall>b \<in> set rs. prefix a b \<longrightarrow> a = b)"

lemma finite_below: "path_tree ch h roots \<Longrightarrow> finite (below h rs)"
  by (rule finite_subset [OF _ path_treeD(1)]) (auto simp: below_def)

lemma below_Nil [simp]: "below h [] = {}"
  by (simp add: below_def)

lemma below_children:
  assumes inv: "path_tree ch h roots" and r: "h r = Some n" and ac: "antichain (r # rs)"
  shows "below h (r # rs) = insert r (below h (ch n @ rs))" and "r \<notin> below h (ch n @ rs)"
    and "antichain (ch n @ rs)"
proof -
  note D = path_treeD [OF inv]
  have kids: "set (ch n) = {q \<in> dom h. butlast q = r}" "distinct (ch n)" using D(4,5) [OF r] by auto
  have kid: "\<exists>s. c = r @ [s]" if "c \<in> set (ch n)" for c
  proof -
    have "butlast c = r" "c \<noteq> []" using that kids(1) D(2) by (auto simp: domIff)
    then show ?thesis by (metis append_butlast_last_id)
  qed
  have rd: "r \<in> dom h" using r by blast
  have sep: "\<not> prefix r b" "\<not> prefix b r" if "b \<in> set rs" for b
    using ac that by (auto simp: antichain_def)
  show "below h (r # rs) = insert r (below h (ch n @ rs))"
  proof (intro equalityI subsetI)
    fix p assume p: "p \<in> below h (r # rs)"
    then have pd: "p \<in> dom h" by (simp add: below_def)
    show "p \<in> insert r (below h (ch n @ rs))"
    proof (cases "prefix r p \<and> p \<noteq> r")
      case True
      then obtain s u where u: "p = r @ s # u" by (metis append_Nil2 neq_Nil_conv prefix_def)
      have "r @ [s] \<in> dom h" by (rule path_tree_prefix [OF inv _ _ pd]) (simp_all add: u)
      then have "r @ [s] \<in> set (ch n)" using kids(1) by (auto simp: domIff)
      moreover have "prefix (r @ [s]) p" by (simp add: u)
      ultimately show ?thesis using pd by (auto simp: below_def)
    next
      case False
      with p show ?thesis by (auto simp: below_def)
    qed
  next
    fix p assume "p \<in> insert r (below h (ch n @ rs))"
    then consider "p = r" | c where "p \<in> dom h" "c \<in> set (ch n)" "prefix c p"
      | c where "p \<in> dom h" "c \<in> set rs" "prefix c p" by (auto simp: below_def)
    then show "p \<in> below h (r # rs)"
    proof cases
      case 1
      with rd show ?thesis by (auto simp: below_def)
    next
      case 2
      from kid [OF 2(2)] 2(3) have "prefix r p" by (metis append_prefixD)
      with 2(1) show ?thesis by (simp add: below_def)
    next
      case 3
      then show ?thesis by (auto simp: below_def)
    qed
  qed
  show "r \<notin> below h (ch n @ rs)"
  proof
    assume "r \<in> below h (ch n @ rs)"
    then obtain b where b: "b \<in> set (ch n) \<or> b \<in> set rs" "prefix b r" by (auto simp: below_def)
    from b(1) show False
    proof
      assume "b \<in> set (ch n)"
      then obtain s where "b = r @ [s]" using kid by blast
      with b(2) show False by (auto dest: prefix_length_le)
    next
      assume "b \<in> set rs"
      with sep(2) b(2) show False by blast
    qed
  qed
  have disj: "\<not> prefix c b" "\<not> prefix b c" if c: "c \<in> set (ch n)" and b: "b \<in> set rs" for b c
  proof -
    obtain s where s: "c = r @ [s]" using kid [OF c] by blast
    show "\<not> prefix c b" using s sep(1) [OF b] by (metis append_prefixD)
    show "\<not> prefix b c" using s sep [OF b] by (auto simp: prefix_snoc)
  qed
  have "c = d" if "c \<in> set (ch n)" "d \<in> set (ch n)" "prefix c d" for c d
    using kid [OF that(1)] kid [OF that(2)] that(3) by auto
  then show "antichain (ch n @ rs)"
    using ac kids(2) disj by (fastforce simp: antichain_def)
qed

lemma roots_antichain:
  assumes inv: "path_tree ch h roots"
  shows "antichain roots" and "set roots \<subseteq> dom h" and
    "below h roots = dom h"
proof -
  note D = path_treeD [OF inv]
  have root: "length r = 1" if "r \<in> set roots" for r
  proof -
    have "butlast r = []" "r \<noteq> []" using that D(2,7) by (auto simp: domIff)
    then show ?thesis by (cases r rule: rev_cases) auto
  qed
  then have "a = b" if "a \<in> set roots" "b \<in> set roots" "prefix a b" for a b
    using root [OF that(1)] root [OF that(2)] that(3) by (auto simp: prefix_def)
  then show "antichain roots" using D(6) by (auto simp: antichain_def)
  show "set roots \<subseteq> dom h" using D(7) by (auto simp: domIff)
  show "below h roots = dom h"
  proof (intro equalityI subsetI)
    fix p assume p: "p \<in> dom h"
    then obtain x xs where x: "p = x # xs" using D(2) by (cases p) auto
    have "[x] \<in> dom h" by (rule path_tree_prefix [OF inv _ _ p]) (simp_all add: x)
    then have "[x] \<in> set roots" using D(7) by (auto simp: domIff)
    with p x show "p \<in> below h roots" by (auto simp: below_def intro: bexI [of _ "[x]"])
  qed (auto simp: below_def)
qed

section \<open>Freeing\<close>

text \<open>
  The contract of a function that frees the nodes of a list, each followed by its children, and
  of one that does so for the roots one after the other. A node that is gone when its turn comes
  would be freed twice.
\<close>

locale tree_freeing =
  fixes ch :: "'n \<Rightarrow> 'k list list"
    and free :: "'k list list \<Rightarrow> ('k list \<rightharpoonup> 'n) \<Rightarrow> ('k list \<rightharpoonup> 'n) option"
    and free_all :: "'k list list \<Rightarrow> ('k list \<rightharpoonup> 'n) \<Rightarrow> ('k list \<rightharpoonup> 'n) option"
  assumes free_eq: "free todo h = (if todo = [] then Some h
      else Option.bind (h (hd todo)) (\<lambda>n. free (ch n @ tl todo) (h(hd todo := None))))"
    and free_all_eqs: "free_all [] h = Some h"
      "free_all (r # rs) h = Option.bind (free [r] h) (free_all rs)"
begin

lemma free_nodes_spec:
  assumes inv: "path_tree ch h roots"
  shows "antichain todo \<Longrightarrow> set todo \<subseteq> dom h \<Longrightarrow> B \<inter> below h todo = {} \<Longrightarrow>
    free todo (h |` (below h todo \<union> B)) = Some (h |` B)"
proof (induction "card (below h todo)" arbitrary: todo rule: less_induct)
  case less
  show ?case
  proof (cases todo)
    case Nil
    then show ?thesis by (subst free_eq) simp
  next
    case (Cons r rs)
    then obtain n where n: "h r = Some n" using less.prems(2) by auto
    note ch = below_children [OF inv n, of rs]
    have ac: "antichain (r # rs)" using less.prems(1) Cons by simp
    let ?todo = "ch n @ rs"
    have dec: "card (below h ?todo) < card (below h todo)"
      using ch(1,2) [OF ac] Cons finite_below [OF inv, of ?todo] by simp
    have sub: "set ?todo \<subseteq> dom h"
      using less.prems(2) Cons path_treeD(5) [OF inv n] by auto
    have "r \<notin> B" using less.prems(3) Cons ch(1) [OF ac] by auto
    then have "(h |` (below h todo \<union> B))(r := None) = h |` (below h ?todo \<union> B)"
      using ch(1,2) [OF ac] Cons by (auto simp: restrict_map_def fun_eq_iff)
    moreover have "(h |` (below h todo \<union> B)) r = Some n"
      using n ch(1) [OF ac] Cons by simp
    moreover have "B \<inter> below h ?todo = {}" using less.prems(3) ch(1) [OF ac] Cons by auto
    ultimately show ?thesis
      using less.hyps [OF dec ch(3) [OF ac] sub] Cons by (subst free_eq) simp
  qed
qed

lemma free_list_spec:
  assumes inv: "path_tree ch h roots"
  shows "antichain rs \<Longrightarrow> set rs \<subseteq> dom h \<Longrightarrow>
    free_all rs (h |` below h rs) = Some Map.empty"
proof (induction rs)
  case Nil
  then show ?case by (simp add: free_all_eqs)
next
  case (Cons r rs)
  have ac: "antichain [r]" "antichain rs" using Cons.prems(1) by (auto simp: antichain_def)
  have un: "below h (r # rs) = below h [r] \<union> below h rs" by (auto simp: below_def)
  have dj: "below h rs \<inter> below h [r] = {}"
  proof -
    have False if p: "p \<in> below h rs" "prefix r p" for p
    proof -
      obtain b where b: "b \<in> set rs" "prefix b p" using p(1) by (auto simp: below_def)
      with p(2) have "prefix r b \<or> prefix b r" by (simp add: prefix_same_cases)
      with b(1) Cons.prems(1) show False by (auto simp: antichain_def)
    qed
    then show ?thesis by (auto simp: below_def)
  qed
  have "set [r] \<subseteq> dom h" using Cons.prems(2) by simp
  from free_nodes_spec [OF inv ac(1) this dj] Cons.IH [OF ac(2)] Cons.prems(2) un show ?case
    by (simp add: free_all_eqs)
qed

lemma frees_all:
  assumes "path_tree ch h roots"
  shows "free_all roots h = Some Map.empty"
proof -
  have "h |` dom h = h" by (auto simp: restrict_map_def fun_eq_iff domIff)
  with free_list_spec [OF assms roots_antichain(1,2) [OF assms]] roots_antichain(3) [OF assms]
  show ?thesis by simp
qed

end

end
