(* ===== verification/Profile_Inv.thy ===== *)
theory Profile_Inv
  imports Profile Path_Tree Trace_Tree World_Inv "HOL-Library.Product_Lexorder" "HOL-Library.List_Lexorder"
    "HOL-Library.Char_ord"
begin

text \<open>
  The correctness of the profile: the invariant of the call tree, the tree a list of blocks
  leads to (through the generic recorder of traces), the sums of a function over its nodes, and
  that freeing a profile frees every node of it once.
\<close>

section \<open>The invariant of the call tree\<close>

definition par :: "pnref \<Rightarrow> pnref option" where
  "par q = (if q = [] then None else Some q)"

definition node_at :: "pnref \<Rightarrow> profile_node \<Rightarrow> bool" where
  "node_at p n \<longleftrightarrow> pn_symbol n = last p \<and> pn_parent n = par (butlast p) \<and>
     (pn_toplevel n \<longleftrightarrow> last p \<notin> set (butlast p))"

definition kid_paths :: "profile \<Rightarrow> pnref \<Rightarrow> pnref set" where
  "kid_paths pr q = {p \<in> dom (pr_nodes pr). butlast p = q}"

definition symbol_paths :: "profile \<Rightarrow> cstr \<Rightarrow> pnref set" where
  "symbol_paths pr s = {p \<in> dom (pr_nodes pr). last p = s}"

definition profile_inv :: "profile \<Rightarrow> bool" where
  "profile_inv pr \<longleftrightarrow> path_tree pn_children (pr_nodes pr) (pr_roots pr) \<and>
     (\<forall>p n. pr_nodes pr p = Some n \<longrightarrow> node_at p n) \<and>
     (\<forall>s. \<exists>xs. chain pn_next (pr_nodes pr) (pr_by_symbol pr s) xs \<and> set xs = symbol_paths pr s)"

lemma profile_path_tree: "profile_inv pr \<Longrightarrow> path_tree pn_children (pr_nodes pr) (pr_roots pr)"
  by (simp add: profile_inv_def)

lemma profile_invD:
  assumes "profile_inv pr"
  shows "finite (dom (pr_nodes pr))" "pr_nodes pr [] = None"
    "pr_nodes pr p = Some n \<Longrightarrow> node_at p n"
    "pr_nodes pr p = Some n \<Longrightarrow> butlast p = [] \<or> butlast p \<in> dom (pr_nodes pr)"
    "pr_nodes pr p = Some n \<Longrightarrow> distinct (pn_children n)"
    "pr_nodes pr p = Some n \<Longrightarrow> set (pn_children n) = kid_paths pr p"
    "distinct (pr_roots pr)" "set (pr_roots pr) = kid_paths pr []"
    "\<exists>xs. chain pn_next (pr_nodes pr) (pr_by_symbol pr s) xs \<and> set xs = symbol_paths pr s"
  using assms path_treeD [OF profile_path_tree [OF assms]] by (auto simp: profile_inv_def kid_paths_def)

definition tree_total :: "profile \<Rightarrow> pnref \<Rightarrow> u32" where
  "tree_total pr p = (case pr_nodes pr p of None \<Rightarrow> 0 | Some n \<Rightarrow> pn_total n)"

definition tree_self :: "profile \<Rightarrow> pnref \<Rightarrow> u32" where
  "tree_self pr p = (case pr_nodes pr p of None \<Rightarrow> 0 | Some n \<Rightarrow> pn_self n)"

lemma empty_profile_inv: "profile_inv empty_profile"
  by (auto simp: profile_inv_def empty_profile_def path_tree_empty symbol_paths_def)

lemma siblings_inv:
  assumes "profile_inv pr" and "q = [] \<or> q \<in> dom (pr_nodes pr)"
  shows "\<exists>rs. siblings pr (par q) = Some rs \<and> distinct rs \<and> set rs = kid_paths pr q"
  using assms profile_invD [OF assms(1)] by (cases "q = []") (auto simp: siblings_def par_def)

lemma child_path_par [simp]: "child_path (par q) s = q @ [s]"
  by (simp add: child_path_def par_def)

lemma match_node_spec:
  "(\<And>r. r \<in> set rs \<Longrightarrow> \<exists>n. h r = Some n \<and> pn_symbol n = last r \<and> r \<noteq> [] \<and> butlast r = q) \<Longrightarrow>
   match_node h s rs m = Some (if q @ [s] \<in> set rs then Some (q @ [s]) else m)"
proof (induction rs arbitrary: m)
  case Nil
  then show ?case by simp
next
  case (Cons r rs)
  obtain n where n: "h r = Some n" "pn_symbol n = last r" "r \<noteq> []" "butlast r = q"
    using Cons.prems [of r] by auto
  have "last r = s \<longleftrightarrow> r = q @ [s]" using n(3,4) by (metis append_butlast_last_id butlast_snoc last_snoc)
  then show ?case using n Cons.IH [OF Cons.prems] by (auto simp: symbol_equal_def)
qed

text \<open>A new node for a path that has none.\<close>

lemma chain_new_next:
  assumes "chain f h l xs" and "h' x = Some n" and "f n = l" and "x \<notin> set xs"
    and "\<And>y. y \<in> set xs \<Longrightarrow> map_option f (h' y) = map_option f (h y)"
  shows "chain f h' (Some x) (x # xs)"
  using assms chain_frame [of xs f h' h l] by simp

lemma new_profile_node_spec:
  assumes inv: "profile_inv pr" and q: "q = [] \<or> q \<in> dom (pr_nodes pr)" and new: "q @ [s] \<notin> dom (pr_nodes pr)"
  shows "\<exists>pr' n. new_profile_node (par q) (set q) s pr = Some (pr', q @ [s]) \<and> profile_inv pr' \<and>
    dom (pr_nodes pr') = insert (q @ [s]) (dom (pr_nodes pr)) \<and>
    (\<forall>p. tree_total pr' p = tree_total pr p) \<and> (\<forall>p. tree_self pr' p = tree_self pr p) \<and>
    pr_functions pr' = pr_functions pr \<and> pr_n_bytes pr' = pr_n_bytes pr"
proof -
  note D = profile_invD [OF inv]
  let ?r = "q @ [s]"
  define n where "n = \<lparr>pn_symbol = s, pn_total = 0, pn_self = 0, pn_toplevel = s \<notin> set q,
       pn_next = pr_by_symbol pr s, pn_children = [], pn_parent = par q\<rparr>"
  define h where "h = (pr_nodes pr)(?r \<mapsto> n)"
  define h' where "h' = (case par q of None \<Rightarrow> h
    | Some q \<Rightarrow> (case pr_nodes pr q of None \<Rightarrow> h | Some m \<Rightarrow> h(q \<mapsto> m\<lparr>pn_children := pn_children m @ [?r]\<rparr>)))"
  define pr' where "pr' = pr\<lparr>pr_nodes := h', pr_by_symbol := (pr_by_symbol pr)(s \<mapsto> ?r),
    pr_roots := (if q = [] then pr_roots pr @ [?r] else pr_roots pr)\<rparr>"
  have qr: "q \<noteq> ?r" by simp
  have run: "new_profile_node (par q) (set q) s pr = Some (pr', ?r)"
    using q by (cases "q = []")
      (auto simp: new_profile_node_def child_path_def Let_def n_def push_sibling_def pr'_def h'_def h_def par_def)
  have h'r: "h' ?r = Some n" using q by (auto simp: h'_def h_def par_def)
  have h'q: "h' q = map_option (\<lambda>m. m\<lparr>pn_children := pn_children m @ [?r]\<rparr>) (pr_nodes pr q)" if "q \<noteq> []"
    using q that by (auto simp: h'_def h_def par_def)
  have h'o: "h' p = pr_nodes pr p" if "p \<noteq> ?r" "p \<noteq> q \<or> q = []" for p
    using q that D(2) by (auto simp: h'_def h_def par_def)
  have d: "dom h' = insert ?r (dom (pr_nodes pr))"
    using q by (auto simp: h'_def h_def par_def split: if_splits)
  have same: "map_option pn_next (h' p) = map_option pn_next (pr_nodes pr p)"
    "map_option pn_total (h' p) = map_option pn_total (pr_nodes pr p)"
    "map_option pn_self (h' p) = map_option pn_self (pr_nodes pr p)" if "p \<noteq> ?r" for p
    using that h'o [of p] h'q by (cases "p = q \<and> q \<noteq> []", auto simp: option.map_comp comp_def)+
  have syms: "symbol_paths pr' t = (if t = s then insert ?r (symbol_paths pr t) else symbol_paths pr t)" for t
    by (auto simp: symbol_paths_def pr'_def d)
  have fresh: "?r \<notin> symbol_paths pr t" for t using new by (auto simp: symbol_paths_def)
  have inv': "profile_inv pr'"
    unfolding profile_inv_def
  proof (intro conjI allI impI)
    have "map_option pn_children (h' p) =
        map_option (\<lambda>m. if p = q then pn_children m @ [?r] else pn_children m) (pr_nodes pr p)" if "p \<noteq> ?r" for p
      using that h'o [of p] h'q D(2)
      by (cases "p = q \<and> q \<noteq> []"; cases "p = []") (auto simp: option.map_comp comp_def intro: option.map_cong)
    then have "path_tree pn_children h' (if q = [] then pr_roots pr @ [?r] else pr_roots pr)"
      by (intro path_tree_new [where h' = h' and c = q and s = s, OF profile_path_tree [OF inv] q new h'r]) (simp_all add: n_def)
    then show "path_tree pn_children (pr_nodes pr') (pr_roots pr')" by (simp add: pr'_def)
    fix p m assume "pr_nodes pr' p = Some m"
    then have m: "h' p = Some m" by (simp add: pr'_def)
    show "node_at p m"
    proof (cases "p = ?r")
      case True
      with m h'r have "m = n" by simp
      then show ?thesis using True by (simp add: n_def node_at_def)
    next
      case False
      then obtain m0 where "pr_nodes pr p = Some m0" "pn_symbol m = pn_symbol m0" "pn_parent m = pn_parent m0"
        "pn_toplevel m = pn_toplevel m0"
        using m h'o [of p] h'q by (cases "pr_nodes pr p"; cases "p = q \<and> q \<noteq> []") auto
      with D(3) show ?thesis by (auto simp: node_at_def)
    qed
  next
    fix t
    obtain xs where xs: "chain pn_next (pr_nodes pr) (pr_by_symbol pr t) xs" "set xs = symbol_paths pr t"
      using D(9) by blast
    have fr: "map_option pn_next (h' y) = map_option pn_next (pr_nodes pr y)" if "y \<in> set xs" for y
      using that xs(2) fresh [of t] by (intro same) auto
    show "\<exists>xs. chain pn_next (pr_nodes pr') (pr_by_symbol pr' t) xs \<and> set xs = symbol_paths pr' t"
    proof (cases "t = s")
      case True
      have "chain pn_next h' (Some ?r) (?r # xs)"
        by (rule chain_new_next [OF xs(1) h'r _ _ fr]) (use True xs(2) fresh n_def in auto)
      then show ?thesis using True xs(2) syms [of t] by (intro exI [of _ "?r # xs"]) (simp add: pr'_def)
    next
      case False
      have "chain pn_next h' (pr_by_symbol pr t) xs" using xs(1) chain_frame [of xs pn_next h' "pr_nodes pr"] fr by simp
      then show ?thesis using False xs(2) syms [of t] by (intro exI [of _ xs]) (simp add: pr'_def)
    qed
  qed
  have tot: "tree_total pr' p = tree_total pr p" "tree_self pr' p = tree_self pr p" for p
  proof -
    have eq: "(case x of None \<Rightarrow> 0 | Some m \<Rightarrow> f m) = (case map_option f x of None \<Rightarrow> 0 | Some k \<Rightarrow> k)"
      for x :: "profile_node option" and f :: "profile_node \<Rightarrow> u32" by (cases x) auto
    have "pr_nodes pr ?r = None" using new by auto
    then show "tree_total pr' p = tree_total pr p" "tree_self pr' p = tree_self pr p"
      using h'r same(2,3) [of p] unfolding tree_total_def tree_self_def eq [where f = pn_total] eq [where f = pn_self]
      by (cases "p = ?r"; simp add: pr'_def n_def)+
  qed
  with run inv' show ?thesis by (auto simp: pr'_def d)
qed

text \<open>Changing the counters of a node.\<close>

lemma bump_inv:
  assumes inv: "profile_inv pr" and r: "pr_nodes pr r = Some n"
  shows "profile_inv (pr\<lparr>pr_nodes := (pr_nodes pr)(r \<mapsto> n\<lparr>pn_total := a, pn_self := b\<rparr>)\<rparr>)"
    (is "profile_inv ?pr")
proof -
  note D = profile_invD [OF inv]
  have dom: "dom (pr_nodes ?pr) = dom (pr_nodes pr)" using r by auto
  have paths: "symbol_paths ?pr s = symbol_paths pr s" for s
    unfolding symbol_paths_def dom by simp
  show ?thesis
    unfolding profile_inv_def paths
  proof (intro conjI allI impI)
    show "path_tree pn_children (pr_nodes ?pr) (pr_roots ?pr)"
    proof -
      have "path_tree pn_children (pr_nodes ?pr) (pr_roots pr)"
        by (rule path_tree_cong [OF profile_path_tree [OF inv]]) (use r in auto)
      then show ?thesis by simp
    qed
    fix p m assume "pr_nodes ?pr p = Some m"
    then show "node_at p m" using D(3) r by (auto simp: node_at_def split: if_splits)
  next
    fix s
    obtain xs where xs: "chain pn_next (pr_nodes pr) (pr_by_symbol pr s) xs" "set xs = symbol_paths pr s"
      using D(9) by blast
    have "chain pn_next (pr_nodes ?pr) (pr_by_symbol pr s) xs \<longleftrightarrow> chain pn_next (pr_nodes pr) (pr_by_symbol pr s) xs"
      by (rule chain_frame) (use r in auto)
    with xs show "\<exists>xs. chain pn_next (pr_nodes ?pr) (pr_by_symbol ?pr s) xs \<and> set xs = symbol_paths pr s" by auto
  qed
qed

definition grown :: "profile \<Rightarrow> profile \<Rightarrow> pnref set \<Rightarrow> (pnref \<Rightarrow> u32) \<Rightarrow> (pnref \<Rightarrow> u32) \<Rightarrow> bool" where
  "grown pr pr' new tot own \<longleftrightarrow> dom (pr_nodes pr') = dom (pr_nodes pr) \<union> new \<and>
     (\<forall>p. tree_total pr' p = tree_total pr p + tot p) \<and> (\<forall>p. tree_self pr' p = tree_self pr p + own p) \<and>
     pr_functions pr' = pr_functions pr \<and> pr_n_bytes pr' = pr_n_bytes pr"

lemma add_frame_spec:
  assumes inv: "profile_inv pr" and q: "q = [] \<or> q \<in> dom (pr_nodes pr)"
  shows "\<exists>pr'. add_frame sz inner (par q) (set q) s pr = Some (pr', q @ [s]) \<and> profile_inv pr' \<and>
    grown pr pr' {q @ [s]} (\<lambda>p. if p = q @ [s] then sz else 0) (\<lambda>p. if inner \<and> p = q @ [s] then sz else 0)"
proof -
  note D = profile_invD [OF inv]
  obtain rs where rs: "siblings pr (par q) = Some rs" "set rs = kid_paths pr q"
    using siblings_inv [OF inv q] by blast
  have "\<exists>n. pr_nodes pr r = Some n \<and> pn_symbol n = last r \<and> r \<noteq> [] \<and> butlast r = q" if "r \<in> set rs" for r
    using that rs(2) D(2,3) by (fastforce simp: kid_paths_def node_at_def)
  then have m: "match_node (pr_nodes pr) s rs None = Some (if q @ [s] \<in> set rs then Some (q @ [s]) else None)"
    by (rule match_node_spec)
  have mem: "q @ [s] \<in> set rs \<longleftrightarrow> q @ [s] \<in> dom (pr_nodes pr)" using rs(2) by (auto simp: kid_paths_def)
  have "\<exists>pr1. (case (if q @ [s] \<in> set rs then Some (q @ [s]) else None) of Some r \<Rightarrow> Some (pr, r)
        | None \<Rightarrow> new_profile_node (par q) (set q) s pr) = Some (pr1, q @ [s]) \<and> profile_inv pr1 \<and>
      dom (pr_nodes pr1) = insert (q @ [s]) (dom (pr_nodes pr)) \<and>
      (\<forall>p. tree_total pr1 p = tree_total pr p) \<and> (\<forall>p. tree_self pr1 p = tree_self pr p) \<and>
      pr_functions pr1 = pr_functions pr \<and> pr_n_bytes pr1 = pr_n_bytes pr"
  proof (cases "q @ [s] \<in> dom (pr_nodes pr)")
    case True
    with mem inv show ?thesis by auto
  next
    case False
    from new_profile_node_spec [OF inv q False] mem False show ?thesis by simp
  qed
  then obtain pr1 where p1: "(case (if q @ [s] \<in> set rs then Some (q @ [s]) else None) of Some r \<Rightarrow> Some (pr, r)
        | None \<Rightarrow> new_profile_node (par q) (set q) s pr) = Some (pr1, q @ [s])"
    "profile_inv pr1" "dom (pr_nodes pr1) = insert (q @ [s]) (dom (pr_nodes pr))"
    "\<forall>p. tree_total pr1 p = tree_total pr p" "\<forall>p. tree_self pr1 p = tree_self pr p"
    "pr_functions pr1 = pr_functions pr" "pr_n_bytes pr1 = pr_n_bytes pr" by blast
  obtain n where n: "pr_nodes pr1 (q @ [s]) = Some n" using p1(3) by blast
  let ?n = "n\<lparr>pn_total := pn_total n + sz, pn_self := (if inner then pn_self n + sz else pn_self n)\<rparr>"
  let ?pr = "pr1\<lparr>pr_nodes := (pr_nodes pr1)(q @ [s] \<mapsto> ?n)\<rparr>"
  have "add_frame sz inner (par q) (set q) s pr = Some (?pr, q @ [s])"
    using rs(1) m p1(1) n by (simp add: add_frame_def)
  moreover have "profile_inv ?pr" by (rule bump_inv [OF p1(2) n])
  moreover have "grown pr ?pr {q @ [s]} (\<lambda>p. if p = q @ [s] then sz else 0) (\<lambda>p. if inner \<and> p = q @ [s] then sz else 0)"
    unfolding grown_def
  proof (intro conjI allI)
    show "dom (pr_nodes ?pr) = dom (pr_nodes pr) \<union> {q @ [s]}" using p1(3) by auto
    fix p
    have "tree_total ?pr p = tree_total pr1 p + (if p = q @ [s] then sz else 0)"
      "tree_self ?pr p = tree_self pr1 p + (if inner \<and> p = q @ [s] then sz else 0)"
      using n by (auto simp: tree_total_def tree_self_def)
    with p1(4,5) show "tree_total ?pr p = tree_total pr p + (if p = q @ [s] then sz else 0)"
      "tree_self ?pr p = tree_self pr p + (if inner \<and> p = q @ [s] then sz else 0)" by simp_all
  qed (use p1 in simp_all)
  ultimately show ?thesis by blast
qed

section \<open>Recording a stack of symbols\<close>

text \<open>The loop over the frames, once their symbols are known.\<close>

fun add_symbols :: "u32 \<Rightarrow> pnref option \<Rightarrow> cstr set \<Rightarrow> cstr list \<Rightarrow> profile \<Rightarrow> profile option" where
  "add_symbols sz parent seen [] pr = Some pr"
| "add_symbols sz parent seen (s # ss) pr = do {
     (pr, r) \<leftarrow> add_frame sz (ss = []) parent seen s pr;
     add_symbols sz (Some r) (insert s seen) ss pr
   }"

lemma prefix_grow:
  "(p = q @ [s] \<or> (prefix p (q @ [s] @ ss) \<and> length (q @ [s]) < length p)) \<longleftrightarrow>
   prefix p (q @ s # ss) \<and> length q < length p"
proof -
  have pre: "prefix p xs \<longleftrightarrow> p = take (length p) xs" for xs :: "'a list"
    by (metis append_eq_conv_conj prefix_def take_is_prefix)
  show ?thesis
  proof (cases "length p = Suc (length q)")
    case True
    then show ?thesis unfolding pre [of "q @ s # ss"] by simp
  next
    case False
    then show ?thesis by auto
  qed
qed

lemma add_symbols_spec:
  "profile_inv pr \<Longrightarrow> q = [] \<or> q \<in> dom (pr_nodes pr) \<Longrightarrow>
   \<exists>pr'. add_symbols sz (par q) (set q) ss pr = Some pr' \<and> profile_inv pr' \<and>
     grown pr pr' {p. prefix p (q @ ss) \<and> length q < length p}
       (\<lambda>p. if prefix p (q @ ss) \<and> length q < length p then sz else 0)
       (\<lambda>p. if ss \<noteq> [] \<and> p = q @ ss then sz else 0)"
proof (induction ss arbitrary: q pr)
  case Nil
  then show ?case by (auto simp: grown_def dest: prefix_length_le)
next
  case (Cons s ss)
  obtain pr1 where p1: "add_frame sz (ss = []) (par q) (set q) s pr = Some (pr1, q @ [s])" "profile_inv pr1"
    and g1: "grown pr pr1 {q @ [s]} (\<lambda>p. if p = q @ [s] then sz else 0) (\<lambda>p. if ss = [] \<and> p = q @ [s] then sz else 0)"
    using add_frame_spec [OF Cons.prems] by blast
  have "q @ [s] = [] \<or> q @ [s] \<in> dom (pr_nodes pr1)" using g1 by (simp add: grown_def)
  from Cons.IH [OF p1(2) this] obtain pr2 where p2: "add_symbols sz (par (q @ [s])) (set (q @ [s])) ss pr1 = Some pr2"
    "profile_inv pr2" and g2: "grown pr1 pr2 {p. prefix p ((q @ [s]) @ ss) \<and> length (q @ [s]) < length p}
       (\<lambda>p. if prefix p ((q @ [s]) @ ss) \<and> length (q @ [s]) < length p then sz else 0)
       (\<lambda>p. if ss \<noteq> [] \<and> p = (q @ [s]) @ ss then sz else 0)" by blast
  have run: "add_symbols sz (par q) (set q) (s # ss) pr = Some pr2"
    using p1(1) p2(1) by (simp add: par_def insert_commute)
  have pre: "prefix p (q @ s # ss) \<and> length q < length p \<longleftrightarrow>
      p = q @ [s] \<or> (prefix p ((q @ [s]) @ ss) \<and> length (q @ [s]) < length p)" for p
    using prefix_grow [of p q s ss] by simp
  have excl: "\<not> (p = q @ [s] \<and> length (q @ [s]) < length p)" for p by auto
  have "grown pr pr2 {p. prefix p (q @ s # ss) \<and> length q < length p}
       (\<lambda>p. if prefix p (q @ s # ss) \<and> length q < length p then sz else 0)
       (\<lambda>p. if s # ss \<noteq> [] \<and> p = q @ s # ss then sz else 0)"
    unfolding grown_def pre
  proof (intro conjI allI)
    show "dom (pr_nodes pr2) = dom (pr_nodes pr) \<union>
        {p. p = q @ [s] \<or> (prefix p ((q @ [s]) @ ss) \<and> length (q @ [s]) < length p)}"
      using g1 g2 by (auto simp: grown_def)
    fix p
    show "tree_total pr2 p = tree_total pr p +
        (if p = q @ [s] \<or> (prefix p ((q @ [s]) @ ss) \<and> length (q @ [s]) < length p) then sz else 0)"
      using g1 g2 excl [of p] by (auto simp: grown_def)
    show "tree_self pr2 p = tree_self pr p + (if s # ss \<noteq> [] \<and> p = q @ s # ss then sz else 0)"
      using g1 g2 by (cases "ss = []") (auto simp: grown_def)
  qed (use g1 g2 in \<open>simp_all add: grown_def\<close>)
  with run p2(2) show ?case by blast
qed

text \<open>The call tree is the second recorder of call stacks.\<close>

definition profile_record :: "profile \<Rightarrow> cstr list \<Rightarrow> u32 \<Rightarrow> profile option" where
  "profile_record pr t sz = add_symbols sz None {} t pr"

lemma profile_record_spec:
  assumes "profile_inv pr"
  shows "\<exists>pr'. profile_record pr t sz = Some pr' \<and> profile_inv pr' \<and>
    grown pr pr' {p. p \<noteq> [] \<and> prefix p t} (\<lambda>p. if p \<noteq> [] \<and> prefix p t then sz else 0)
      (\<lambda>p. if t \<noteq> [] \<and> p = t then sz else 0)"
  using add_symbols_spec [OF assms, of "[]" sz t] by (auto simp: profile_record_def par_def conj_commute)

interpretation profile_rec: trace_recorder profile_inv "\<lambda>t. t \<noteq> []" profile_record tree_total tree_self
  "\<lambda>z. z" "\<lambda>z. z"
proof unfold_locales
  fix st :: profile and t :: "cstr list" and z :: u32
  assume "profile_inv st" "t \<noteq> []"
  with profile_record_spec [of st t z] show "\<exists>st'. profile_record st t z = Some st' \<and> profile_inv st' \<and>
      (\<forall>p. tree_total st' p = tree_total st p + (if p \<noteq> [] \<and> prefix p t then z else 0)) \<and>
      (\<forall>p. tree_self st' p = tree_self st p + (if p = t then z else 0))"
    by (auto simp: grown_def)
qed

section \<open>The traces of the blocks\<close>

fun locate_symbols ::
    "env \<Rightarrow> ptr list \<Rightarrow> mp_process \<times> inode_state \<Rightarrow> (mp_process \<times> inode_state \<times> cstr list) option" where
  "locate_symbols env [] ps = Some (fst ps, snd ps, [])"
| "locate_symbols env (a # as) ps = do {
     (p, st, name) \<leftarrow> process_locate_symbol env a ps;
     s \<leftarrow> name;
     (p, st, ss) \<leftarrow> locate_symbols env as (p, st);
     Some (p, st, s # ss)
   }"

lemma locate_symbols_length: "locate_symbols env as ps = Some (p, st, ss) \<Longrightarrow> length ss = length as"
  by (induction as arbitrary: ps p st ss) (auto simp: bind_eq_Some split: prod.splits)

definition finish :: "(mp_process \<times> inode_state \<times> 'a) option \<Rightarrow> ('a \<Rightarrow> 'b option) \<Rightarrow>
    (mp_process \<times> inode_state \<times> 'b) option" where
  "finish x f = (case x of None \<Rightarrow> None | Some (p, st, a) \<Rightarrow> map_option (\<lambda>b. (p, st, b)) (f a))"

lemma add_stack_frames_eq:
  "add_stack_frames env sz parent seen as ps pr =
     finish (locate_symbols env as ps) (\<lambda>ss. add_symbols sz parent seen ss pr)"
proof (induction as arbitrary: parent seen ps pr)
  case Nil
  then show ?case by (simp add: finish_def)
next
  case (Cons a as)
  show ?case
  proof (cases "process_locate_symbol env a ps")
    case None
    then show ?thesis by (simp add: finish_def)
  next
    case (Some r)
    obtain p st name where r: "r = (p, st, name)" by (cases r)
    show ?thesis
    proof (cases name)
      case None
      with Some r show ?thesis by (simp add: finish_def)
    next
      case name: (Some s)
      show ?thesis
      proof (cases "locate_symbols env as (p, st)")
        case None
        then show ?thesis using Some r name Cons.IH [of _ _ "(p, st)"]
          by (cases "add_frame sz (as = []) parent seen s pr") (auto simp: finish_def)
      next
        case l: (Some x)
        obtain p' st' ss where x: "x = (p', st', ss)" by (cases x)
        have "as = [] \<longleftrightarrow> ss = []" using locate_symbols_length l x by fastforce
        then show ?thesis using Some r name l x Cons.IH [of _ _ "(p, st)"]
          by (cases "add_frame sz (ss = []) parent seen s pr") (auto simp: finish_def)
      qed
    qed
  qed
qed

fun traces_of ::
    "env \<Rightarrow> (nref \<rightharpoonup> stack_node) \<Rightarrow> string set \<Rightarrow> block list \<Rightarrow> mp_process \<times> inode_state \<Rightarrow>
     (mp_process \<times> inode_state \<times> (cstr list \<times> u32) list) option" where
  "traces_of env m skip [] ps = Some (fst ps, snd ps, [])"
| "traces_of env m skip (b # bs) ps = do {
     (p, st, stack) \<leftarrow> block_create_stack_list env m skip (b_stack b) [] ps;
     (p, st, ss) \<leftarrow> locate_symbols env stack (p, st);
     (p, st, ts) \<leftarrow> traces_of env m skip bs (p, st);
     Some (p, st, (ss, b_size b) # ts)
   }"

lemma finish_Some: "finish x f = Some (p, st, b) \<longleftrightarrow> (\<exists>a. x = Some (p, st, a) \<and> f a = Some b)"
  by (auto simp: finish_def split: option.splits prod.splits)

lemma profile_build_tree_eq:
  "profile_build_tree env m skip bs ps pr =
     finish (traces_of env m skip bs ps) (\<lambda>ts. record_all profile_record pr ts)"
proof (induction bs arbitrary: ps pr)
  case Nil
  then show ?case by (simp add: finish_def)
next
  case (Cons b bs)
  show ?case
  proof (cases "block_create_stack_list env m skip (b_stack b) [] ps")
    case None
    then show ?thesis by (simp add: finish_def)
  next
    case (Some r)
    obtain p st stack where r: "r = (p, st, stack)" by (cases r)
    show ?thesis
    proof (cases "locate_symbols env stack (p, st)")
      case None
      with Some r show ?thesis
        by (simp add: profile_add_stack_trace_def add_stack_frames_eq finish_def)
    next
      case l: (Some x)
      obtain p' st' ss where x: "x = (p', st', ss)" by (cases x)
      show ?thesis
        using Some r l x Cons.IH [of "(p', st')"]
        by (cases "add_symbols (b_size b) None {} ss pr"; cases "traces_of env m skip bs (p', st')")
          (auto simp: profile_add_stack_trace_def add_stack_frames_eq finish_def profile_record_def)
    qed
  qed
qed

text \<open>An empty trace records nothing.\<close>

lemma record_all_nonempty:
  "record_all profile_record pr ts = record_all profile_record pr (filter (\<lambda>tz. fst tz \<noteq> []) ts)"
proof (induction ts arbitrary: pr)
  case Nil
  then show ?case by simp
next
  case (Cons tz ts)
  obtain t z where "tz = (t, z)" by (cases tz)
  with Cons show ?case
    by (cases "t = []"; cases "profile_record pr t z") (simp_all add: profile_record_def)
qed

lemma weight_nonempty:
  assumes "\<And>t. t = [] \<Longrightarrow> \<not> Q t"
  shows "weight_of wt Q (filter (\<lambda>tz. fst tz \<noteq> []) ts) = weight_of wt Q ts"
  using assms by (induction ts) (auto simp: weight_of_def)

definition trace_paths :: "(cstr list \<times> u32) list \<Rightarrow> pnref set" where
  "trace_paths ts = {p. p \<noteq> [] \<and> (\<exists>(t, z) \<in> set ts. prefix p t)}"

lemma record_all_dom:
  "profile_inv pr \<Longrightarrow> record_all profile_record pr ts = Some pr' \<Longrightarrow>
   dom (pr_nodes pr') = dom (pr_nodes pr) \<union> trace_paths ts \<and> pr_functions pr' = pr_functions pr"
proof (induction ts arbitrary: pr)
  case Nil
  then show ?case by (simp add: trace_paths_def)
next
  case (Cons tz ts)
  obtain t z where tz: "tz = (t, z)" by (cases tz)
  from profile_record_spec [OF Cons.prems(1), of t z] obtain pr1 where
    p1: "profile_record pr t z = Some pr1" "profile_inv pr1"
      "dom (pr_nodes pr1) = dom (pr_nodes pr) \<union> {p. p \<noteq> [] \<and> prefix p t}" "pr_functions pr1 = pr_functions pr"
    by (auto simp: grown_def)
  with Cons.prems(2) tz have "record_all profile_record pr1 ts = Some pr'" by simp
  from Cons.IH [OF p1(2) this] p1(3,4) show ?case by (auto simp: trace_paths_def tz)
qed

text \<open>What the call tree holds after all the traces.\<close>

lemma build_tree_spec:
  shows "\<exists>pr. record_all profile_record empty_profile ts = Some pr \<and> profile_inv pr \<and>
    dom (pr_nodes pr) = trace_paths ts \<and> pr_functions pr = [] \<and>
    (\<forall>p. tree_total pr p = weight_of (\<lambda>z. z) (\<lambda>t. p \<noteq> [] \<and> prefix p t) ts) \<and>
    (\<forall>p. tree_self pr p = weight_of (\<lambda>z. z) (\<lambda>t. p \<noteq> [] \<and> p = t) ts)"
proof -
  let ?ts = "filter (\<lambda>tz. fst tz \<noteq> []) ts"
  have "list_all ((\<lambda>t. t \<noteq> []) \<circ> fst) ?ts" by (simp add: list_all_iff)
  from profile_rec.record_all_spec [OF empty_profile_inv this] obtain pr where
    pr: "record_all profile_record empty_profile ?ts = Some pr" "profile_inv pr"
      "\<forall>p. tree_total pr p = tree_total empty_profile p + weight_of (\<lambda>z. z) (\<lambda>t. p \<noteq> [] \<and> prefix p t) ?ts"
      "\<forall>p. tree_self pr p = tree_self empty_profile p + weight_of (\<lambda>z. z) (\<lambda>t. p = t) ?ts" by blast
  have run: "record_all profile_record empty_profile ts = Some pr" using pr(1) record_all_nonempty by simp
  have "weight_of (\<lambda>z. z) (\<lambda>t. p = t) ?ts = weight_of (\<lambda>z. z) (\<lambda>t. p \<noteq> [] \<and> p = t) ts" for p :: pnref
  proof -
    have "weight_of (\<lambda>z. z) (\<lambda>t. p = t) ?ts = weight_of (\<lambda>z. z) (\<lambda>t. p \<noteq> [] \<and> p = t) ?ts"
      by (induction ts) (auto simp: weight_of_def)
    then show ?thesis by (simp add: weight_nonempty)
  qed
  moreover have "weight_of (\<lambda>z. z) (\<lambda>t. p \<noteq> [] \<and> prefix p t) ?ts = weight_of (\<lambda>z. z) (\<lambda>t. p \<noteq> [] \<and> prefix p t) ts"
    for p :: pnref by (rule weight_nonempty) auto
  moreover have "tree_total empty_profile p = 0" "tree_self empty_profile p = 0" for p
    by (simp_all add: tree_total_def tree_self_def empty_profile_def)
  moreover have "dom (pr_nodes pr) = trace_paths ts \<and> pr_functions pr = []"
    using record_all_dom [OF empty_profile_inv run] by (simp add: empty_profile_def)
  ultimately show ?thesis using run pr by auto
qed

section \<open>The sums over the nodes of a symbol\<close>

lemma sum_nodes_chain:
  "chain pn_next h l xs \<Longrightarrow> sum_nodes h l a b =
     Some (a + (\<Sum>p \<leftarrow> xs. if pn_toplevel (the (h p)) then pn_total (the (h p)) else 0),
       b + (\<Sum>p \<leftarrow> xs. pn_self (the (h p))))"
proof (induction xs arbitrary: l a b)
  case Nil
  then show ?case by (subst sum_nodes.simps) simp
next
  case (Cons x xs)
  then obtain n where "l = Some x" "h x = Some n" "chain pn_next h (pn_next n) xs" by auto
  with Cons.IH [of "pn_next n"] show ?case by (subst sum_nodes.simps) (simp add: add.assoc)
qed

lemma function_sums:
  assumes inv: "profile_inv pr" and r: "pr_by_symbol pr s = Some r"
  shows "last r = s" and "r \<in> dom (pr_nodes pr)" and "sum_nodes (pr_nodes pr) (Some r) 0 0 =
    Some (\<Sum>p \<in> {p \<in> dom (pr_nodes pr). first_for s p}. tree_total pr p, \<Sum>p \<in> symbol_paths pr s. tree_self pr p)"
proof -
  note D = profile_invD [OF inv]
  obtain xs where xs: "chain pn_next (pr_nodes pr) (Some r) xs" "set xs = symbol_paths pr s"
    using D(9) [of s] r by auto
  have d: "distinct xs" by (rule chain_distinct [OF xs(1)])
  have "r \<in> set xs" using xs(1) by (cases xs) auto
  with xs(2) show "last r = s" "r \<in> dom (pr_nodes pr)" by (auto simp: symbol_paths_def)
  have fin: "finite (symbol_paths pr s)" using xs(2) by (metis List.finite_set)
  have top: "pn_toplevel (the (pr_nodes pr p)) \<longleftrightarrow> first_for s p" if p: "p \<in> symbol_paths pr s" for p
  proof -
    obtain n where n: "pr_nodes pr p = Some n" "last p = s" using p by (auto simp: symbol_paths_def)
    have "p \<noteq> []" using n(1) D(2) by auto
    then have "p = butlast p @ [s]" using n(2) by (metis append_butlast_last_id)
    then have "first_for s p \<longleftrightarrow> s \<notin> set (butlast p)"
      unfolding first_for_def by (metis append1_eq_conv)
    with D(3) [OF n(1)] n show ?thesis by (simp add: node_at_def)
  qed
  have tt: "pn_total (the (pr_nodes pr p)) = tree_total pr p" "pn_self (the (pr_nodes pr p)) = tree_self pr p"
    if "p \<in> symbol_paths pr s" for p
    using that by (auto simp: symbol_paths_def tree_total_def tree_self_def)
  have "(\<Sum>p \<leftarrow> xs. if pn_toplevel (the (pr_nodes pr p)) then pn_total (the (pr_nodes pr p)) else 0) =
      (\<Sum>p \<in> symbol_paths pr s. if first_for s p then tree_total pr p else 0)"
    unfolding sum_list_distinct_conv_sum_set [OF d] xs(2) by (rule sum.cong) (simp_all add: top tt)
  also have "\<dots> = (\<Sum>p \<in> {p \<in> symbol_paths pr s. first_for s p}. tree_total pr p)"
    by (rule sum.inter_filter [OF fin, symmetric])
  also have "{p \<in> symbol_paths pr s. first_for s p} = {p \<in> dom (pr_nodes pr). first_for s p}"
    by (auto simp: symbol_paths_def first_for_def)
  finally have t: "(\<Sum>p \<leftarrow> xs. if pn_toplevel (the (pr_nodes pr p)) then pn_total (the (pr_nodes pr p)) else 0) =
      (\<Sum>p \<in> {p \<in> dom (pr_nodes pr). first_for s p}. tree_total pr p)" .
  have "(\<Sum>p \<leftarrow> xs. pn_self (the (pr_nodes pr p))) = (\<Sum>p \<in> symbol_paths pr s. tree_self pr p)"
    unfolding sum_list_distinct_conv_sum_set [OF d] xs(2) by (rule sum.cong) (simp_all add: tt)
  with t show "sum_nodes (pr_nodes pr) (Some r) 0 0 =
    Some (\<Sum>p \<in> {p \<in> dom (pr_nodes pr). first_for s p}. tree_total pr p, \<Sum>p \<in> symbol_paths pr s. tree_self pr p)"
    by (simp add: sum_nodes_chain [OF xs(1)])
qed

lemma by_symbol_dom:
  assumes inv: "profile_inv pr" and d: "dom (pr_nodes pr) = trace_paths ts"
  shows "dom (pr_by_symbol pr) = (\<Union>(t, z) \<in> set ts. set t)"
proof (rule set_eqI)
  fix s
  obtain xs where xs: "chain pn_next (pr_nodes pr) (pr_by_symbol pr s) xs" "set xs = symbol_paths pr s"
    using profile_invD(9) [OF inv] by blast
  have "s \<in> dom (pr_by_symbol pr) \<longleftrightarrow> symbol_paths pr s \<noteq> {}"
    using xs by (cases "pr_by_symbol pr s"; cases xs) auto
  also have "\<dots> \<longleftrightarrow> (\<exists>(t, z) \<in> set ts. s \<in> set t)"
  proof
    assume "symbol_paths pr s \<noteq> {}"
    then obtain p t z where "(t, z) \<in> set ts" "p \<noteq> []" "prefix p t" "last p = s"
      by (auto simp: symbol_paths_def d trace_paths_def)
    then show "\<exists>(t, z) \<in> set ts. s \<in> set t" by (metis case_prodI last_in_set set_mono_prefix subsetD)
  next
    assume "\<exists>(t, z) \<in> set ts. s \<in> set t"
    then obtain t z where tz: "(t, z) \<in> set ts" "s \<in> set t" by blast
    from first_for_exists [OF tz(2)] obtain p where "first_for s p" "prefix p t" by blast
    with tz(1) have "p \<in> symbol_paths pr s"
      by (force simp: symbol_paths_def d trace_paths_def first_for_def)
    then show "symbol_paths pr s \<noteq> {}" by blast
  qed
  finally show "s \<in> dom (pr_by_symbol pr) \<longleftrightarrow> s \<in> (\<Union>(t, z) \<in> set ts. set t)" by auto
qed

lemma self_weight:
  assumes "finite P" and "\<And>t z. (t, z) \<in> set ts \<Longrightarrow> t \<noteq> [] \<Longrightarrow> t \<in> P"
  shows "(\<Sum>p \<in> {p \<in> P. Q p}. weight_of wt (\<lambda>t. p \<noteq> [] \<and> p = t) ts) = weight_of wt (\<lambda>t. t \<noteq> [] \<and> Q t) ts"
  using assms(2)
proof (induction ts)
  case Nil
  then show ?case by simp
next
  case (Cons tz ts)
  obtain t z where tz: "tz = (t, z)" by (cases tz)
  have "(\<Sum>p \<in> {p \<in> P. Q p}. if p \<noteq> [] \<and> p = t then wt z else 0) =
      (\<Sum>p \<in> {p \<in> P. Q p}. if p = t then (if t \<noteq> [] then wt z else 0) else 0)"
    by (rule sum.cong) auto
  also have "\<dots> = (if t \<in> {p \<in> P. Q p} then (if t \<noteq> [] then wt z else 0) else 0)"
    by (rule sum.delta) (use assms(1) in simp)
  also have "\<dots> = (if t \<noteq> [] \<and> Q t then wt z else 0)" using Cons.prems [of t z] tz by auto
  finally have "(\<Sum>p \<in> {p \<in> P. Q p}. if p \<noteq> [] \<and> p = t then wt z else 0) =
      (if t \<noteq> [] \<and> Q t then wt z else 0)" .
  moreover have "(\<Sum>p \<in> {p \<in> P. Q p}. weight_of wt (\<lambda>t. p \<noteq> [] \<and> p = t) ts) =
      weight_of wt (\<lambda>t. t \<noteq> [] \<and> Q t) ts"
    by (rule Cons.IH) (use Cons.prems in auto)
  ultimately show ?case by (simp add: tz sum.distrib)
qed

text \<open>What a function of the profile says about its symbol.\<close>

definition describes :: "(cstr list \<times> u32) list \<Rightarrow> cstr \<Rightarrow> profile_func \<Rightarrow> bool" where
  "describes ts s f \<longleftrightarrow> pf_total f = weight_of (\<lambda>z. z) (\<lambda>t. s \<in> set t) ts \<and>
     pf_self f = weight_of (\<lambda>z. z) (\<lambda>t. t \<noteq> [] \<and> last t = s) ts \<and>
     (\<exists>p. pf_node f = Some p \<and> p \<noteq> [] \<and> last p = s)"

lemma function_describes:
  assumes inv: "profile_inv pr" and d: "dom (pr_nodes pr) = trace_paths ts"
    and tot: "\<forall>p. tree_total pr p = weight_of (\<lambda>z. z) (\<lambda>t. p \<noteq> [] \<and> prefix p t) ts"
    and own: "\<forall>p. tree_self pr p = weight_of (\<lambda>z. z) (\<lambda>t. p \<noteq> [] \<and> p = t) ts"
    and s: "s \<in> dom (pr_by_symbol pr)"
  shows "\<exists>f. describes ts s f \<and> add_function s pr = Some (pr\<lparr>pr_functions := pr_functions pr @ [f]\<rparr>)"
proof -
  from s obtain r where r: "pr_by_symbol pr s = Some r" by blast
  note sums = function_sums [OF inv r]
  note fin = profile_invD(1) [OF inv]
  have ne: "r \<noteq> []" using sums(2) profile_invD(2) [OF inv] by auto
  have "(\<Sum>p \<in> {p \<in> dom (pr_nodes pr). first_for s p}. tree_total pr p) = weight_of (\<lambda>z. z) (\<lambda>t. s \<in> set t) ts"
    unfolding tot [rule_format] by (rule inclusive_weight [OF fin]) (auto simp: d trace_paths_def first_for_def)
  moreover have "(\<Sum>p \<in> symbol_paths pr s. tree_self pr p) = weight_of (\<lambda>z. z) (\<lambda>t. t \<noteq> [] \<and> last t = s) ts"
    unfolding own [rule_format] symbol_paths_def by (rule self_weight [OF fin]) (auto simp: d trace_paths_def)
  ultimately have "sum_nodes (pr_nodes pr) (Some r) 0 0 = Some (weight_of (\<lambda>z. z) (\<lambda>t. s \<in> set t) ts,
      weight_of (\<lambda>z. z) (\<lambda>t. t \<noteq> [] \<and> last t = s) ts)" using sums(3) by simp
  with sums(1) r ne show ?thesis
    by (intro exI [of _ "\<lparr>pf_total = weight_of (\<lambda>z. z) (\<lambda>t. s \<in> set t) ts,
      pf_self = weight_of (\<lambda>z. z) (\<lambda>t. t \<noteq> [] \<and> last t = s) ts, pf_node = Some r\<rparr>"])
      (simp add: add_function_def describes_def)
qed

lemma add_functions_spec:
  assumes "\<And>s fs. s \<in> set ss \<Longrightarrow> \<exists>f. describes ts s f \<and>
    add_function s (pr\<lparr>pr_functions := fs\<rparr>) = Some (pr\<lparr>pr_functions := fs @ [f]\<rparr>)"
  shows "\<exists>gs. add_functions ss (pr\<lparr>pr_functions := fs\<rparr>) = Some (pr\<lparr>pr_functions := fs @ gs\<rparr>) \<and>
    list_all2 (describes ts) ss gs"
  using assms
proof (induction ss arbitrary: fs)
  case Nil
  then show ?case by simp
next
  case (Cons s ss)
  obtain f where f: "describes ts s f"
    "add_function s (pr\<lparr>pr_functions := fs\<rparr>) = Some (pr\<lparr>pr_functions := fs @ [f]\<rparr>)"
    using Cons.prems [of s fs] by auto
  obtain gs where gs: "add_functions ss (pr\<lparr>pr_functions := fs @ [f]\<rparr>) = Some (pr\<lparr>pr_functions := (fs @ [f]) @ gs\<rparr>)"
    "list_all2 (describes ts) ss gs" using Cons.IH [of "fs @ [f]"] Cons.prems by auto
  show ?case
    by (rule exI [of _ "f # gs"]) (use f gs in simp)
qed

lemma add_function_fields:
  "profile_inv (pr\<lparr>pr_n_bytes := n, pr_functions := fs\<rparr>) \<longleftrightarrow> profile_inv pr"
  "tree_total (pr\<lparr>pr_n_bytes := n, pr_functions := fs\<rparr>) = tree_total pr"
  "tree_self (pr\<lparr>pr_n_bytes := n, pr_functions := fs\<rparr>) = tree_self pr"
  by (simp_all add: profile_inv_def kid_paths_def symbol_paths_def tree_total_def [abs_def] tree_self_def [abs_def])

lemma sum_sizes_traces:
  "traces_of env m skip bs ps = Some (p, s, ts) \<Longrightarrow> sum_sizes bs n = n + weight_of (\<lambda>z. z) (\<lambda>t. True) ts"
proof (induction bs arbitrary: ps p s ts n)
  case Nil
  then show ?case by simp
next
  case (Cons b bs)
  then obtain ps1 ss us where us: "traces_of env m skip bs ps1 = Some (p, s, us)" "ts = (ss, b_size b) # us"
    by (auto simp: bind_eq_Some split: prod.splits)
  from Cons.IH [OF us(1)] show ?case by (simp add: us(2) add.assoc)
qed

definition enumerates_symbols :: "((cstr \<rightharpoonup> pnref) \<Rightarrow> cstr list) \<Rightarrow> bool" where
  "enumerates_symbols enum \<longleftrightarrow> (\<forall>m. finite (dom m) \<longrightarrow> enumerates enum dom m)"

lemma profile_create_spec:
  assumes each: "process_block_foreach enumb i w = Some (w1, rs)" and bs: "blocks_at (w_blocks w1) (rev rs) = Some bs"
    and p: "w_procs w1 i = Some p"
    and ts: "traces_of env (nodes (w_nodes w1)) (set skip) bs (p, w_inodes w1) = Some (q, s, ts)"
    and e: "enumerates_symbols enums"
  shows "\<exists>pr ss. profile_create env enumb enums skip i w = Some (put i q (w1\<lparr>w_inodes := s\<rparr>), pr) \<and>
    profile_inv pr \<and> dom (pr_nodes pr) = trace_paths ts \<and>
    pr_n_bytes pr = weight_of (\<lambda>z. z) (\<lambda>t. True) ts \<and>
    (\<forall>p. tree_total pr p = weight_of (\<lambda>z. z) (\<lambda>t. p \<noteq> [] \<and> prefix p t) ts) \<and>
    (\<forall>p. tree_self pr p = weight_of (\<lambda>z. z) (\<lambda>t. p \<noteq> [] \<and> p = t) ts) \<and>
    distinct ss \<and> set ss = (\<Union>(t, z) \<in> set ts. set t) \<and> list_all2 (describes ts) ss (pr_functions pr)"
proof -
  obtain pr where pr: "record_all profile_record empty_profile ts = Some pr" "profile_inv pr"
    "dom (pr_nodes pr) = trace_paths ts" "pr_functions pr = []"
    and tot: "\<forall>p. tree_total pr p = weight_of (\<lambda>z. z) (\<lambda>t. p \<noteq> [] \<and> prefix p t) ts"
    and own: "\<forall>p. tree_self pr p = weight_of (\<lambda>z. z) (\<lambda>t. p \<noteq> [] \<and> p = t) ts"
    using build_tree_spec by blast
  have build: "profile_build_tree env (nodes (w_nodes w1)) (set skip) bs (p, w_inodes w1) empty_profile = Some (q, s, pr)"
    using ts pr(1) by (simp add: profile_build_tree_eq finish_def)
  let ?n = "sum_sizes bs 0"
  have n: "?n = weight_of (\<lambda>z. z) (\<lambda>t. True) ts" using sum_sizes_traces [OF ts] by simp
  let ?ss = "enums (pr_by_symbol pr)"
  have syms: "dom (pr_by_symbol pr) = (\<Union>(t, z) \<in> set ts. set t)" by (rule by_symbol_dom [OF pr(2,3)])
  then have "finite (dom (pr_by_symbol pr))" by auto
  with e have ss: "distinct ?ss" "set ?ss = dom (pr_by_symbol pr)" by (auto simp: enumerates_symbols_def enumerates_def)
  let ?pr = "pr\<lparr>pr_n_bytes := ?n\<rparr>"
  have f: "\<exists>f. describes ts t f \<and>
      add_function t (?pr\<lparr>pr_functions := fs\<rparr>) = Some (?pr\<lparr>pr_functions := fs @ [f]\<rparr>)" if t: "t \<in> set ?ss" for t fs
  proof -
    have "\<exists>f. describes ts t f \<and> add_function t (pr\<lparr>pr_n_bytes := ?n, pr_functions := fs\<rparr>) =
        Some (pr\<lparr>pr_n_bytes := ?n, pr_functions := fs\<rparr>\<lparr>pr_functions :=
          pr_functions (pr\<lparr>pr_n_bytes := ?n, pr_functions := fs\<rparr>) @ [f]\<rparr>)"
      by (rule function_describes) (use pr tot own t ss in \<open>simp_all add: add_function_fields\<close>)
    then show ?thesis by simp
  qed
  obtain gs where gs: "add_functions ?ss (?pr\<lparr>pr_functions := []\<rparr>) = Some (?pr\<lparr>pr_functions := [] @ gs\<rparr>)"
    "list_all2 (describes ts) ?ss gs" using add_functions_spec [of ?ss ts ?pr "[]", OF f] by blast
  have "?pr\<lparr>pr_functions := []\<rparr> = ?pr" using pr(4) by (cases pr) simp
  with gs(1) have fs: "add_functions ?ss ?pr = Some (?pr\<lparr>pr_functions := gs\<rparr>)" by simp
  let ?r = "pr\<lparr>pr_n_bytes := ?n, pr_functions := gs\<rparr>"
  have "profile_create env enumb enums skip i w = Some (put i q (w1\<lparr>w_inodes := s\<rparr>), ?r)"
    using each bs p build fs by (simp add: profile_create_def Let_def)
  moreover have "profile_inv ?r \<and> dom (pr_nodes ?r) = trace_paths ts"
    using pr(2,3) add_function_fields(1) [where pr = pr and n = ?n and fs = gs] by simp
  moreover have "tree_total ?r p = tree_total pr p" "tree_self ?r p = tree_self pr p" for p
    using add_function_fields(2,3) [where pr = pr and n = ?n and fs = gs] by simp_all
  ultimately show ?thesis using n tot own ss syms gs(2)
    by (intro exI [of _ ?r] exI [of _ ?ss]) simp
qed

section \<open>Freeing the tree\<close>

interpretation profile_freeing: tree_freeing pn_children free_profile_nodes profile_free
  by unfold_locales (simp_all add: free_profile_nodes.simps profile_node_free_def)

section \<open>Properties\<close>

text \<open>
  Property C5: \<open>profile_create\<close> returns whenever the stacks can be walked and every frame has a
  symbol. The call tree then holds, for every path of symbols, the bytes of the blocks whose
  stack begins with it and of those whose stack is the path; the list of functions has one entry
  for each symbol that occurs, with the bytes of the blocks in whose stack it occurs, each
  counted once however often it recurs, and of those it allocated itself.
\<close>

theorem profile_create_correct:
  assumes "process_block_foreach enumb i w = Some (w1, rs)" and "blocks_at (w_blocks w1) (rev rs) = Some bs"
    and "w_procs w1 i = Some p"
    and "traces_of env (nodes (w_nodes w1)) (set skip) bs (p, w_inodes w1) = Some (q, s, ts)"
    and "enumerates_symbols enums"
  shows "\<exists>pr ss. profile_create env enumb enums skip i w = Some (put i q (w1\<lparr>w_inodes := s\<rparr>), pr) \<and>
    profile_inv pr \<and> dom (pr_nodes pr) = trace_paths ts \<and>
    pr_n_bytes pr = weight_of (\<lambda>z. z) (\<lambda>t. True) ts \<and>
    (\<forall>p. tree_total pr p = weight_of (\<lambda>z. z) (\<lambda>t. p \<noteq> [] \<and> prefix p t) ts) \<and>
    (\<forall>p. tree_self pr p = weight_of (\<lambda>z. z) (\<lambda>t. p \<noteq> [] \<and> p = t) ts) \<and>
    distinct ss \<and> set ss = (\<Union>(t, z) \<in> set ts. set t) \<and> list_all2 (describes ts) ss (pr_functions pr)"
  by (rule profile_create_spec [OF assms])

text \<open>Property C29: \<open>profile_free\<close> frees every node of a call tree exactly once.\<close>

theorem profile_free_frees_all:
  assumes "profile_inv pr"
  shows "profile_free (pr_roots pr) (pr_nodes pr) = Some Map.empty"
  by (rule profile_freeing.frees_all [OF profile_path_tree [OF assms]])

text \<open>Strings in an order: by where their pointer comes from, then by their text.\<close>

definition origin_key :: "str_origin \<Rightarrow> nat \<times> nat" where
  "origin_key c = (case c of Literal \<Rightarrow> (0, 0) | Strdup n \<Rightarrow> (1, n) | Inode_Name n \<Rightarrow> (2, n) | Bfd_Name n \<Rightarrow> (3, n))"

definition cstr_key :: "cstr \<Rightarrow> (nat \<times> nat) \<times> string" where
  "cstr_key s = (origin_key (str_origin s), text_of s)"

lemma cstr_key_inj: "cstr_key a = cstr_key b \<Longrightarrow> a = b"
  by (cases a; cases b) (auto simp: cstr_key_def origin_key_def split: str_origin.splits)

instantiation cstr :: linorder
begin

definition less_eq_cstr :: "cstr \<Rightarrow> cstr \<Rightarrow> bool" where
  "less_eq_cstr a b \<longleftrightarrow> cstr_key a \<le> cstr_key b"

definition less_cstr :: "cstr \<Rightarrow> cstr \<Rightarrow> bool" where
  "less_cstr a b \<longleftrightarrow> cstr_key a < cstr_key b"

instance
  by standard (auto simp: less_eq_cstr_def less_cstr_def intro: cstr_key_inj)

end

definition by_symbol :: "(cstr \<rightharpoonup> pnref) \<Rightarrow> cstr list" where
  "by_symbol m = sorted_list_of_set (dom m)"

lemma by_symbol_enumerates: "enumerates_symbols by_symbol"
  by (simp add: enumerates_symbols_def enumerates_def by_symbol_def)

text \<open>An instance: the one block of \<open>demo_world\<close>, five bytes allocated in \<open>main\<close>.\<close>

lemma prog_main:
  assumes "p_map_list p = [prog_map]"
  shows "process_locate_symbol prog_env 0x1280 (p, s) = Some (p, s, Some (CStr Literal ''main''))"
proof -
  have loc: "locate_map prog_env 0x1280 (p, s) = Some (p, s, Some prog_map)"
    using assms by (cases p) (simp add: locate_map_def in_map_def use_map_def prog_map_def Let_def)
  let ?d = "the (m_symbols prog_map)"
  have d: "length ?d = 3" "at ?d 2 = Some \<lparr>s_addr = 0x1400, s_size = 0, s_name = CStr Literal ''last''\<rparr>"
    "at ?d (Suc 0) = Some \<lparr>s_addr = 0x1200, s_size = 0, s_name = CStr Literal ''main''\<rparr>"
    by (simp_all add: prog_map_def at_def)
  have "bracket_loop (\<lambda>i. map_option s_addr (at ?d i)) 0x1280 0 2 = Some 1"
    by (subst bracket_loop.simps, simp add: d, subst bracket_loop.simps, simp)
  then have "symbol_search ?d 0x1280 0 2 = Some 1" by (simp add: symbol_search_def)
  then have "find_symbol ?d 0x1280 = Some (CStr Literal ''main'')"
    using d by (simp add: find_symbol_def)
  with loc show ?thesis by (simp add: process_locate_symbol_def) (simp add: prog_map_def)
qed

lemma prog_first:
  assumes "p_map_list p = []" and "p_pid p = 7" and "p_bad_pages p = []" and "p_strings p = 0"
  shows "process_locate_symbol prog_env 0x1280 (p, no_inodes) =
    Some (p\<lparr>p_map_list := [prog_map], p_strings := 1\<rparr>, no_inodes, Some (CStr Literal ''main''))"
proof -
  have loc: "locate_map prog_env 0x1280 (p, no_inodes) =
      Some (p\<lparr>p_map_list := [prog_map], p_strings := 1\<rparr>, no_inodes, Some prog_map)"
    using assms by (cases p) (simp add: locate_map_def process_read_maps_def prog_env_def lib_env_def prog_line
      read_map_line_def in_map_def use_map_def prepare_map_def prog_syms_def text_symbol_def prog_map_def Let_def)
  have "locate_map prog_env 0x1280 (p\<lparr>p_map_list := [prog_map], p_strings := 1\<rparr>, no_inodes) =
      Some (p\<lparr>p_map_list := [prog_map], p_strings := 1\<rparr>, no_inodes, Some prog_map)"
    by (cases p) (simp add: locate_map_def in_map_def use_map_def prog_map_def Let_def)
  with loc prog_main [of "p\<lparr>p_map_list := [prog_map], p_strings := 1\<rparr>" no_inodes] show ?thesis
    by (simp add: process_locate_symbol_def)
qed

definition main_symbol :: cstr where
  "main_symbol = CStr Literal ''main''"

lemma demo_traces:
  "traces_of prog_env (nodes (w_nodes demo_world)) {''xmalloc''}
     [\<lparr>b_flags = 0, b_addr = 0x10, b_size = 5, b_stack = Some (Cell 0 0), b_refcount = 1\<rparr>]
     (demo_process, no_inodes) =
   Some (demo_process\<lparr>p_map_list := [prog_map], p_strings := 1\<rparr>, no_inodes, [([main_symbol], 5)])"
proof -
  let ?p = "demo_process\<lparr>p_map_list := [prog_map], p_strings := 1\<rparr>"
  have n: "nodes (w_nodes demo_world) (Cell 0 0) = Some demo_node" by (simp add: demo_world_def)
  have f: "process_locate_symbol prog_env 0x1280 (demo_process, no_inodes) = Some (?p, no_inodes, Some main_symbol)"
    unfolding main_symbol_def by (rule prog_first) (simp_all add: demo_process_def running_process_def)
  have g: "process_locate_symbol prog_env 0x1280 (?p, no_inodes) = Some (?p, no_inodes, Some main_symbol)"
    unfolding main_symbol_def by (rule prog_main) simp
  have d: "sn_address demo_node = 0x1280" "sn_parent demo_node = None" by (simp_all add: demo_node_def)
  have "block_create_stack_list prog_env (nodes (w_nodes demo_world)) {''xmalloc''} (Some (Cell 0 0)) []
      (demo_process, no_inodes) = Some (?p, no_inodes, [0x1280])"
    by (subst block_create_stack_list.simps, simp add: n d f, subst block_create_stack_list.simps)
      (simp add: skipped_def main_symbol_def)
  with g show ?thesis by simp
qed

lemma demo_blocks:
  shows "process_block_foreach by_address 0 demo_world = Some (demo_world, [0])"
    and "blocks_at (w_blocks demo_world) (rev [0]) =
      Some [\<lparr>b_flags = 0, b_addr = 0x10, b_size = 5, b_stack = Some (Cell 0 0), b_refcount = 1\<rparr>]"
    and "w_procs demo_world 0 = Some demo_process"
    and "w_inodes demo_world = no_inodes"
proof -
  have g: "get_block_table demo_process = (demo_process, [0x10 \<mapsto> 0])"
    by (simp add: get_block_table_def demo_process_def)
  have w1: "put 0 demo_process demo_world = demo_world" by (simp add: put_def demo_world_def)
  show p: "w_procs demo_world 0 = Some demo_process" by (simp add: demo_world_def)
  show "process_block_foreach by_address 0 demo_world = Some (demo_world, [0])"
    by (simp add: process_block_foreach_def p g w1 by_address_def List.map_filter_simps)
qed (simp_all add: demo_world_def initial_world_def)

theorem profile_create_correct_witness:
  "\<exists>w' pr. profile_create prog_env by_address by_symbol [''xmalloc''] 0 demo_world = Some (w', pr) \<and>
     pr_n_bytes pr = 5 \<and> tree_total pr [main_symbol] = 5 \<and> length (pr_functions pr) = 1"
proof -
  have "set [''xmalloc''] = {''xmalloc''}" by simp
  from profile_create_correct [OF demo_blocks(1,2,3), of prog_env "[''xmalloc'']" _ _ _ by_symbol, unfolded this demo_blocks(4),
      OF demo_traces by_symbol_enumerates]
  obtain pr ss where run: "profile_create prog_env by_address by_symbol [''xmalloc''] 0 demo_world =
      Some (put 0 (demo_process\<lparr>p_map_list := [prog_map], p_strings := 1\<rparr>) (demo_world\<lparr>w_inodes := no_inodes\<rparr>), pr)"
    and pr: "profile_inv pr" "dom (pr_nodes pr) = trace_paths [([main_symbol], 5)]"
    "pr_n_bytes pr = weight_of (\<lambda>z. z) (\<lambda>t. True) [([main_symbol], 5)]"
    "\<forall>p. tree_total pr p = weight_of (\<lambda>z. z) (\<lambda>t. p \<noteq> [] \<and> prefix p t) [([main_symbol], 5)]"
    "\<forall>p. tree_self pr p = weight_of (\<lambda>z. z) (\<lambda>t. p \<noteq> [] \<and> p = t) [([main_symbol], 5)]"
    "distinct ss" "set ss = (\<Union>(t, z) \<in> set [([main_symbol], 5 :: u32)]. set t)"
    "list_all2 (describes [([main_symbol], 5)]) ss (pr_functions pr)"
    by (elim exE conjE) (rule that)
  have "card (set ss) = 1" using pr(7) by simp
  with pr(6) have "length ss = 1" by (simp add: distinct_card)
  with pr(8) have "length (pr_functions pr) = 1" by (auto dest: list_all2_lengthD)
  with run pr(3,4) show ?thesis by (intro exI conjI) (assumption | simp add: weight_of_def)+
qed

theorem profile_free_frees_all_witness:
  "\<exists>pr. profile_record empty_profile [main_symbol, main_symbol] 5 = Some pr \<and>
     profile_free (pr_roots pr) (pr_nodes pr) = Some Map.empty"
proof -
  from profile_record_spec [OF empty_profile_inv, of "[main_symbol, main_symbol]" 5] obtain pr where
    "profile_record empty_profile [main_symbol, main_symbol] 5 = Some pr" "profile_inv pr" by blast
  with profile_free_frees_all [OF this(2)] show ?thesis by blast
qed

end
