(* ===== verification/Profile_Callers.thy ===== *)
theory Profile_Callers
  imports Profile_Inv
begin

text \<open>
  The list of callers of a function: the search for the topmost pair of a caller and the
  function, the array of callers and its indices, and the sums the list ends with, stated over
  the traces the call tree was built from.
\<close>

section \<open>The callers of a function\<close>

lemma node_chain_chain: "chain pn_next h l xs \<Longrightarrow> node_chain h l = Some xs"
proof (induction xs arbitrary: l)
  case Nil
  then show ?case by (subst node_chain.simps) simp
next
  case (Cons x xs)
  then show ?case by (subst node_chain.simps) auto
qed

text \<open>The caller of the last frame of a path, \<open>None\<close> for a root; the topmost prefix with the
  same caller and callee.\<close>

definition caller_of :: "cstr list \<Rightarrow> cstr option" where
  "caller_of p = (if butlast p = [] then None else Some (last (butlast p)))"

definition same_pair :: "cstr list \<Rightarrow> cstr list \<Rightarrow> bool" where
  "same_pair p q \<longleftrightarrow> p \<noteq> [] \<and> q \<noteq> [] \<and> last p = last q \<and> caller_of p = caller_of q"

definition topmost :: "cstr list \<Rightarrow> cstr list \<Rightarrow> bool" where
  "topmost p t \<longleftrightarrow> prefix t p \<and> same_pair t p \<and> (\<forall>u. prefix u p \<and> same_pair u p \<longrightarrow> length t \<le> length u)"

lemma topmost_unique: "topmost p t \<Longrightarrow> topmost p u \<Longrightarrow> t = u"
  unfolding topmost_def by (meson le_antisym prefix_length_prefix prefix_order.antisym order_refl)

lemma topmost_topmost:
  assumes "topmost p t"
  shows "topmost t t"
proof -
  have "length t \<le> length u" if "prefix u t" "same_pair u t" for u
    using assms that unfolding topmost_def same_pair_def by (metis prefix_order.trans)
  with assms show ?thesis by (simp add: topmost_def same_pair_def)
qed

lemma caller_of_snoc: "caller_of (q @ [s]) = (if q = [] then None else Some (last q))"
  by (simp add: caller_of_def)

text \<open>The search upwards finds the topmost pair.\<close>

lemma top_pair_spec:
  assumes inv: "profile_inv pr" and p: "p \<in> dom (pr_nodes pr)" and s: "last p = s"
  shows "prefix r p \<Longrightarrow> r \<noteq> p \<Longrightarrow> prefix t0 p \<Longrightarrow> same_pair t0 p \<Longrightarrow>
    (\<forall>u. prefix u p \<and> same_pair u p \<and> length r < length u \<longrightarrow> length t0 \<le> length u) \<Longrightarrow>
    \<exists>t. top_pair (pr_nodes pr) s (par r) (par (butlast t0), t0) = Some (par (butlast t), t) \<and> topmost p t"
proof (induction r arbitrary: t0 rule: rev_induct)
  case Nil
  have "topmost p t0"
    using Nil.prems unfolding topmost_def same_pair_def by auto
  then show ?case by (subst top_pair.simps) (auto simp: par_def)
next
  case (snoc x r)
  note D = profile_invD [OF inv]
  have r: "r @ [x] \<in> dom (pr_nodes pr)" by (rule path_tree_prefix [OF profile_path_tree [OF inv] snoc.prems(1) _ p]) simp
  then obtain m where m: "pr_nodes pr (r @ [x]) = Some m" by blast
  have node: "pn_symbol m = x" "pn_parent m = par r" using D(3) [OF m] by (auto simp: node_at_def)
  have len: "length (r @ [x]) < length p"
    using snoc.prems(1,2) by (metis prefix_length_le prefix_order.eq_iff prefix_length_prefix le_neq_implies_less order_refl)
  then have "length p > 1" by simp
  then obtain q y where q: "p = q @ [y]" "q \<noteq> []" by (cases p rule: rev_cases) auto
  have cp: "caller_of p = Some (last q)" using q by (simp add: caller_of_snoc)
  show ?case
  proof (cases "r = []")
    case True
    have "topmost p t0"
      unfolding topmost_def
    proof (intro conjI allI impI)
      fix u assume u: "prefix u p \<and> same_pair u p"
      have "length u \<noteq> 1"
      proof
        assume "length u = 1"
        then have "butlast u = []" by (metis diff_self_eq_0 length_0_conv length_butlast)
        then have "caller_of u = None" by (simp add: caller_of_def)
        with u cp show False by (simp add: same_pair_def)
      qed
      then have "length (r @ [x]) < length u" using u True by (cases u) (auto simp: same_pair_def Suc_lessI)
      with snoc.prems(5) u show "length t0 \<le> length u" by blast
    qed (use snoc.prems in simp_all)
    then show ?thesis using m node True by (subst top_pair.simps) (auto simp: par_def)
  next
    case False
    have pr: "par r = Some r" "par (r @ [x]) = Some (r @ [x])" using False by (simp_all add: par_def)
    have rd: "prefix r p" using snoc.prems(1) by (metis append_prefixD)
    then have "r \<in> dom (pr_nodes pr)" using path_tree_prefix [OF profile_path_tree [OF inv] _ False p] by blast
    then obtain pm where pm: "pr_nodes pr r = Some pm" "pn_symbol pm = last r"
      using D(3) by (fastforce simp: node_at_def)
    have ct: "caller_of t0 = Some (last q)" using snoc.prems(4) cp by (simp add: same_pair_def)
    then have bt: "butlast t0 \<noteq> []" "last (butlast t0) = last q" by (auto simp: caller_of_def split: if_splits)
    have "prefix (butlast t0) p"
      using snoc.prems(3) by (metis prefix_order.trans prefixeq_butlast)
    then have "butlast t0 \<in> dom (pr_nodes pr)" using path_tree_prefix [OF profile_path_tree [OF inv] _ bt(1) p] by blast
    then obtain cm where cm: "pr_nodes pr (butlast t0) = Some cm" "pn_symbol cm = last q"
      using D(3) bt(2) by (fastforce simp: node_at_def)
    have here: "same_pair (r @ [x]) p \<longleftrightarrow> x = s \<and> last r = last q"
      using False q s cp by (auto simp: same_pair_def caller_of_snoc)
    let ?t = "if same_pair (r @ [x]) p then r @ [x] else t0"
    have step: "top_pair (pr_nodes pr) s (par (r @ [x])) (par (butlast t0), t0) =
        top_pair (pr_nodes pr) s (par r) (par (butlast ?t), ?t)"
      using m node pm cm bt(1) here False
      by (subst top_pair.simps) (simp add: par_def symbol_equal_def)
    have "\<exists>t. top_pair (pr_nodes pr) s (par r) (par (butlast ?t), ?t) = Some (par (butlast t), t) \<and> topmost p t"
    proof (rule snoc.IH [OF rd])
      show "r \<noteq> p" using len by auto
      show "prefix ?t p" "same_pair ?t p" using snoc.prems(1,3,4) by simp_all
      show "\<forall>u. prefix u p \<and> same_pair u p \<and> length r < length u \<longrightarrow> length ?t \<le> length u"
      proof (intro allI impI)
        fix u assume u: "prefix u p \<and> same_pair u p \<and> length r < length u"
        show "length ?t \<le> length u"
        proof (cases "length u = length (r @ [x])")
          case True
          with u snoc.prems(1) have "u = r @ [x]"
            by (metis order_refl prefix_length_prefix prefix_order.antisym)
          with u show ?thesis by simp
        next
          case no: False
          with u snoc.prems(5) have "length t0 \<le> length u" by simp
          with u show ?thesis by auto
        qed
      qed
    qed
    with step show ?thesis by simp
  qed
qed

lemma top_pair_start:
  assumes inv: "profile_inv pr" and p: "p \<in> dom (pr_nodes pr)"
  shows "\<exists>t. top_pair (pr_nodes pr) (last p) (par (butlast p)) (par (butlast p), p) = Some (par (butlast t), t) \<and>
    topmost p t"
proof (rule top_pair_spec [OF inv p refl])
  have ne: "p \<noteq> []" using p profile_invD(2) [OF inv] by auto
  show "prefix (butlast p) p" by (rule prefixeq_butlast)
  show "butlast p \<noteq> p" using ne by (metis append_butlast_last_id append_self_conv list.distinct(1))
  show "same_pair p p" using ne by (simp add: same_pair_def)
  show "\<forall>u. prefix u p \<and> same_pair u p \<and> length (butlast p) < length u \<longrightarrow> length p \<le> length u"
    by auto
qed simp

section \<open>The array of callers\<close>

definition caller_index :: "callers \<Rightarrow> cstr option \<Rightarrow> nat option" where
  "caller_index c k = (case k of None \<Rightarrow> ca_spontaneous c | Some s \<Rightarrow> ca_by_symbol c s)"

definition lists_callers :: "callers \<Rightarrow> cstr option list \<Rightarrow> bool" where
  "lists_callers c ks \<longleftrightarrow> distinct ks \<and> length (ca_result c) = length ks \<and>
     (\<forall>j < length ks. caller_index c (ks ! j) = Some j \<and> map_option last (pf_node (ca_result c ! j)) = ks ! j) \<and>
     (\<forall>k. k \<notin> set ks \<longrightarrow> caller_index c k = None)"

definition collect_caller :: "pnref \<Rightarrow> callers \<Rightarrow> callers" where
  "collect_caller p c = (if caller_index c (caller_of p) = None
     then (case par (butlast p) of
         Some q \<Rightarrow> c\<lparr>ca_by_symbol := (ca_by_symbol c)(last q \<mapsto> length (ca_result c)),
           ca_result := ca_result c @ [new_caller (Some q)]\<rparr>
       | None \<Rightarrow> c\<lparr>ca_spontaneous := Some (length (ca_result c)), ca_result := ca_result c @ [new_caller None]\<rparr>)
     else c)"

lemma caller_index_new:
  "caller_index (collect_caller p c) k =
     (if k = caller_of p \<and> caller_index c k = None then Some (length (ca_result c)) else caller_index c k)"
  by (auto simp: collect_caller_def caller_index_def caller_of_def par_def split: option.splits)

lemma ca_result_new:
  "ca_result (collect_caller p c) = ca_result c @
     (if caller_index c (caller_of p) = None then [new_caller (par (butlast p))] else [])"
  by (auto simp: collect_caller_def par_def)

lemma collect_caller_lists:
  assumes c: "lists_callers c ks"
  shows "lists_callers (collect_caller p c) (if caller_of p \<in> set ks then ks else ks @ [caller_of p])"
proof (cases "caller_of p \<in> set ks")
  case True
  then obtain j where "j < length ks" "ks ! j = caller_of p" by (auto simp: in_set_conv_nth)
  with c have "caller_index c (caller_of p) = Some j" by (auto simp: lists_callers_def)
  with c True show ?thesis by (simp add: collect_caller_def)
next
  case False
  with c have none: "caller_index c (caller_of p) = None" by (simp add: lists_callers_def)
  have key: "map_option last (par (butlast p)) = caller_of p" by (simp add: caller_of_def par_def)
  from c none key False show ?thesis
    unfolding lists_callers_def caller_index_new ca_result_new
    by (auto simp: nth_append less_Suc_eq new_caller_def)
qed

lemma profile_parent_node:
  assumes inv: "profile_inv pr" and n: "pr_nodes pr p = Some n"
  shows "(case pn_parent n of None \<Rightarrow> butlast p = [] \<and> caller_of p = None
    | Some q \<Rightarrow> q = butlast p \<and> q \<noteq> [] \<and> caller_of p = Some (last q) \<and> (\<exists>m. pr_nodes pr q = Some m \<and> pn_symbol m = last q))"
  using profile_invD(3,4) [OF inv n] profile_invD(3) [OF inv]
  by (fastforce simp: node_at_def par_def caller_of_def split: option.splits)

lemma collect_callers_eq:
  assumes inv: "profile_inv pr" and "set rs \<subseteq> dom (pr_nodes pr)"
  shows "collect_callers (pr_nodes pr) rs c = Some (fold collect_caller rs c)"
  using assms(2)
proof (induction rs arbitrary: c)
  case Nil
  then show ?case by simp
next
  case (Cons p rs)
  then obtain n where n: "pr_nodes pr p = Some n" by auto
  from profile_parent_node [OF inv n] Cons show ?case
    by (auto simp: n collect_caller_def caller_index_def par_def split: option.splits)
qed

definition no_sums :: "callers \<Rightarrow> bool" where
  "no_sums c \<longleftrightarrow> (\<forall>g \<in> set (ca_result c). pf_total g = 0 \<and> pf_self g = 0) \<and> ca_marked c = {}"

lemma collect_callers_spec:
  assumes inv: "profile_inv pr" and rs: "set rs \<subseteq> dom (pr_nodes pr)"
  shows "\<exists>c ks. collect_callers (pr_nodes pr) rs no_callers = Some c \<and> lists_callers c ks \<and>
    set ks = caller_of ` set rs \<and> no_sums c"
proof -
  have "\<exists>ks'. lists_callers (fold collect_caller rs c) ks' \<and> set ks' = set ks \<union> caller_of ` set rs \<and>
      no_sums (fold collect_caller rs c)"
    if "lists_callers c ks" "no_sums c" for c ks
    using that
  proof (induction rs arbitrary: c ks)
    case Nil
    then show ?case by auto
  next
    case (Cons p rs)
    let ?ks = "if caller_of p \<in> set ks then ks else ks @ [caller_of p]"
    have z: "no_sums (collect_caller p c)"
      using Cons.prems(2) by (auto simp: no_sums_def ca_result_new new_caller_def collect_caller_def split: option.splits)
    from Cons.IH [OF collect_caller_lists [OF Cons.prems(1)] z] obtain ks' where
      "lists_callers (fold collect_caller rs (collect_caller p c)) ks'" "set ks' = set ?ks \<union> caller_of ` set rs"
      "no_sums (fold collect_caller rs (collect_caller p c))" by blast
    then show ?case by (intro exI [of _ ks']) auto
  qed
  moreover have "lists_callers no_callers []" "no_sums no_callers"
    by (auto simp: lists_callers_def no_callers_def caller_index_def no_sums_def split: option.splits)
  ultimately show ?thesis using collect_callers_eq [OF inv rs] by fastforce
qed

section \<open>The counts\<close>

definition top_of :: "pnref \<Rightarrow> pnref" where
  "top_of p = (THE t. topmost p t)"

lemma top_of_eq: "topmost p t \<Longrightarrow> top_of p = t"
  unfolding top_of_def by (blast intro: topmost_unique)

definition counted :: "profile \<Rightarrow> callers \<Rightarrow> cstr option list \<Rightarrow> pnref set \<Rightarrow> bool" where
  "counted pr c ks P \<longleftrightarrow> lists_callers c ks \<and> ca_marked c = (par \<circ> butlast) ` top_of ` P \<and>
     (\<forall>j < length ks.
        pf_total (ca_result c ! j) = (\<Sum>t \<in> {t \<in> top_of ` P. caller_of t = ks ! j}. tree_total pr t) \<and>
        pf_self (ca_result c ! j) = (\<Sum>p \<in> {p \<in> P. caller_of p = ks ! j}. tree_self pr p))"

lemma sum_insert_if:
  assumes "finite P"
  shows "(\<Sum>p \<in> {p \<in> insert x P. Q p}. f p) = (if Q x \<and> x \<notin> P then f x else 0) + (\<Sum>p \<in> {p \<in> P. Q p}. f p)"
proof -
  have "{p \<in> insert x P. Q p} = (if Q x then insert x {p \<in> P. Q p} else {p \<in> P. Q p})" by auto
  with assms show ?thesis by (simp add: insert_absorb)
qed

lemma count_caller_spec:
  assumes inv: "profile_inv pr" and p: "p \<in> symbol_paths pr s" "p \<notin> P" "P \<subseteq> symbol_paths pr s"
    and c: "counted pr c ks P" and k: "caller_of p \<in> set ks"
  shows "\<exists>c'. count_caller (pr_nodes pr) p c = Some c' \<and> counted pr c' ks (insert p P)"
proof -
  note D = profile_invD [OF inv]
  have dom: "p \<in> dom (pr_nodes pr)" "last p = s" using p(1) by (auto simp: symbol_paths_def)
  then obtain n where n: "pr_nodes pr p = Some n" by blast
  have node: "pn_symbol n = s" "pn_parent n = par (butlast p)" using D(3) [OF n] dom(2) by (auto simp: node_at_def)
  obtain t where t: "top_pair (pr_nodes pr) s (par (butlast p)) (par (butlast p), p) = Some (par (butlast t), t)" "topmost p t"
    using top_pair_start [OF inv dom(1)] dom(2) by auto
  have tt: "top_of p = t" by (rule top_of_eq [OF t(2)])
  have tp: "last t = s" "caller_of t = caller_of p" "t \<noteq> []" using t(2) dom(2) by (auto simp: topmost_def same_pair_def)
  have "t \<in> dom (pr_nodes pr)" by (rule path_tree_prefix [OF profile_path_tree [OF inv] _ tp(3) dom(1)]) (use t(2) in \<open>simp add: topmost_def\<close>)
  then obtain m where m: "pr_nodes pr t = Some m" by blast
  from k obtain i where i: "i < length ks" "ks ! i = caller_of p" by (auto simp: in_set_conv_nth)
  have lc: "lists_callers c ks" using c by (simp add: counted_def)
  then have ix: "caller_index c (caller_of p) = Some i" using i by (auto simp: lists_callers_def)
  have ix': "(case pn_parent n of None \<Rightarrow> ca_spontaneous c
       | Some q \<Rightarrow> Option.bind (pr_nodes pr q) (\<lambda>m. ca_by_symbol c (pn_symbol m))) = Some i"
    using ix profile_parent_node [OF inv n] by (auto simp: caller_index_def split: option.splits)
  have tops: "last u = s" "u \<noteq> []" if ut: "u \<in> top_of ` P" for u
  proof -
    obtain q where q: "q \<in> P" "u = top_of q" using ut by blast
    then have "q \<in> dom (pr_nodes pr)" "last q = s" using p(3) by (auto simp: symbol_paths_def)
    with top_pair_start [OF inv] obtain v where "topmost q v" by blast
    with top_of_eq [OF this] q \<open>last q = s\<close> show "last u = s" "u \<noteq> []" by (auto simp: topmost_def same_pair_def)
  qed
  have mark: "par (butlast t) \<in> ca_marked c \<longleftrightarrow> t \<in> top_of ` P"
  proof
    assume "par (butlast t) \<in> ca_marked c"
    then have "par (butlast t) \<in> (\<lambda>u. par (butlast u)) ` (top_of ` P)" using c by (simp add: counted_def comp_def)
    then obtain u where u: "u \<in> top_of ` P" "par (butlast u) = par (butlast t)" by (metis (no_types, lifting) imageE)
    then have "butlast u = butlast t" by (auto simp: par_def split: if_splits)
    with tops [OF u(1)] tp have "u = t" by (metis append_butlast_last_id)
    with u show "t \<in> top_of ` P" by simp
  next
    assume "t \<in> top_of ` P"
    then show "par (butlast t) \<in> ca_marked c" using c by (auto simp: counted_def)
  qed
  let ?f = "ca_result c ! i"
  let ?g = "?f\<lparr>pf_total := (if t \<in> top_of ` P then 0 else tree_total pr t) + pf_total ?f,
    pf_self := tree_self pr p + pf_self ?f\<rparr>"
  let ?c = "c\<lparr>ca_result := (ca_result c)[i := ?g], ca_marked := insert (par (butlast t)) (ca_marked c)\<rparr>"
  have vals: "tree_total pr t = pn_total m" "tree_self pr p = pn_self n" by (simp_all add: tree_total_def tree_self_def m n)
  have upd: "(if 0 < pn_self n then f\<lparr>pf_self := pf_self f + pn_self n\<rparr> else f) = f\<lparr>pf_self := pn_self n + pf_self f\<rparr>"
    for f :: profile_func
    by (cases "pn_self n = 0") (auto simp: add.commute word_neq_0_conv)
  have run: "count_caller (pr_nodes pr) p c = Some ?c"
    unfolding count_caller_def using node t(1)
    by (simp add: n m ix' [unfolded node(2)] mark vals upd Let_def add.commute)
  have len: "i < length (ca_result c)" using lc i by (simp add: lists_callers_def)
  have "finite (symbol_paths pr s)" using D(1) by (rule finite_subset [rotated]) (auto simp: symbol_paths_def)
  then have fin: "finite P" by (rule finite_subset [OF p(3)])
  have "caller_index ?c = caller_index c" by (simp add: caller_index_def [abs_def])
  moreover have "pf_node (ca_result ?c ! j) = pf_node (ca_result c ! j)" for j
    by (cases "j = i") (use len in simp_all)
  ultimately have lc': "lists_callers ?c ks" using lc by (simp add: lists_callers_def)
  have uniq: "ks ! j = caller_of p \<longleftrightarrow> j = i" if "j < length ks" for j
    using that i lc nth_eq_iff_index_eq [of ks j i] by (auto simp: lists_callers_def)
  have "counted pr ?c ks (insert p P)"
    unfolding counted_def
  proof (intro conjI allI impI lc')
    show "ca_marked ?c = (par \<circ> butlast) ` top_of ` insert p P" using c by (simp add: counted_def tt)
    fix j assume j: "j < length ks"
    have old: "pf_total (ca_result c ! j) = (\<Sum>t \<in> {t \<in> top_of ` P. caller_of t = ks ! j}. tree_total pr t)"
      "pf_self (ca_result c ! j) = (\<Sum>p \<in> {p \<in> P. caller_of p = ks ! j}. tree_self pr p)"
      using c j by (simp_all add: counted_def)
    show "pf_total (ca_result ?c ! j) = (\<Sum>t \<in> {t \<in> top_of ` insert p P. caller_of t = ks ! j}. tree_total pr t)"
      unfolding image_insert sum_insert_if [OF finite_imageI [OF fin]] tt
      using old(1) j uniq [OF j] tp(2) len by (auto simp: nth_list_update)
    show "pf_self (ca_result ?c ! j) = (\<Sum>q \<in> {q \<in> insert p P. caller_of q = ks ! j}. tree_self pr q)"
      unfolding sum_insert_if [OF fin]
      using old(2) j uniq [OF j] p(2) len by (auto simp: nth_list_update)
  qed
  with run show ?thesis by blast
qed

lemma count_callers_spec:
  assumes inv: "profile_inv pr"
  shows "set rs \<subseteq> symbol_paths pr s \<Longrightarrow> distinct rs \<Longrightarrow> P \<inter> set rs = {} \<Longrightarrow> P \<subseteq> symbol_paths pr s \<Longrightarrow>
    counted pr c ks P \<Longrightarrow> caller_of ` set rs \<subseteq> set ks \<Longrightarrow>
    \<exists>c'. count_callers (pr_nodes pr) rs c = Some c' \<and> counted pr c' ks (P \<union> set rs)"
proof (induction rs arbitrary: c P)
  case Nil
  then show ?case by simp
next
  case (Cons p rs)
  have "p \<in> symbol_paths pr s" "p \<notin> P" "caller_of p \<in> set ks" using Cons.prems by auto
  from count_caller_spec [OF inv this(1,2) Cons.prems(4,5) this(3)] obtain c1 where
    c1: "count_caller (pr_nodes pr) p c = Some c1" "counted pr c1 ks (insert p P)" by blast
  have "\<exists>c'. count_callers (pr_nodes pr) rs c1 = Some c' \<and> counted pr c' ks (insert p P \<union> set rs)"
    by (rule Cons.IH) (use Cons.prems c1(2) in auto)
  with c1(1) show ?case by auto
qed

section \<open>What the list of callers says\<close>

text \<open>
  \<open>calls k s t\<close>: in the stack \<open>t\<close> the caller \<open>k\<close> directly calls \<open>s\<close> (\<open>None\<close>: \<open>t\<close> starts with
  \<open>s\<close>); \<open>ends k s t\<close>: \<open>t\<close> ends with such a call.
\<close>

definition calls :: "cstr option \<Rightarrow> cstr \<Rightarrow> cstr list \<Rightarrow> bool" where
  "calls k s t \<longleftrightarrow> (\<exists>u v. t = u @ s # v \<and> k = (if u = [] then None else Some (last u)))"

definition ends :: "cstr option \<Rightarrow> cstr \<Rightarrow> cstr list \<Rightarrow> bool" where
  "ends k s t \<longleftrightarrow> (\<exists>u. t = u @ [s] \<and> k = (if u = [] then None else Some (last u)))"

definition top_for :: "cstr option \<Rightarrow> cstr \<Rightarrow> pnref \<Rightarrow> bool" where
  "top_for k s p \<longleftrightarrow> topmost p p \<and> last p = s \<and> caller_of p = k"

lemma ends_alt: "ends k s t \<longleftrightarrow> t \<noteq> [] \<and> last t = s \<and> caller_of t = k"
proof
  assume "t \<noteq> [] \<and> last t = s \<and> caller_of t = k"
  then show "ends k s t" unfolding ends_def
    by (intro exI [of _ "butlast t"]) (auto simp: caller_of_def)
next
  assume "ends k s t"
  then obtain u where u: "t = u @ [s]" "k = (if u = [] then None else Some (last u))" by (auto simp: ends_def)
  show "t \<noteq> [] \<and> last t = s \<and> caller_of t = k" unfolding u caller_of_snoc by simp
qed

lemma calls_alt: "calls k s t \<longleftrightarrow> (\<exists>p. prefix p t \<and> ends k s p)"
proof -
  have "(\<exists>u v. t = u @ s # v \<and> K u) \<longleftrightarrow> (\<exists>p. (\<exists>v. t = p @ v) \<and> (\<exists>u. p = u @ [s] \<and> K u))" (is "?l \<longleftrightarrow> ?r") for K
  proof
    assume ?l
    then obtain u v where "t = (u @ [s]) @ v" "K u" by auto
    then show ?r by blast
  next
    assume ?r
    then obtain u v where "t = (u @ [s]) @ v" "K u" by blast
    then have "t = u @ s # v" by simp
    with \<open>K u\<close> show ?l by blast
  qed
  then show ?thesis unfolding calls_def ends_def prefix_def .
qed

lemma same_pair_ends: "ends k s p \<Longrightarrow> same_pair u p \<longleftrightarrow> ends k s u"
  by (auto simp: ends_alt same_pair_def)

lemma topmost_exists:
  assumes "ends k s p"
  shows "\<exists>t. topmost p t \<and> ends k s t \<and> prefix t p"
proof -
  have "prefix p p \<and> ends k s p" using assms by simp
  from ex_has_least_nat [of "\<lambda>u. prefix u p \<and> ends k s u" p length, OF this] obtain t where
    t: "prefix t p" "ends k s t" "\<forall>u. prefix u p \<and> ends k s u \<longrightarrow> length t \<le> length u" by blast
  then show ?thesis using same_pair_ends [OF assms] by (auto simp: topmost_def)
qed

lemma top_for_ends: "top_for k s p \<Longrightarrow> ends k s p"
  by (auto simp: top_for_def ends_alt topmost_def same_pair_def)

lemma top_for_exists: "(\<exists>p. top_for k s p \<and> prefix p t) \<longleftrightarrow> calls k s t"
proof
  assume "calls k s t"
  then obtain p where p: "prefix p t" "ends k s p" by (auto simp: calls_alt)
  from topmost_exists [OF p(2)] obtain q where q: "topmost p q" "ends k s q" "prefix q p" by blast
  then have "top_for k s q" using topmost_topmost by (auto simp: top_for_def ends_alt)
  with q(3) p(1) show "\<exists>p. top_for k s p \<and> prefix p t" by (metis prefix_order.trans)
qed (auto simp: calls_alt dest: top_for_ends)

lemma top_for_le:
  assumes p: "top_for k s p" and q: "top_for k s q" and le: "prefix p q"
  shows "p = q"
proof -
  have "same_pair p q" using same_pair_ends [OF top_for_ends [OF q]] top_for_ends [OF p] by simp
  then have "length q \<le> length p" using q le by (simp add: top_for_def topmost_def)
  with le show ?thesis by (metis le_antisym prefix_length_le prefix_length_prefix prefix_order.antisym prefix_order.refl)
qed

lemma top_for_unique:
  assumes "top_for k s p" "top_for k s q" "prefix p t" "prefix q t"
  shows "p = q"
  using prefix_same_cases [OF assms(3,4)] top_for_le assms(1,2) by metis

lemma top_of_symbol:
  assumes P: "P = symbol_paths pr s" and inv: "profile_inv pr"
  shows "{t \<in> top_of ` P. caller_of t = k} = {p \<in> dom (pr_nodes pr). top_for k s p}"
proof (intro set_eqI iffI)
  fix t assume "t \<in> {t \<in> top_of ` P. caller_of t = k}"
  then obtain p where p: "p \<in> P" "t = top_of p" "caller_of t = k" by blast
  then have d: "p \<in> dom (pr_nodes pr)" "last p = s" using P by (auto simp: symbol_paths_def)
  with top_pair_start [OF inv] obtain u where u: "topmost p u" by blast
  with p top_of_eq [OF u] have t: "topmost p t" by simp
  then have "prefix t p" "t \<noteq> []" "last t = s" using d by (auto simp: topmost_def same_pair_def)
  with topmost_topmost [OF t] p(3) path_tree_prefix [OF profile_path_tree [OF inv] _ _ d(1)] show "t \<in> {p \<in> dom (pr_nodes pr). top_for k s p}"
    by (simp add: top_for_def)
next
  fix p assume "p \<in> {p \<in> dom (pr_nodes pr). top_for k s p}"
  then have p: "p \<in> P" "topmost p p" "caller_of p = k" using P by (auto simp: symbol_paths_def top_for_def)
  then have "top_of p = p" by (simp add: top_of_eq)
  with p show "p \<in> {t \<in> top_of ` P. caller_of t = k}" by (metis (mono_tags, lifting) imageI mem_Collect_eq)
qed

definition caller_counts :: "(cstr list \<times> u32) list \<Rightarrow> cstr \<Rightarrow> cstr option \<Rightarrow> profile_func \<Rightarrow> bool" where
  "caller_counts ts s k g \<longleftrightarrow> map_option last (pf_node g) = k \<and>
     pf_total g = weight_of (\<lambda>z. z) (calls k s) ts \<and> pf_self g = weight_of (\<lambda>z. z) (ends k s) ts"

lemma caller_list_spec:
  assumes run: "record_all profile_record empty_profile ts = Some pr"
    and r: "pr_by_symbol pr s = Some r" and f: "pf_node f = Some r"
  shows "\<exists>ks gs. profile_func_create_caller_list (pr_nodes pr) f = Some gs \<and> distinct ks \<and>
    set ks = {k. \<exists>(t, z) \<in> set ts. calls k s t} \<and> list_all2 (caller_counts ts s) ks gs"
proof -
  have inv: "profile_inv pr" and dom: "dom (pr_nodes pr) = trace_paths ts"
    and tot: "\<forall>p. tree_total pr p = weight_of (\<lambda>z. z) (\<lambda>t. p \<noteq> [] \<and> prefix p t) ts"
    and own: "\<forall>p. tree_self pr p = weight_of (\<lambda>z. z) (\<lambda>t. p \<noteq> [] \<and> p = t) ts"
    using build_tree_spec [of ts] run by auto
  note fin = profile_invD(1) [OF inv]
  obtain rs where rs: "chain pn_next (pr_nodes pr) (pr_by_symbol pr s) rs" "set rs = symbol_paths pr s"
    using profile_invD(9) [OF inv] by blast
  have sub: "set rs \<subseteq> dom (pr_nodes pr)" using rs(2) by (auto simp: symbol_paths_def)
  have d: "distinct rs" using chain_distinct [OF rs(1)] .
  obtain c ks where c: "collect_callers (pr_nodes pr) rs no_callers = Some c" "lists_callers c ks"
    "set ks = caller_of ` set rs" "no_sums c" using collect_callers_spec [OF inv sub] by blast
  have start: "counted pr c ks {}" using c(2,4) by (simp add: counted_def no_sums_def lists_callers_def)
  have "\<exists>c'. count_callers (pr_nodes pr) rs c = Some c' \<and> counted pr c' ks ({} \<union> set rs)"
    by (rule count_callers_spec [OF inv]) (use rs(2) d start c(3) in auto)
  then obtain c' where c': "count_callers (pr_nodes pr) rs c = Some c'" "counted pr c' ks (symbol_paths pr s)"
    using rs(2) by auto
  have out: "profile_func_create_caller_list (pr_nodes pr) f = Some (ca_result c')"
    using node_chain_chain [OF rs(1)] c(1) c'(1) f r by (simp add: profile_func_create_caller_list_def)
  have lc: "lists_callers c' ks" using c'(2) by (simp add: counted_def)
  have keys: "set ks = {k. \<exists>(t, z) \<in> set ts. calls k s t}"
    unfolding c(3) rs(2) symbol_paths_def dom trace_paths_def
    by (auto simp: calls_alt ends_alt image_def)
  have sums: "caller_counts ts s (ks ! j) (ca_result c' ! j)" if j: "j < length ks" for j
  proof -
    let ?k = "ks ! j"
    have "pf_total (ca_result c' ! j) = (\<Sum>p \<in> {p \<in> dom (pr_nodes pr). top_for ?k s p}. tree_total pr p)"
      using c'(2) j top_of_symbol [OF refl inv] by (simp add: counted_def)
    also have "\<dots> = weight_of (\<lambda>z. z) (\<lambda>t. \<exists>p. top_for ?k s p \<and> prefix p t) ts"
      unfolding tot [rule_format]
    proof (rule unique_prefix_weight [OF fin])
      show "\<forall>t p q. top_for ?k s p \<and> top_for ?k s q \<and> prefix p t \<and> prefix q t \<longrightarrow> p = q"
        by (intro allI impI, elim conjE, rule top_for_unique)
      show "\<forall>t z p. (t, z) \<in> set ts \<and> prefix p t \<and> top_for ?k s p \<longrightarrow> p \<noteq> [] \<and> p \<in> dom (pr_nodes pr)"
        using top_for_ends by (auto simp: dom trace_paths_def ends_alt)
    qed
    finally have a: "pf_total (ca_result c' ! j) = weight_of (\<lambda>z. z) (calls ?k s) ts"
      by (simp add: top_for_exists)
    have "pf_self (ca_result c' ! j) = (\<Sum>p \<in> {p \<in> dom (pr_nodes pr). last p = s \<and> caller_of p = ?k}. tree_self pr p)"
      using c'(2) j by (simp add: counted_def symbol_paths_def conj_assoc)
    also have "\<dots> = weight_of (\<lambda>z. z) (\<lambda>t. t \<noteq> [] \<and> last t = s \<and> caller_of t = ?k) ts"
      unfolding own [rule_format] by (rule self_weight [OF fin]) (auto simp: dom trace_paths_def)
    finally have b: "pf_self (ca_result c' ! j) = weight_of (\<lambda>z. z) (ends ?k s) ts"
      by (simp add: ends_alt [abs_def])
    show ?thesis using a b lc j by (simp add: caller_counts_def lists_callers_def)
  qed
  show ?thesis
    using out keys sums lc by (intro exI [of _ ks] exI [of _ "ca_result c'"])
      (auto simp: lists_callers_def list_all2_conv_all_nth)
qed

text \<open>A function of the profile of some traces.\<close>

lemma function_of_traces:
  assumes ts: "traces_of env m skip bs ps = Some (q, st, ts)" and s: "(t, z) \<in> set ts" "s \<in> set t"
  shows "\<exists>pr f r. record_all profile_record empty_profile ts = Some pr \<and>
    profile_build_tree env m skip bs ps empty_profile = Some (q, st, pr) \<and> pr_by_symbol pr s = Some r \<and>
    add_function s pr = Some (pr\<lparr>pr_functions := pr_functions pr @ [f]\<rparr>) \<and> pf_node f = Some r"
proof -
  obtain pr where pr: "record_all profile_record empty_profile ts = Some pr" "profile_inv pr"
    "dom (pr_nodes pr) = trace_paths ts" using build_tree_spec by blast
  have build: "profile_build_tree env m skip bs ps empty_profile = Some (q, st, pr)"
    using ts pr(1) by (simp add: profile_build_tree_eq finish_def)
  have "s \<in> dom (pr_by_symbol pr)" using by_symbol_dom [OF pr(2,3)] s by auto
  then obtain r where r: "pr_by_symbol pr s = Some r" by blast
  with function_sums(3) [OF pr(2) r] pr(1) build show ?thesis
    by (intro exI conjI) (assumption | simp add: add_function_def)+
qed

text \<open>
  Property C26: The list of callers of a function has one entry for each caller in the traces
  (one for all the stacks that start with the function, when there are such). Its total is the
  bytes of the blocks in whose stack the caller directly calls the function, each counted once
  however deep the pair recurs, and its self weight the bytes of those whose stack ends there.
\<close>

theorem callers_correct:
  assumes ts: "traces_of env m skip bs ps = Some (q, st, ts)" and s: "(t, z) \<in> set ts" "s \<in> set t"
  shows "\<exists>pr f gs ks. profile_build_tree env m skip bs ps empty_profile = Some (q, st, pr) \<and>
    add_function s pr = Some (pr\<lparr>pr_functions := pr_functions pr @ [f]\<rparr>) \<and>
    profile_func_create_caller_list (pr_nodes pr) f = Some gs \<and> distinct ks \<and>
    set ks = {k. \<exists>(t, z) \<in> set ts. calls k s t} \<and> list_all2 (caller_counts ts s) ks gs"
proof -
  obtain pr f r where pr: "record_all profile_record empty_profile ts = Some pr"
    "profile_build_tree env m skip bs ps empty_profile = Some (q, st, pr)" "pr_by_symbol pr s = Some r"
    "add_function s pr = Some (pr\<lparr>pr_functions := pr_functions pr @ [f]\<rparr>)" "pf_node f = Some r"
    using function_of_traces [OF ts s] by blast
  with caller_list_spec [OF pr(1,3,5)] show ?thesis by blast
qed

theorem callers_correct_witness:
  "\<exists>q st pr f g. profile_build_tree prog_env (nodes (w_nodes demo_world)) {''xmalloc''}
      [\<lparr>b_flags = 0, b_addr = 0x10, b_size = 5, b_stack = Some (Cell 0 0), b_refcount = 1\<rparr>]
      (demo_process, no_inodes) empty_profile = Some (q, st, pr) \<and>
     add_function main_symbol pr = Some (pr\<lparr>pr_functions := pr_functions pr @ [f]\<rparr>) \<and>
     profile_func_create_caller_list (pr_nodes pr) f = Some [g] \<and>
     pf_node g = None \<and> pf_total g = 5 \<and> pf_self g = 5"
proof -
  let ?ts = "[([main_symbol], 5 :: u32)]"
  from callers_correct [OF demo_traces, of "[main_symbol]" 5 main_symbol] obtain pr f gs ks where
    run: "profile_build_tree prog_env (nodes (w_nodes demo_world)) {''xmalloc''}
      [\<lparr>b_flags = 0, b_addr = 0x10, b_size = 5, b_stack = Some (Cell 0 0), b_refcount = 1\<rparr>]
      (demo_process, no_inodes) empty_profile = Some (demo_process\<lparr>p_map_list := [prog_map], p_strings := 1\<rparr>, no_inodes, pr)"
      "add_function main_symbol pr = Some (pr\<lparr>pr_functions := pr_functions pr @ [f]\<rparr>)"
      "profile_func_create_caller_list (pr_nodes pr) f = Some gs"
    and ks: "distinct ks" "set ks = {k. \<exists>(t, z) \<in> set ?ts. calls k main_symbol t}"
      "list_all2 (caller_counts ?ts main_symbol) ks gs"
    by auto
  have one: "calls k main_symbol [main_symbol] \<longleftrightarrow> k = None" "ends k main_symbol [main_symbol] \<longleftrightarrow> k = None" for k
    by (auto simp: calls_def ends_def Cons_eq_append_conv)
  then have "set ks = {None}" using ks(2) by auto
  with distinct_card [OF ks(1)] have "length ks = 1" by simp
  then obtain k where "ks = [k]" by (cases ks) auto
  with \<open>set ks = {None}\<close> have "ks = [None]" by simp
  with ks(3) obtain g where "gs = [g]" "caller_counts ?ts main_symbol None g" by (auto simp: list_all2_Cons1)
  with run one show ?thesis by (intro exI conjI) (assumption | simp add: caller_counts_def)+
qed

end
