(* ===== verification/Profile_Descendants.thy ===== *)
theory Profile_Descendants
  imports Profile
begin

text \<open>
  The descendants of a function (src/profile.c): for every stack that contains the function, the
  part from its first frame on is folded into a tree in which no symbol occurs twice on a path.
  A frame whose symbol is already on the path takes the walk back to the node of that symbol.
\<close>

section \<open>The data\<close>

text \<open>A node is named by its path of symbols, as in the call tree.\<close>

record descendant_node =
  dn_symbol :: cstr
  dn_self :: u32
  dn_non_recursion :: u32
  dn_total :: u32
  dn_children :: "pnref list"
  dn_parent :: "pnref option"
  dn_marked_non_recursive :: u32
  dn_marked_total :: bool

record descendant_tree =
  dt_nodes :: "pnref \<rightharpoonup> descendant_node"
  dt_roots :: "pnref list"

section \<open>The leaves below a node\<close>

text \<open>
  \<open>node_list_leaves\<close>; the recursion is unfolded into a list of the nodes still to visit. The
  list of leaves is prepended to.
\<close>

partial_function (option) list_leaves ::
    "(pnref \<rightharpoonup> profile_node) \<Rightarrow> pnref list \<Rightarrow> pnref list \<Rightarrow> pnref list option" where
  "list_leaves h todo leaves =
     (if todo = [] then Some leaves
      else Option.bind (h (hd todo)) (\<lambda>n.
        list_leaves h (pn_children n @ tl todo) (if pn_self n > 0 then hd todo # leaves else leaves)))"

definition node_list_leaves :: "(pnref \<rightharpoonup> profile_node) \<Rightarrow> pnref \<Rightarrow> pnref list option" where
  "node_list_leaves h r = list_leaves h [r] []"

text \<open>The trace of a leaf: the nodes from \<open>top\<close> down to it.\<close>

partial_function (option) leaf_trace ::
    "(pnref \<rightharpoonup> profile_node) \<Rightarrow> pnref option \<Rightarrow> pnref option \<Rightarrow> pnref list \<Rightarrow> pnref list option" where
  "leaf_trace h stop node trace =
     (case node of None \<Rightarrow> Some trace
      | Some r \<Rightarrow>
          if node = stop then Some trace
          else Option.bind (h r) (\<lambda>n. leaf_trace h stop (pn_parent n) (r # trace)))"

section \<open>Adding a trace\<close>

definition descendant_siblings :: "descendant_tree \<Rightarrow> pnref option \<Rightarrow> pnref list option" where
  "descendant_siblings tree parent = (case parent of None \<Rightarrow> Some (dt_roots tree)
     | Some q \<Rightarrow> map_option dn_children (dt_nodes tree q))"

fun match_descendant ::
    "(pnref \<rightharpoonup> descendant_node) \<Rightarrow> cstr \<Rightarrow> pnref list \<Rightarrow> pnref option \<Rightarrow> pnref option option" where
  "match_descendant h s [] m = Some m"
| "match_descendant h s (r # rs) m = do {
     n \<leftarrow> h r;
     match_descendant h s rs (if symbol_equal (Some (dn_symbol n)) (Some s) then Some r else m)
   }"

text \<open>
  The walk back from \<open>parent\<close> to the node of a symbol seen before (\<open>stop\<close> is the parent of that
  node), which takes the frames between out of the recursion-free path, and the table of symbols
  from that node upwards.
\<close>

partial_function (option) unwind ::
    "u32 \<Rightarrow> pnref option \<Rightarrow> pnref option \<Rightarrow> (pnref \<rightharpoonup> descendant_node) \<Rightarrow> (pnref \<rightharpoonup> descendant_node) option" where
  "unwind sz stop node h =
     (if node = stop then Some h
      else (case node of None \<Rightarrow> None
        | Some r \<Rightarrow> Option.bind (h r) (\<lambda>n. unwind sz stop (dn_parent n)
            (h(r \<mapsto> n\<lparr>dn_non_recursion := dn_non_recursion n - sz,
              dn_marked_non_recursive := dn_marked_non_recursive n - 1\<rparr>)))))"

partial_function (option) symbols_above ::
    "(pnref \<rightharpoonup> descendant_node) \<Rightarrow> pnref option \<Rightarrow> (cstr \<rightharpoonup> pnref) \<Rightarrow> (cstr \<rightharpoonup> pnref) option" where
  "symbols_above h node seen =
     (case node of None \<Rightarrow> Some seen
      | Some r \<Rightarrow> Option.bind (h r) (\<lambda>n. symbols_above h (dn_parent n) (seen(dn_symbol n \<mapsto> r))))"

definition back_to ::
    "u32 \<Rightarrow> pnref option \<Rightarrow> pnref \<Rightarrow> descendant_tree \<Rightarrow> (descendant_tree \<times> (cstr \<rightharpoonup> pnref)) option" where
  "back_to sz parent x tree = do {
     parent;
     n \<leftarrow> dt_nodes tree x;
     h \<leftarrow> unwind sz (dn_parent n) parent (dt_nodes tree);
     seen \<leftarrow> symbols_above h (Some x) Map.empty;
     Some (tree\<lparr>dt_nodes := h\<rparr>, seen)
   }"

definition new_descendant :: "pnref option \<Rightarrow> cstr \<Rightarrow> descendant_tree \<Rightarrow> (descendant_tree \<times> pnref) option" where
  "new_descendant parent s tree = do {
     let r = child_path parent s;
     let n = \<lparr>dn_symbol = s, dn_self = 0, dn_non_recursion = 0, dn_total = 0, dn_children = [],
       dn_parent = parent, dn_marked_non_recursive = 0, dn_marked_total = False\<rparr>;
     let h = (dt_nodes tree)(r \<mapsto> n);
     (case parent of
        None \<Rightarrow> Some (\<lparr>dt_nodes = h, dt_roots = dt_roots tree @ [r]\<rparr>, r)
      | Some q \<Rightarrow> do {
          m \<leftarrow> h q;
          Some (tree\<lparr>dt_nodes := h(q \<mapsto> m\<lparr>dn_children := dn_children m @ [r]\<rparr>)\<rparr>, r)
        })
   }"

text \<open>The node for a frame: the child with its symbol, the node seen before, or a new child.\<close>

definition find_descendant ::
    "u32 \<Rightarrow> pnref option \<Rightarrow> (cstr \<rightharpoonup> pnref) \<Rightarrow> cstr \<Rightarrow> descendant_tree \<Rightarrow>
     (descendant_tree \<times> (cstr \<rightharpoonup> pnref) \<times> pnref) option" where
  "find_descendant sz parent seen s tree = do {
     rs \<leftarrow> descendant_siblings tree parent;
     m \<leftarrow> match_descendant (dt_nodes tree) s rs None;
     (case m of
        Some x \<Rightarrow> Some (tree, seen, x)
      | None \<Rightarrow> (case seen s of
          Some x \<Rightarrow> do { (tree, seen) \<leftarrow> back_to sz parent x tree; Some (tree, seen, x) }
        | None \<Rightarrow> do { (tree, x) \<leftarrow> new_descendant parent s tree; Some (tree, seen, x) }))
   }"

definition visit :: "u32 \<Rightarrow> bool \<Rightarrow> descendant_node \<Rightarrow> descendant_node" where
  "visit sz innermost n =
     (let n = (if dn_marked_non_recursive n = 0
                then n\<lparr>dn_non_recursion := dn_non_recursion n + sz, dn_marked_non_recursive := dn_marked_non_recursive n + 1\<rparr>
                else n);
          n = (if dn_marked_total n then n else n\<lparr>dn_total := dn_total n + sz, dn_marked_total := True\<rparr>)
      in if innermost then n\<lparr>dn_self := dn_self n + sz\<rparr> else n)"

fun trace_frames ::
    "(pnref \<rightharpoonup> profile_node) \<Rightarrow> u32 \<Rightarrow> pnref option \<Rightarrow> (cstr \<rightharpoonup> pnref) \<Rightarrow> pnref list \<Rightarrow> pnref list \<Rightarrow>
     pnref list \<Rightarrow> descendant_tree \<Rightarrow> (descendant_tree \<times> pnref list \<times> pnref list) option" where
  "trace_frames h sz parent seen unmark unmark_rec [] tree = Some (tree, unmark, unmark_rec)"
| "trace_frames h sz parent seen unmark unmark_rec (r # rs) tree = do {
     node \<leftarrow> h r;
     (tree, seen, x) \<leftarrow> find_descendant sz parent seen (pn_symbol node) tree;
     n \<leftarrow> dt_nodes tree x;
     trace_frames h sz (Some x) (seen(pn_symbol node \<mapsto> x))
       (if dn_marked_non_recursive n = 0 then x # unmark else unmark)
       (if dn_marked_total n then unmark_rec else x # unmark_rec)
       rs (tree\<lparr>dt_nodes := (dt_nodes tree)(x \<mapsto> visit sz (rs = []) n)\<rparr>)
   }"

fun unmark_nodes ::
    "(descendant_node \<Rightarrow> descendant_node) \<Rightarrow> pnref list \<Rightarrow> (pnref \<rightharpoonup> descendant_node) \<Rightarrow>
     (pnref \<rightharpoonup> descendant_node) option" where
  "unmark_nodes f [] h = Some h"
| "unmark_nodes f (r # rs) h = do { n \<leftarrow> h r; unmark_nodes f rs (h(r \<mapsto> f n)) }"

definition add_trace_to_tree ::
    "(pnref \<rightharpoonup> profile_node) \<Rightarrow> pnref list \<Rightarrow> u32 \<Rightarrow> descendant_tree \<Rightarrow> descendant_tree option" where
  "add_trace_to_tree h trace sz tree = do {
     (tree, unmark, unmark_rec) \<leftarrow> trace_frames h sz None Map.empty [] [] trace tree;
     nodes \<leftarrow> unmark_nodes (dn_marked_non_recursive_update (\<lambda>_. 0)) unmark (dt_nodes tree);
     nodes \<leftarrow> unmark_nodes (dn_marked_total_update (\<lambda>_. False)) unmark_rec nodes;
     Some (tree\<lparr>dt_nodes := nodes\<rparr>)
   }"

section \<open>The tree of a function\<close>

definition add_leaf_to_tree ::
    "(pnref \<rightharpoonup> profile_node) \<Rightarrow> pnref \<Rightarrow> pnref \<Rightarrow> descendant_tree \<Rightarrow> descendant_tree option" where
  "add_leaf_to_tree h leaf base tree = do {
     t \<leftarrow> h base;
     l \<leftarrow> h leaf;
     trace \<leftarrow> leaf_trace h (pn_parent t) (Some leaf) [];
     add_trace_to_tree h trace (pn_self l) tree
   }"

fun add_leaves_to_tree ::
    "(pnref \<rightharpoonup> profile_node) \<Rightarrow> pnref \<Rightarrow> pnref list \<Rightarrow> descendant_tree \<Rightarrow> descendant_tree option" where
  "add_leaves_to_tree h base [] tree = Some tree"
| "add_leaves_to_tree h base (l # ls) tree = Option.bind (add_leaf_to_tree h l base tree) (add_leaves_to_tree h base ls)"

partial_function (option) descendants_from ::
    "(pnref \<rightharpoonup> profile_node) \<Rightarrow> pnref option \<Rightarrow> descendant_tree \<Rightarrow> descendant_tree option" where
  "descendants_from h node tree =
     (case node of None \<Rightarrow> Some tree
      | Some r \<Rightarrow> Option.bind (h r) (\<lambda>n.
          if pn_toplevel n
          then Option.bind (node_list_leaves h r) (\<lambda>ls. Option.bind (add_leaves_to_tree h r ls tree)
                 (descendants_from h (pn_next n)))
          else descendants_from h (pn_next n) tree))"

definition profile_func_create_descendant_tree ::
    "(pnref \<rightharpoonup> profile_node) \<Rightarrow> profile_func \<Rightarrow> descendant_tree option" where
  "profile_func_create_descendant_tree h f = descendants_from h (pf_node f) \<lparr>dt_nodes = Map.empty, dt_roots = []\<rparr>"

section \<open>Freeing\<close>

partial_function (option) free_descendants ::
    "pnref list \<Rightarrow> (pnref \<rightharpoonup> descendant_node) \<Rightarrow> (pnref \<rightharpoonup> descendant_node) option" where
  "free_descendants todo h =
     (if todo = [] then Some h
      else Option.bind (h (hd todo)) (\<lambda>n. free_descendants (dn_children n @ tl todo) (h(hd todo := None))))"

fun profile_descendant_tree_free :: "pnref list \<Rightarrow> (pnref \<rightharpoonup> descendant_node) \<Rightarrow> (pnref \<rightharpoonup> descendant_node) option" where
  "profile_descendant_tree_free [] h = Some h"
| "profile_descendant_tree_free (r # rs) h = Option.bind (free_descendants [r] h) (profile_descendant_tree_free rs)"

end
