(* ===== verification/Profile_Descendants_Inv.thy ===== *)
theory Profile_Descendants_Inv
  imports Profile_Callers Profile_Descendants
begin

text \<open>
  The correctness of the descendant tree: the path a walk keeps and the nodes it visits, the
  shape of the tree and its marks in the middle of a trace, and the counts the traces of a
  function leave in it.
\<close>

section \<open>The path of a walk\<close>

text \<open>
  A walk through the symbols of a trace keeps a path without repetitions: a symbol on the path
  cuts it back to that symbol.
\<close>

definition step_path :: "cstr list \<Rightarrow> cstr \<Rightarrow> cstr list" where
  "step_path c s = takeWhile (\<lambda>x. x \<noteq> s) c @ [s]"

definition fold_path :: "cstr list \<Rightarrow> cstr list" where
  "fold_path ss = foldl step_path [] ss"

fun visited :: "cstr list \<Rightarrow> cstr list \<Rightarrow> cstr list set" where
  "visited c [] = {}"
| "visited c (s # ss) = insert (step_path c s) (visited (step_path c s) ss)"

lemma step_path_new: "s \<notin> set c \<Longrightarrow> step_path c s = c @ [s]"
  unfolding step_path_def by (subst takeWhile_eq_all_conv [THEN iffD2]) auto

lemma step_path_prefix: "s \<in> set c \<Longrightarrow> prefix (step_path c s) c"
proof -
  assume "s \<in> set c"
  then obtain a b where c: "c = a @ s # b" "s \<notin> set a" by (meson split_list_first)
  then have "takeWhile (\<lambda>x. x \<noteq> s) (a @ s # b) = a @ takeWhile (\<lambda>x. x \<noteq> s) (s # b)"
    by (intro takeWhile_append2) auto
  with c show ?thesis by (simp add: step_path_def)
qed

lemma step_path_ne [simp]: "step_path c s \<noteq> []" and last_step_path [simp]: "last (step_path c s) = s"
  by (simp_all add: step_path_def)

lemma step_path_distinct: "distinct c \<Longrightarrow> distinct (step_path c s)"
  by (auto simp: step_path_def distinct_takeWhile dest: set_takeWhileD)

lemma butlast_step_path: "butlast (step_path c s) = takeWhile (\<lambda>x. x \<noteq> s) c"
  by (simp add: step_path_def)

text \<open>The table of symbols along a path.\<close>

definition seen_on :: "cstr list \<Rightarrow> cstr \<Rightarrow> cstr list option" where
  "seen_on c s = (if s \<in> set c then Some (step_path c s) else None)"

lemma step_path_snoc: "step_path (c @ [x]) s = (if s \<in> set c then step_path c s else if s = x then c @ [x] else c @ [x, s])"
  by (auto simp: step_path_def takeWhile_append)

lemma seen_on_Nil [simp]: "seen_on [] = Map.empty"
  by (simp add: seen_on_def fun_eq_iff)

lemma seen_on_step: "distinct c \<Longrightarrow> s \<notin> set c \<Longrightarrow> (seen_on c)(s \<mapsto> c @ [s]) = seen_on (c @ [s])"
  by (auto simp: seen_on_def fun_eq_iff step_path_snoc)

lemma seen_on_same: "(seen_on (step_path c s))(s \<mapsto> step_path c s) = seen_on (step_path c s)"
proof -
  have "step_path (step_path c s) s = step_path c s"
    using step_path_snoc [of "takeWhile (\<lambda>x. x \<noteq> s) c" s s] set_takeWhileD [of s "\<lambda>x. x \<noteq> s" c]
    by (simp add: step_path_def)
  then show ?thesis by (auto simp: seen_on_def fun_eq_iff) (simp_all add: step_path_def)
qed

section \<open>The shape of the tree\<close>

definition descendant_at :: "pnref \<Rightarrow> descendant_node \<Rightarrow> bool" where
  "descendant_at p n \<longleftrightarrow> dn_symbol n = last p \<and> dn_parent n = par (butlast p) \<and> distinct p"

definition tree_shape :: "descendant_tree \<Rightarrow> bool" where
  "tree_shape t \<longleftrightarrow> path_tree dn_children (dt_nodes t) (dt_roots t) \<and>
     (\<forall>p n. dt_nodes t p = Some n \<longrightarrow> descendant_at p n)"

lemma tree_shapeD:
  assumes "tree_shape t"
  shows "dt_nodes t [] = None"
    "dt_nodes t p = Some n \<Longrightarrow> descendant_at p n"
    "dt_nodes t p = Some n \<Longrightarrow> butlast p = [] \<or> butlast p \<in> dom (dt_nodes t)"
    "dt_nodes t p = Some n \<Longrightarrow> set (dn_children n) = {q \<in> dom (dt_nodes t). butlast q = p}"
    "set (dt_roots t) = {q \<in> dom (dt_nodes t). butlast q = []}"
  using assms path_treeD [of dn_children "dt_nodes t" "dt_roots t"] unfolding tree_shape_def by blast+

lemma descendant_prefix:
  "tree_shape t \<Longrightarrow> c \<in> dom (dt_nodes t) \<Longrightarrow> prefix p c \<Longrightarrow> p \<noteq> [] \<Longrightarrow> p \<in> dom (dt_nodes t)"
  unfolding tree_shape_def by (elim conjE) (rule path_tree_prefix)

lemma tree_shape_upd:
  assumes t: "tree_shape t" and d: "dom h = dom (dt_nodes t)"
    and same: "\<forall>p m. h p = Some m \<longrightarrow> (\<exists>n. dt_nodes t p = Some n \<and> dn_symbol m = dn_symbol n \<and>
      dn_parent m = dn_parent n \<and> dn_children m = dn_children n)"
  shows "tree_shape (t\<lparr>dt_nodes := h\<rparr>)"
proof -
  have "map_option dn_children (h p) = map_option dn_children (dt_nodes t p)" for p
  proof (cases "h p")
    case None
    then have "p \<notin> dom (dt_nodes t)" using d by auto
    with None show ?thesis by auto
  next
    case (Some m)
    with same show ?thesis by fastforce
  qed
  then have all: "\<forall>p. map_option dn_children (h p) = map_option dn_children (dt_nodes t p)" ..
  have "path_tree dn_children (dt_nodes t) (dt_roots t)" using t by (simp add: tree_shape_def)
  from path_tree_cong [OF this all] have "path_tree dn_children h (dt_roots t)" .
  moreover have "descendant_at p m" if m: "h p = Some m" for p m
  proof -
    obtain n where "dt_nodes t p = Some n" "dn_symbol m = dn_symbol n" "dn_parent m = dn_parent n" using same m by blast
    with tree_shapeD(2) [OF t] show ?thesis by (auto simp: descendant_at_def)
  qed
  ultimately show ?thesis by (simp add: tree_shape_def)
qed

lemma match_descendant_spec:
  "\<forall>r \<in> set rs. \<exists>n. h r = Some n \<and> dn_symbol n = last r \<and> r \<noteq> [] \<and> butlast r = q \<Longrightarrow>
   match_descendant h s rs m = Some (if q @ [s] \<in> set rs then Some (q @ [s]) else m)"
proof (induction rs arbitrary: m)
  case Nil
  then show ?case by simp
next
  case (Cons r rs)
  obtain n where n: "h r = Some n" "dn_symbol n = last r" "r \<noteq> []" "butlast r = q"
    using Cons.prems by auto
  have "last r = s \<longleftrightarrow> r = q @ [s]" using n(3,4) by (metis append_butlast_last_id butlast_snoc last_snoc)
  moreover have "\<forall>r \<in> set rs. \<exists>n. h r = Some n \<and> dn_symbol n = last r \<and> r \<noteq> [] \<and> butlast r = q"
    using Cons.prems by simp
  ultimately show ?case using n Cons.IH by (auto simp: symbol_equal_def)
qed

lemma find_child:
  assumes t: "tree_shape t" and c: "c = [] \<or> c \<in> dom (dt_nodes t)"
  shows "\<exists>rs. descendant_siblings t (par c) = Some rs \<and>
    match_descendant (dt_nodes t) s rs None = Some (if c @ [s] \<in> dom (dt_nodes t) then Some (c @ [s]) else None)"
proof -
  note D = tree_shapeD [OF t]
  obtain rs where rs: "descendant_siblings t (par c) = Some rs" "set rs = {q \<in> dom (dt_nodes t). butlast q = c}"
    using c D(4,5) by (cases "c = []") (auto simp: descendant_siblings_def par_def)
  have "\<forall>r \<in> set rs. \<exists>n. dt_nodes t r = Some n \<and> dn_symbol n = last r \<and> r \<noteq> [] \<and> butlast r = c"
    using rs(2) D(1,2) by (auto simp: descendant_at_def)
  from match_descendant_spec [OF this] rs show ?thesis by auto
qed

lemma new_descendant_spec:
  assumes t: "tree_shape t" and c: "c = [] \<or> c \<in> dom (dt_nodes t)" and d: "distinct (c @ [s])"
    and new: "c @ [s] \<notin> dom (dt_nodes t)"
  shows "\<exists>t' n. new_descendant (par c) s t = Some (t', c @ [s]) \<and> tree_shape t' \<and> dt_nodes t' (c @ [s]) = Some n \<and>
    dn_self n = 0 \<and> dn_non_recursion n = 0 \<and> dn_total n = 0 \<and> dn_marked_non_recursive n = 0 \<and> \<not> dn_marked_total n \<and>
    (\<forall>p. p \<noteq> c @ [s] \<longrightarrow> (\<exists>ch. dt_nodes t' p = map_option (\<lambda>n. n\<lparr>dn_children := ch n\<rparr>) (dt_nodes t p)))"
proof -
  note D = tree_shapeD [OF t]
  let ?r = "c @ [s]"
  let ?n = "\<lparr>dn_symbol = s, dn_self = 0, dn_non_recursion = 0, dn_total = 0, dn_children = [],
       dn_parent = par c, dn_marked_non_recursive = 0, dn_marked_total = False\<rparr>"
  define h where "h p = (if p = ?r then Some ?n else if p = c \<and> c \<noteq> []
    then map_option (\<lambda>m. m\<lparr>dn_children := dn_children m @ [?r]\<rparr>) (dt_nodes t p) else dt_nodes t p)" for p
  let ?t = "\<lparr>dt_nodes = h, dt_roots = (if c = [] then dt_roots t @ [?r] else dt_roots t)\<rparr>"
  have "new_descendant (par c) s t = Some (?t, ?r)"
  proof (cases "c = []")
    case True
    then show ?thesis by (auto simp: new_descendant_def par_def child_path_def Let_def h_def fun_eq_iff)
  next
    case False
    with c obtain m where m: "dt_nodes t c = Some m" by auto
    have "(dt_nodes t)(?r \<mapsto> ?n, c \<mapsto> m\<lparr>dn_children := dn_children m @ [?r]\<rparr>) = h"
      using m False by (auto simp: h_def fun_eq_iff)
    with m False show ?thesis
      by (cases t) (auto simp: new_descendant_def par_def child_path_def Let_def)
  qed
  moreover have "tree_shape ?t"
    unfolding tree_shape_def
  proof (intro conjI allI impI)
    have "map_option dn_children (h p) =
        map_option (\<lambda>m. if p = c then dn_children m @ [?r] else dn_children m) (dt_nodes t p)" if "p \<noteq> ?r" for p
      using that D(1) by (cases "p = []") (auto simp: h_def option.map_comp comp_def intro: option.map_cong)
    moreover have "path_tree dn_children (dt_nodes t) (dt_roots t)" using t by (simp add: tree_shape_def)
    ultimately have "path_tree dn_children h (if c = [] then dt_roots t @ [?r] else dt_roots t)"
      by (intro path_tree_new [where h' = h and c = c and s = s and n = ?n, OF _ c new]) (simp_all add: h_def)
    then show "path_tree dn_children (dt_nodes ?t) (dt_roots ?t)" by simp
    fix p n assume "dt_nodes ?t p = Some n"
    then have n: "h p = Some n" by simp
    show "descendant_at p n"
    proof (cases "p = ?r")
      case True
      then have "n = ?n" using n by (simp add: h_def)
      then show ?thesis using True d by (auto simp: descendant_at_def)
    next
      case False
      then obtain m where m: "dt_nodes t p = Some m" "dn_symbol n = dn_symbol m" "dn_parent n = dn_parent m"
        using n by (auto simp: h_def split: if_splits)
      with D(2) [OF m(1)] show ?thesis by (auto simp: descendant_at_def)
    qed
  qed
  moreover have "\<exists>ch. dt_nodes ?t p = map_option (\<lambda>n. n\<lparr>dn_children := ch n\<rparr>) (dt_nodes t p)" if "p \<noteq> ?r" for p
  proof (cases "p = c \<and> c \<noteq> []")
    case True
    then show ?thesis using that by (intro exI [of _ "\<lambda>m. dn_children m @ [?r]"]) (simp add: h_def)
  next
    case False
    then show ?thesis using that by (intro exI [of _ dn_children]) (use False in \<open>auto simp: h_def option.map_ident\<close>)
  qed
  ultimately show ?thesis by (intro exI [of _ ?t] exI [of _ ?n]) (simp add: h_def)
qed

section \<open>Walking back\<close>

text \<open>The nodes of a path in the heap.\<close>

definition path_nodes :: "(pnref \<rightharpoonup> descendant_node) \<Rightarrow> pnref \<Rightarrow> bool" where
  "path_nodes h c \<longleftrightarrow> (\<forall>p. p \<noteq> [] \<and> prefix p c \<longrightarrow> (\<exists>n. h p = Some n \<and> descendant_at p n))"

lemma path_nodes_prefix: "path_nodes h c \<Longrightarrow> prefix p c \<Longrightarrow> path_nodes h p"
  unfolding path_nodes_def by (blast intro: prefix_order.trans)

lemma tree_shape_path: "tree_shape t \<Longrightarrow> c = [] \<or> c \<in> dom (dt_nodes t) \<Longrightarrow> path_nodes (dt_nodes t) c"
  unfolding path_nodes_def using descendant_prefix tree_shapeD(2) by (fastforce simp: dom_def)

definition unwound :: "u32 \<Rightarrow> descendant_node \<Rightarrow> descendant_node" where
  "unwound sz n = n\<lparr>dn_non_recursion := dn_non_recursion n - sz, dn_marked_non_recursive := dn_marked_non_recursive n - 1\<rparr>"

lemma par_inject: "par a = par b \<longleftrightarrow> a = b"
  by (auto simp: par_def)

lemma unwind_spec:
  "path_nodes h c \<Longrightarrow> x \<noteq> [] \<Longrightarrow> prefix x c \<Longrightarrow>
   unwind sz (par (butlast x)) (par c) h =
     Some (\<lambda>p. if prefix x p \<and> prefix p c then map_option (unwound sz) (h p) else h p)"
proof (induction c arbitrary: h rule: rev_induct)
  case Nil
  then show ?case by simp
next
  case (snoc y c)
  let ?c = "c @ [y]"
  obtain n where n: "h ?c = Some n" "dn_parent n = par c"
    using snoc.prems(1) by (auto simp: path_nodes_def descendant_at_def)
  let ?h = "h(?c \<mapsto> unwound sz n)"
  have "par ?c \<noteq> par (butlast x)"
  proof
    assume "par ?c = par (butlast x)"
    then have "?c = butlast x" by (simp add: par_inject)
    then have "length ?c < length x" using snoc.prems(2) by (cases x rule: rev_cases) auto
    with prefix_length_le [OF snoc.prems(3)] show False by simp
  qed
  then have step: "unwind sz (par (butlast x)) (par ?c) h = unwind sz (par (butlast x)) (par c) ?h"
    using n by (subst unwind.simps) (simp add: par_def unwound_def)
  show ?case
  proof (cases "x = ?c")
    case True
    then have "unwind sz (par (butlast x)) (par c) ?h = Some ?h" by (subst unwind.simps) simp
    moreover have "?h = (\<lambda>p. if prefix x p \<and> prefix p ?c then map_option (unwound sz) (h p) else h p)"
      using True n by (auto simp: fun_eq_iff dest: prefix_order.antisym)
    ultimately show ?thesis using step by simp
  next
    case False
    then have xc: "prefix x c" using snoc.prems(3) by simp
    have "path_nodes ?h c"
      unfolding path_nodes_def
    proof (intro allI impI)
      fix p assume p: "p \<noteq> [] \<and> prefix p c"
      then have "p \<noteq> ?c" by (metis append_prefixD append.right_neutral not_Cons_self2 prefix_order.antisym same_append_eq same_prefix_nil)
      with p snoc.prems(1) show "\<exists>n. ?h p = Some n \<and> descendant_at p n" by (auto simp: path_nodes_def)
    qed
    then have "unwind sz (par (butlast x)) (par ?c) h =
      Some (\<lambda>p. if prefix x p \<and> prefix p c then map_option (unwound sz) (?h p) else ?h p)"
      unfolding step by (rule snoc.IH [OF _ snoc.prems(2) xc])
    moreover have "(\<lambda>p. if prefix x p \<and> prefix p c then map_option (unwound sz) (?h p) else ?h p) =
        (\<lambda>p. if prefix x p \<and> prefix p ?c then map_option (unwound sz) (h p) else h p)"
    proof
      fix p
      have "\<not> prefix ?c c" by (metis append_eq_conv_conj append_prefixD length_append_singleton not_less_eq_eq prefix_length_le order_refl)
      with n xc show "(if prefix x p \<and> prefix p c then map_option (unwound sz) (?h p) else ?h p) =
        (if prefix x p \<and> prefix p ?c then map_option (unwound sz) (h p) else h p)"
        by (cases "p = ?c") auto
    qed
    ultimately show ?thesis by simp
  qed
qed

lemma symbols_above_spec:
  "path_nodes h c \<Longrightarrow> distinct c \<Longrightarrow>
   symbols_above h (par c) m = Some (\<lambda>s. if s \<in> set c then Some (step_path c s) else m s)"
proof (induction c arbitrary: m rule: rev_induct)
  case Nil
  then show ?case by (subst symbols_above.simps) (simp add: par_def)
next
  case (snoc y c)
  obtain n where n: "h (c @ [y]) = Some n" "dn_parent n = par c" "dn_symbol n = y"
    using snoc.prems(1) by (auto simp: path_nodes_def descendant_at_def)
  have "path_nodes h c" by (rule path_nodes_prefix [OF snoc.prems(1)]) simp
  then have "symbols_above h (par c) (m(y \<mapsto> c @ [y])) =
      Some (\<lambda>s. if s \<in> set c then Some (step_path c s) else (m(y \<mapsto> c @ [y])) s)"
    by (rule snoc.IH) (use snoc.prems(2) in simp)
  moreover have "(\<lambda>s. if s \<in> set c then Some (step_path c s) else (m(y \<mapsto> c @ [y])) s) =
      (\<lambda>s. if s \<in> set (c @ [y]) then Some (step_path (c @ [y]) s) else m s)"
    by (auto simp: fun_eq_iff step_path_snoc)
  ultimately show ?case using n by (subst symbols_above.simps) (simp add: par_def)
qed

section \<open>One frame\<close>

definition d_val :: "(descendant_node \<Rightarrow> u32) \<Rightarrow> descendant_tree \<Rightarrow> pnref \<Rightarrow> u32" where
  "d_val f t p = (case dt_nodes t p of None \<Rightarrow> 0 | Some n \<Rightarrow> f n)"

text \<open>
  In the middle of a trace of size \<open>sz\<close> that found the tree \<open>t0\<close>: \<open>c\<close> is the path of the walk,
  \<open>V\<close> the nodes visited so far, \<open>e\<close> the node at which the trace has ended.
\<close>

definition mid_node :: "descendant_tree \<Rightarrow> u32 \<Rightarrow> pnref \<Rightarrow> pnref set \<Rightarrow> pnref option \<Rightarrow> pnref \<Rightarrow> descendant_node \<Rightarrow> bool" where
  "mid_node t0 sz c V e p n \<longleftrightarrow>
     dn_marked_non_recursive n = (if prefix p c then 1 else 0) \<and> dn_marked_total n = (p \<in> V) \<and>
     dn_non_recursion n = d_val dn_non_recursion t0 p + (if prefix p c then sz else 0) \<and>
     dn_total n = d_val dn_total t0 p + (if p \<in> V then sz else 0) \<and>
     dn_self n = d_val dn_self t0 p + (if e = Some p then sz else 0)"

definition mid :: "descendant_tree \<Rightarrow> u32 \<Rightarrow> pnref \<Rightarrow> pnref set \<Rightarrow> pnref option \<Rightarrow> descendant_tree \<Rightarrow> bool" where
  "mid t0 sz c V e t \<longleftrightarrow> tree_shape t \<and> (c = [] \<or> c \<in> dom (dt_nodes t)) \<and>
     dom (dt_nodes t0) \<subseteq> dom (dt_nodes t) \<and> V \<subseteq> dom (dt_nodes t) \<and>
     (\<forall>p n. dt_nodes t p = Some n \<longrightarrow> mid_node t0 sz c V e p n)"

lemma midD:
  assumes "mid t0 sz c V e t"
  shows "tree_shape t" "c = [] \<or> c \<in> dom (dt_nodes t)" "dom (dt_nodes t0) \<subseteq> dom (dt_nodes t)"
    "V \<subseteq> dom (dt_nodes t)" "dt_nodes t p = Some n \<Longrightarrow> mid_node t0 sz c V e p n"
  using assms unfolding mid_def by blast+

lemma mid_distinct: "mid t0 sz c V e t \<Longrightarrow> distinct c"
  using midD(1,2) [of t0 sz c V e t] tree_shapeD(2) by (fastforce simp: descendant_at_def)

lemma not_prefix_snoc: "\<not> prefix (c @ [s]) c"
  by (metis append_eq_conv_conj append_prefixD length_append_singleton not_less_eq_eq prefix_length_le order_refl)

lemma back_to_mid:
  assumes m: "mid t0 sz c V None t" and s: "s \<in> set c"
  shows "\<exists>t'. back_to sz (par c) (step_path c s) t = Some (t', seen_on (step_path c s)) \<and>
    mid t0 sz (butlast (step_path c s)) V None t' \<and> dom (dt_nodes t') = dom (dt_nodes t)"
proof -
  note M = midD [OF m]
  let ?x = "step_path c s" and ?h = "dt_nodes t"
  have x: "prefix ?x c" by (rule step_path_prefix [OF s])
  have c: "c \<noteq> []" "c \<in> dom ?h" using s M(2) by auto
  have path: "path_nodes ?h c" by (rule tree_shape_path [OF M(1,2)])
  have bx: "prefix (butlast ?x) c" by (rule prefix_order.trans [OF prefixeq_butlast x])
  have "?x \<noteq> [] \<and> prefix ?x c" using x by simp
  with path obtain n where n: "?h ?x = Some n" "dn_parent n = par (butlast ?x)"
    unfolding path_nodes_def descendant_at_def by blast
  define h where "h p = (if prefix ?x p \<and> prefix p c then map_option (unwound sz) (?h p) else ?h p)" for p
  let ?t = "t\<lparr>dt_nodes := h\<rparr>"
  have run1: "unwind sz (par (butlast ?x)) (par c) ?h = Some h"
    using unwind_spec [OF path _ x, of sz] by (simp add: h_def [abs_def])
  have dh: "dom h = dom ?h" by (auto simp: h_def dom_def split: if_splits)
  have shape: "tree_shape ?t"
    by (rule tree_shape_upd [OF M(1) dh]) (auto simp: h_def unwound_def split: if_splits)
  have px: "path_nodes h ?x"
    using tree_shape_path [OF shape, of c] c dh path_nodes_prefix [OF _ x] by auto
  have dx: "distinct ?x" by (rule step_path_distinct [OF mid_distinct [OF m]])
  have px': "par ?x = Some ?x" and pc: "par c = Some c" using c by (simp_all add: par_def)
  have run: "back_to sz (par c) ?x t = Some (?t, seen_on ?x)"
    using n run1 symbols_above_spec [OF px dx, of Map.empty] by (simp add: back_to_def pc px' seen_on_def [abs_def])
  have "mid t0 sz (butlast ?x) V None ?t"
    unfolding mid_def
  proof (intro conjI allI impI shape)
    show "butlast ?x = [] \<or> butlast ?x \<in> dom (dt_nodes ?t)"
      using descendant_prefix [OF M(1) c(2) bx] dh by auto
    show "dom (dt_nodes t0) \<subseteq> dom (dt_nodes ?t)" "V \<subseteq> dom (dt_nodes ?t)" using M(3,4) dh by simp_all
    fix p m' assume "dt_nodes ?t p = Some m'"
    then have m': "h p = Some m'" by simp
    then obtain k where k: "?h p = Some k" "m' = (if prefix ?x p \<and> prefix p c then unwound sz k else k)"
      by (auto simp: h_def split: if_splits)
    have pre: "prefix p (butlast ?x) \<longleftrightarrow> prefix p c \<and> \<not> prefix ?x p"
    proof
      assume p: "prefix p (butlast ?x)"
      moreover have "\<not> prefix ?x p"
      proof
        assume "prefix ?x p"
        from prefix_length_le [OF this] prefix_length_le [OF p] show False by (simp add: step_path_def)
      qed
      ultimately show "prefix p c \<and> \<not> prefix ?x p" using bx by (blast intro: prefix_order.trans)
    next
      assume p: "prefix p c \<and> \<not> prefix ?x p"
      with x have "prefix p ?x" "p \<noteq> ?x" using prefix_same_cases [of p c ?x] by auto
      then show "prefix p (butlast ?x)"
        by (metis append_butlast_last_id prefix_snoc step_path_ne)
    qed
    show "mid_node t0 sz (butlast ?x) V None p m'"
      using M(5) [OF k(1)] pre by (auto simp: k(2) mid_node_def unwound_def)
  qed
  with run dh show ?thesis by auto
qed

lemma find_descendant_mid:
  assumes m: "mid t0 sz c V None t"
  shows "\<exists>t' seen. find_descendant sz (par c) (seen_on c) s t = Some (t', seen, step_path c s) \<and>
    seen(s \<mapsto> step_path c s) = seen_on (step_path c s) \<and> mid t0 sz (butlast (step_path c s)) V None t' \<and>
    dom (dt_nodes t') = insert (step_path c s) (dom (dt_nodes t))"
proof -
  note M = midD [OF m]
  have d: "distinct c" by (rule mid_distinct [OF m])
  from find_child [OF M(1,2), of s] obtain rs where rs: "descendant_siblings t (par c) = Some rs"
    "match_descendant (dt_nodes t) s rs None = Some (if c @ [s] \<in> dom (dt_nodes t) then Some (c @ [s]) else None)" by blast
  consider (child) "c @ [s] \<in> dom (dt_nodes t)" | (seen) "c @ [s] \<notin> dom (dt_nodes t)" "s \<in> set c"
    | (new) "c @ [s] \<notin> dom (dt_nodes t)" "s \<notin> set c" by blast
  then show ?thesis
  proof cases
    case child
    then have "s \<notin> set c" using tree_shapeD(2) [OF M(1)] by (fastforce simp: descendant_at_def)
    with child rs m seen_on_step [OF d] show ?thesis
      by (simp add: find_descendant_def step_path_new insert_absorb)
  next
    case seen
    from back_to_mid [OF m seen(2)] obtain t' where
      t': "back_to sz (par c) (step_path c s) t = Some (t', seen_on (step_path c s))"
        "mid t0 sz (butlast (step_path c s)) V None t'" "dom (dt_nodes t') = dom (dt_nodes t)" by blast
    have "step_path c s \<in> dom (dt_nodes t)"
      using descendant_prefix [OF M(1) _ step_path_prefix [OF seen(2)]] M(2) seen(2) by auto
    with t' seen rs show ?thesis
      by (simp add: find_descendant_def seen_on_def [of c] seen_on_same insert_absorb)
  next
    case new
    from new_descendant_spec [OF M(1,2) _ new(1)] d new(2) obtain t' n where
      t': "new_descendant (par c) s t = Some (t', c @ [s])" "tree_shape t'" "dt_nodes t' (c @ [s]) = Some n"
      "dn_self n = 0" "dn_non_recursion n = 0" "dn_total n = 0" "dn_marked_non_recursive n = 0" "\<not> dn_marked_total n"
      "\<forall>p. p \<noteq> c @ [s] \<longrightarrow> (\<exists>ch. dt_nodes t' p = map_option (\<lambda>n. n\<lparr>dn_children := ch n\<rparr>) (dt_nodes t p))" by auto
    have dom: "dom (dt_nodes t') = insert (c @ [s]) (dom (dt_nodes t))"
    proof (rule set_eqI)
      fix p show "p \<in> dom (dt_nodes t') \<longleftrightarrow> p \<in> insert (c @ [s]) (dom (dt_nodes t))"
        using t'(3,9) by (cases "p = c @ [s]") (auto simp: dom_def, fastforce+)
    qed
    have "mid t0 sz c V None t'"
      unfolding mid_def
    proof (intro conjI allI impI t'(2))
      show "c = [] \<or> c \<in> dom (dt_nodes t')" "dom (dt_nodes t0) \<subseteq> dom (dt_nodes t')" "V \<subseteq> dom (dt_nodes t')"
        using M(2-4) dom by auto
      fix p k assume k: "dt_nodes t' p = Some k"
      show "mid_node t0 sz c V None p k"
      proof (cases "p = c @ [s]")
        case True
        then have "dt_nodes t0 p = None" "p \<notin> V" using M(3,4) new(1) by auto
        with True k t'(3-8) show ?thesis by (auto simp: mid_node_def d_val_def not_prefix_snoc)
      next
        case False
        with t'(9) obtain ch where "dt_nodes t' p = map_option (\<lambda>n. n\<lparr>dn_children := ch n\<rparr>) (dt_nodes t p)" by blast
        with k obtain l where "dt_nodes t p = Some l" "k = l\<lparr>dn_children := ch l\<rparr>" by (cases "dt_nodes t p") auto
        with M(5) show ?thesis by (auto simp: mid_node_def)
      qed
    qed
    moreover have "seen_on c s = None" using new(2) by (simp add: seen_on_def)
    with t'(1) new rs have "find_descendant sz (par c) (seen_on c) s t = Some (t', seen_on c, c @ [s])"
      by (simp add: find_descendant_def)
    ultimately show ?thesis using dom seen_on_step [OF d new(2)] new(2) by (simp add: step_path_new)
  qed
qed

lemma visit_mid:
  assumes m: "mid t0 sz (butlast x) V None t" and n: "dt_nodes t x = Some n" and x: "x \<noteq> []"
  shows "dn_marked_non_recursive n = 0" "dn_marked_total n \<longleftrightarrow> x \<in> V"
    "mid t0 sz x (insert x V) (if b then Some x else None) (t\<lparr>dt_nodes := (dt_nodes t)(x \<mapsto> visit sz b n)\<rparr>)"
proof -
  note M = midD [OF m]
  have np: "\<not> prefix x (butlast x)" using not_prefix_snoc [of "butlast x" "last x"] x by simp
  from M(5) [OF n] np show mk: "dn_marked_non_recursive n = 0" "dn_marked_total n \<longleftrightarrow> x \<in> V" by (auto simp: mid_node_def)
  let ?t = "t\<lparr>dt_nodes := (dt_nodes t)(x \<mapsto> visit sz b n)\<rparr>"
  have pre: "prefix p x \<longleftrightarrow> p = x \<or> prefix p (butlast x)" for p
    using prefix_snoc [of p "butlast x" "last x"] x by auto
  show "mid t0 sz x (insert x V) (if b then Some x else None) ?t"
    unfolding mid_def
  proof (intro conjI allI impI)
    show "tree_shape ?t"
      by (rule tree_shape_upd [OF M(1)]) (auto simp: n visit_def Let_def)
    show "x = [] \<or> x \<in> dom (dt_nodes ?t)" "dom (dt_nodes t0) \<subseteq> dom (dt_nodes ?t)" "insert x V \<subseteq> dom (dt_nodes ?t)"
      using M(3,4) by auto
    fix p k assume k: "dt_nodes ?t p = Some k"
    show "mid_node t0 sz x (insert x V) (if b then Some x else None) p k"
    proof (cases "p = x")
      case True
      with k have "k = visit sz b n" by simp
      with M(5) [OF n] mk np True show ?thesis by (auto simp: mid_node_def visit_def Let_def)
    next
      case False
      with k M(5) have "mid_node t0 sz (butlast x) V None p k" by simp
      with False pre show ?thesis by (auto simp: mid_node_def)
    qed
  qed
qed

section \<open>A trace\<close>

definition names :: "(pnref \<rightharpoonup> profile_node) \<Rightarrow> pnref list \<Rightarrow> cstr list \<Rightarrow> bool" where
  "names h = list_all2 (\<lambda>r s. \<exists>n. h r = Some n \<and> pn_symbol n = s)"

definition end_of :: "pnref \<Rightarrow> cstr list \<Rightarrow> pnref option" where
  "end_of c ss = (if ss = [] then None else Some (foldl step_path c ss))"

lemma trace_frames_mid:
  "names h rs ss \<Longrightarrow> mid t0 sz c V None t \<Longrightarrow> {p. p \<noteq> [] \<and> prefix p c} \<subseteq> set um \<Longrightarrow>
   set um \<subseteq> dom (dt_nodes t) \<Longrightarrow> set ur = V \<Longrightarrow>
   \<exists>t' um' ur'. trace_frames h sz (par c) (seen_on c) um ur rs t = Some (t', um', ur') \<and>
     mid t0 sz (foldl step_path c ss) (V \<union> visited c ss) (end_of c ss) t' \<and>
     dom (dt_nodes t') = dom (dt_nodes t) \<union> visited c ss \<and>
     {p. p \<noteq> [] \<and> prefix p (foldl step_path c ss)} \<subseteq> set um' \<and> set um' \<subseteq> dom (dt_nodes t') \<and>
     set ur' = V \<union> visited c ss"
proof (induction rs arbitrary: c V um ur t ss)
  case Nil
  then show ?case by (simp add: names_def end_of_def)
next
  case (Cons r rs)
  then obtain s us nd where ss: "ss = s # us" "names h rs us" and nd: "h r = Some nd" "pn_symbol nd = s"
    by (auto simp: names_def list_all2_Cons1)
  let ?x = "step_path c s"
  from find_descendant_mid [OF Cons.prems(2), of s] obtain t1 seen where
    t1: "find_descendant sz (par c) (seen_on c) s t = Some (t1, seen, ?x)" "seen(s \<mapsto> ?x) = seen_on ?x"
    "mid t0 sz (butlast ?x) V None t1" "dom (dt_nodes t1) = insert ?x (dom (dt_nodes t))" by blast
  then obtain n where n: "dt_nodes t1 ?x = Some n" by blast
  note v = visit_mid [OF t1(3) n step_path_ne]
  let ?t = "t1\<lparr>dt_nodes := (dt_nodes t1)(?x \<mapsto> visit sz (rs = []) n)\<rparr>"
  let ?um = "?x # um" and ?ur = "if dn_marked_total n then ur else ?x # ur"
  have step: "trace_frames h sz (par c) (seen_on c) um ur (r # rs) t =
      trace_frames h sz (par ?x) (seen_on ?x) ?um ?ur rs ?t"
    using nd t1(1,2) n v(1) by (simp add: par_def)
  have um: "{p. p \<noteq> [] \<and> prefix p ?x} \<subseteq> set ?um"
  proof
    fix p assume "p \<in> {p. p \<noteq> [] \<and> prefix p ?x}"
    then have p: "p \<noteq> []" "p = ?x \<or> prefix p (takeWhile (\<lambda>x. x \<noteq> s) c)" by (auto simp: step_path_def)
    moreover have "prefix (takeWhile (\<lambda>x. x \<noteq> s) c) c" by (metis prefix_def takeWhile_dropWhile_id)
    ultimately show "p \<in> set ?um" using Cons.prems(3) by (auto intro: prefix_order.trans)
  qed
  have um2: "set ?um \<subseteq> dom (dt_nodes ?t)" using Cons.prems(4) t1(4) by auto
  have ur: "set ?ur = insert ?x V" using v(2) Cons.prems(5) by auto
  show ?case
  proof (cases "rs = []")
    case True
    then have us: "us = []" using ss(2) by (simp add: names_def)
    have "trace_frames h sz (par c) (seen_on c) um ur (r # rs) t = Some (?t, ?um, ?ur)"
      using step True by simp
    then show ?thesis
      by (rule exI [of _ ?t, OF exI [of _ ?um, OF exI [of _ ?ur, OF conjI]]])
        (use v(3) [of True] um um2 ur t1(4) True us ss(1) in \<open>auto simp: end_of_def\<close>)
  next
    case False
    then have us: "us \<noteq> []" using ss(2) by (auto simp: names_def)
    have "mid t0 sz ?x (insert ?x V) None ?t" using v(3) [of False] False by simp
    from Cons.IH [OF ss(2) this um um2 ur] obtain t' um' ur' where
      t': "trace_frames h sz (par ?x) (seen_on ?x) ?um ?ur rs ?t = Some (t', um', ur')"
      "mid t0 sz (foldl step_path ?x us) (insert ?x V \<union> visited ?x us) (end_of ?x us) t'"
      "dom (dt_nodes t') = dom (dt_nodes ?t) \<union> visited ?x us"
      "{p. p \<noteq> [] \<and> prefix p (foldl step_path ?x us)} \<subseteq> set um'" "set um' \<subseteq> dom (dt_nodes t')"
      "set ur' = insert ?x V \<union> visited ?x us" by blast
    have "dom (dt_nodes t') = dom (dt_nodes t) \<union> visited c ss" using t'(3) t1(4) ss(1) by auto
    moreover have "V \<union> visited c ss = insert ?x V \<union> visited ?x us" using ss(1) by auto
    ultimately show ?thesis unfolding step using t' us ss(1)
      by (intro exI conjI) (assumption | simp add: end_of_def)+
  qed
qed

lemma unmark_nodes_spec:
  assumes "\<And>n. f (f n) = f n"
  shows "set rs \<subseteq> dom h \<Longrightarrow> unmark_nodes f rs h = Some (\<lambda>p. if p \<in> set rs then map_option f (h p) else h p)"
proof (induction rs arbitrary: h)
  case Nil
  then show ?case by simp
next
  case (Cons r rs)
  then obtain n where n: "h r = Some n" by auto
  have "unmark_nodes f rs (h(r \<mapsto> f n)) =
      Some (\<lambda>p. if p \<in> set rs then map_option f ((h(r \<mapsto> f n)) p) else (h(r \<mapsto> f n)) p)"
    by (rule Cons.IH) (use Cons.prems in auto)
  moreover have "(\<lambda>p. if p \<in> set rs then map_option f ((h(r \<mapsto> f n)) p) else (h(r \<mapsto> f n)) p) =
      (\<lambda>p. if p \<in> set (r # rs) then map_option f (h p) else h p)"
    using n assms by (auto simp: fun_eq_iff)
  ultimately show ?case using n by simp
qed

text \<open>Between traces no node is marked.\<close>

definition descendant_inv :: "descendant_tree \<Rightarrow> bool" where
  "descendant_inv t \<longleftrightarrow> tree_shape t \<and>
     (\<forall>p n. dt_nodes t p = Some n \<longrightarrow> dn_marked_non_recursive n = 0 \<and> \<not> dn_marked_total n)"

lemma foldl_step_distinct: "distinct c \<Longrightarrow> distinct (foldl step_path c ss)"
  by (induction ss arbitrary: c) (simp_all add: step_path_distinct)

lemma add_trace_to_tree_spec:
  assumes inv: "descendant_inv t" and ss: "names h rs ss"
  shows "\<exists>t'. add_trace_to_tree h rs sz t = Some t' \<and> descendant_inv t' \<and>
    dom (dt_nodes t') = dom (dt_nodes t) \<union> visited [] ss \<and>
    (\<forall>p. d_val dn_self t' p = d_val dn_self t p + (if p \<noteq> [] \<and> p = fold_path ss then sz else 0)) \<and>
    (\<forall>p. d_val dn_non_recursion t' p = d_val dn_non_recursion t p + (if p \<noteq> [] \<and> prefix p (fold_path ss) then sz else 0)) \<and>
    (\<forall>p. d_val dn_total t' p = d_val dn_total t p + (if p \<in> visited [] ss then sz else 0))"
proof -
  have "mid t sz [] {} None t"
    using inv tree_shapeD(1) [of t] by (auto simp: mid_def descendant_inv_def mid_node_def d_val_def)
  from trace_frames_mid [OF ss this, of "[]" "[]"] obtain t1 um ur where
    t1: "trace_frames h sz None Map.empty [] [] rs t = Some (t1, um, ur)"
    "mid t sz (fold_path ss) (visited [] ss) (end_of [] ss) t1" "dom (dt_nodes t1) = dom (dt_nodes t) \<union> visited [] ss"
    "{p. p \<noteq> [] \<and> prefix p (fold_path ss)} \<subseteq> set um" "set um \<subseteq> dom (dt_nodes t1)" "set ur = visited [] ss"
    by (auto simp: par_def fold_path_def)
  note M = midD [OF t1(2)]
  let ?f = "dn_marked_non_recursive_update (\<lambda>_. 0)" and ?g = "dn_marked_total_update (\<lambda>_. False)"
  define h1 where "h1 p = (if p \<in> set um then map_option ?f (dt_nodes t1 p) else dt_nodes t1 p)" for p
  define h2 where "h2 p = (if p \<in> set ur then map_option ?g (h1 p) else h1 p)" for p
  have d1: "dom h1 = dom (dt_nodes t1)" by (auto simp: h1_def dom_def split: if_splits)
  have d2: "dom h2 = dom h1" by (auto simp: h2_def dom_def split: if_splits)
  have "unmark_nodes ?f um (dt_nodes t1) = Some h1"
    using unmark_nodes_spec [of ?f um "dt_nodes t1"] t1(5) by (simp add: h1_def [abs_def])
  moreover have "unmark_nodes ?g ur h1 = Some h2"
    using unmark_nodes_spec [of ?g ur h1] t1(6) M(4) d1 by (simp add: h2_def [abs_def])
  ultimately have run: "add_trace_to_tree h rs sz t = Some (t1\<lparr>dt_nodes := h2\<rparr>)"
    using t1(1) by (simp add: add_trace_to_tree_def)
  let ?t = "t1\<lparr>dt_nodes := h2\<rparr>"
  have node: "\<exists>k. dt_nodes t1 p = Some k \<and> n = k\<lparr>dn_marked_non_recursive := 0, dn_marked_total := False\<rparr>" if n: "h2 p = Some n" for p n
  proof -
    from n obtain k where k: "dt_nodes t1 p = Some k"
      "n = (if p \<in> set ur then ?g else id) ((if p \<in> set um then ?f else id) k)"
      by (auto simp: h2_def h1_def split: if_splits)
    have "p \<noteq> []" using k(1) tree_shapeD(1) [OF M(1)] by auto
    with M(5) [OF k(1)] t1(4,6) have "p \<notin> set um \<Longrightarrow> dn_marked_non_recursive k = 0" "p \<notin> set ur \<Longrightarrow> \<not> dn_marked_total k"
      by (auto simp: mid_node_def)
    with k show ?thesis by (cases k) auto
  qed
  have shape: "tree_shape ?t"
  proof (rule tree_shape_upd [OF M(1)])
    show "dom h2 = dom (dt_nodes t1)" using d1 d2 by simp
    show "\<forall>p m. h2 p = Some m \<longrightarrow> (\<exists>n. dt_nodes t1 p = Some n \<and> dn_symbol m = dn_symbol n \<and>
      dn_parent m = dn_parent n \<and> dn_children m = dn_children n)" using node by fastforce
  qed
  then have inv': "descendant_inv ?t" using node by (fastforce simp: descendant_inv_def)
  have vals: "d_val f ?t p = d_val f t1 p"
    if f: "\<forall>k. f (k\<lparr>dn_marked_non_recursive := 0, dn_marked_total := False\<rparr>) = f k" for f p
  proof (cases "h2 p")
    case None
    then have "p \<notin> dom h2" by auto
    with d1 d2 have "dt_nodes t1 p = None" by auto
    with None show ?thesis by (simp add: d_val_def)
  next
    case (Some n)
    with node [OF Some] f show ?thesis by (auto simp: d_val_def)
  qed
  have out: "d_val f t1 p = 0 \<and> d_val f t p = 0 \<and> p \<notin> visited [] ss \<and> \<not> (p \<noteq> [] \<and> prefix p (fold_path ss)) \<and>
      end_of [] ss \<noteq> Some p" if p: "dt_nodes t1 p = None" for f p
  proof -
    have "p \<noteq> []  \<Longrightarrow> \<not> prefix p (fold_path ss)"
      using descendant_prefix [OF M(1), of "fold_path ss" p] M(2) p by auto
    moreover have "end_of [] ss = Some p \<Longrightarrow> p \<noteq> [] \<and> p = fold_path ss"
      by (cases ss rule: rev_cases) (auto simp: end_of_def fold_path_def)
    ultimately show ?thesis using p M(3,4) by (auto simp: d_val_def domIff split: option.splits)
  qed
  have e: "end_of [] ss = Some p \<longleftrightarrow> p \<noteq> [] \<and> p = fold_path ss" for p
    by (cases ss rule: rev_cases) (auto simp: end_of_def fold_path_def)
  have "d_val dn_self t1 p = d_val dn_self t p + (if p \<noteq> [] \<and> p = fold_path ss then sz else 0) \<and>
      d_val dn_non_recursion t1 p = d_val dn_non_recursion t p + (if p \<noteq> [] \<and> prefix p (fold_path ss) then sz else 0) \<and>
      d_val dn_total t1 p = d_val dn_total t p + (if p \<in> visited [] ss then sz else 0)" for p
  proof (cases "dt_nodes t1 p")
    case None
    with out [OF None] e show ?thesis by auto
  next
    case (Some n)
    then have "p \<noteq> []" using tree_shapeD(1) [OF M(1)] by auto
    moreover have "d_val f t1 p = f n" for f using Some by (simp add: d_val_def)
    ultimately show ?thesis using M(5) [OF Some] e by (simp add: mid_node_def)
  qed
  with run inv' vals t1(3) d1 d2 show ?thesis by (intro exI [of _ ?t]) simp
qed

section \<open>Freeing\<close>

interpretation descendant_freeing: tree_freeing dn_children free_descendants profile_descendant_tree_free
  by unfold_locales (simp_all add: free_descendants.simps)

section \<open>The leaves and their traces\<close>

lemma list_leaves_spec:
  assumes inv: "profile_inv pr"
  shows "antichain todo \<Longrightarrow> set todo \<subseteq> dom (pr_nodes pr) \<Longrightarrow> distinct acc \<Longrightarrow> set acc \<inter> below (pr_nodes pr) todo = {} \<Longrightarrow>
    \<exists>ls. list_leaves (pr_nodes pr) todo acc = Some ls \<and> distinct ls \<and>
      set ls = {l \<in> below (pr_nodes pr) todo. tree_self pr l \<noteq> 0} \<union> set acc"
proof (induction "card (below (pr_nodes pr) todo)" arbitrary: todo acc rule: less_induct)
  case less
  note tree = profile_path_tree [OF inv]
  show ?case
  proof (cases todo)
    case Nil
    then show ?thesis using less.prems by (subst list_leaves.simps) simp
  next
    case (Cons r rs)
    then obtain n where n: "pr_nodes pr r = Some n" using less.prems(2) by auto
    note ch = below_children [OF tree n, of rs]
    have ac: "antichain (r # rs)" using less.prems(1) Cons by simp
    let ?todo = "pn_children n @ rs" and ?acc = "if pn_self n > 0 then r # acc else acc"
    have dec: "card (below (pr_nodes pr) ?todo) < card (below (pr_nodes pr) todo)"
      using ch(1,2) [OF ac] Cons finite_below [OF tree, of ?todo] by simp
    have sub: "set ?todo \<subseteq> dom (pr_nodes pr)"
      using less.prems(2) Cons profile_invD(6) [OF inv n] by (auto simp: kid_paths_def)
    have "distinct ?acc" "set ?acc \<inter> below (pr_nodes pr) ?todo = {}" using less.prems(3,4) ch(1,2) [OF ac] Cons by auto
    from less.hyps [OF dec ch(3) [OF ac] sub this] obtain ls where
      ls: "list_leaves (pr_nodes pr) ?todo ?acc = Some ls" "distinct ls"
      "set ls = {l \<in> below (pr_nodes pr) ?todo. tree_self pr l \<noteq> 0} \<union> set ?acc" by blast
    have "tree_self pr r = pn_self n" using n by (simp add: tree_self_def)
    then have "set ls = {l \<in> below (pr_nodes pr) todo. tree_self pr l \<noteq> 0} \<union> set acc"
      using ls(3) ch(1) [OF ac] Cons by (auto simp: word_gt_0)
    moreover have "list_leaves (pr_nodes pr) todo acc = list_leaves (pr_nodes pr) ?todo ?acc"
      using n Cons by (subst list_leaves.simps) simp
    ultimately show ?thesis using ls(1,2) by metis
  qed
qed

lemma leaf_trace_spec:
  assumes inv: "profile_inv pr" and p: "p \<noteq> []"
  shows "l \<in> dom (pr_nodes pr) \<Longrightarrow> prefix p l \<Longrightarrow>
    \<exists>rs. leaf_trace (pr_nodes pr) (par (butlast p)) (par l) acc = Some (rs @ acc) \<and>
      names (pr_nodes pr) rs (drop (length p - 1) l)"
proof (induction l arbitrary: acc rule: rev_induct)
  case Nil
  with p show ?case by simp
next
  case (snoc y c)
  let ?l = "c @ [y]"
  obtain n where n: "pr_nodes pr ?l = Some n" using snoc.prems(1) by blast
  then have nd: "pn_parent n = par c" "pn_symbol n = y" "c = [] \<or> c \<in> dom (pr_nodes pr)"
    using profile_invD(3,4) [OF inv n] by (auto simp: node_at_def)
  have "length (butlast p) < length ?l" using prefix_length_le [OF snoc.prems(2)] p
    by (cases p rule: rev_cases) auto
  then have "par ?l \<noteq> par (butlast p)" by (metis less_irrefl par_inject)
  then have step: "leaf_trace (pr_nodes pr) (par (butlast p)) (par ?l) acc =
      leaf_trace (pr_nodes pr) (par (butlast p)) (par c) (?l # acc)"
    using n nd by (subst leaf_trace.simps) (simp add: par_def)
  show ?case
  proof (cases "p = ?l")
    case True
    then have "leaf_trace (pr_nodes pr) (par (butlast p)) (par c) (?l # acc) = Some ([?l] @ acc)"
      by (subst leaf_trace.simps) (simp add: par_def)
    moreover have "names (pr_nodes pr) [?l] (drop (length p - 1) ?l)" using True n nd by (simp add: names_def)
    ultimately show ?thesis using step by metis
  next
    case False
    then have pc: "prefix p c" using snoc.prems(2) by simp
    then have "c \<noteq> []" using p by auto
    with nd(3) have "c \<in> dom (pr_nodes pr)" by blast
    from snoc.IH [OF this pc, of "?l # acc"] obtain rs where
      rs: "leaf_trace (pr_nodes pr) (par (butlast p)) (par c) (?l # acc) = Some (rs @ ?l # acc)"
      "names (pr_nodes pr) rs (drop (length p - 1) c)" by blast
    have "length p - 1 \<le> length c" using prefix_length_le [OF pc] by simp
    then have "names (pr_nodes pr) (rs @ [?l]) (drop (length p - 1) ?l)"
      using rs(2) n nd by (simp add: names_def list_all2_appendI)
    with rs(1) step show ?thesis by (intro exI [of _ "rs @ [?l]"]) simp
  qed
qed

section \<open>A list of traces\<close>

definition tree_after :: "descendant_tree \<Rightarrow> (cstr list \<times> u32) list \<Rightarrow> descendant_tree \<Rightarrow> bool" where
  "tree_after t us t' \<longleftrightarrow> descendant_inv t' \<and>
    dom (dt_nodes t') = dom (dt_nodes t) \<union> (\<Union>(u, z) \<in> set us. visited [] u) \<and>
    (\<forall>p. d_val dn_self t' p = d_val dn_self t p + weight_of (\<lambda>z. z) (\<lambda>u. p \<noteq> [] \<and> p = fold_path u) us) \<and>
    (\<forall>p. d_val dn_non_recursion t' p =
       d_val dn_non_recursion t p + weight_of (\<lambda>z. z) (\<lambda>u. p \<noteq> [] \<and> prefix p (fold_path u)) us) \<and>
    (\<forall>p. d_val dn_total t' p = d_val dn_total t p + weight_of (\<lambda>z. z) (\<lambda>u. p \<in> visited [] u) us)"

lemma tree_after_Nil: "descendant_inv t \<Longrightarrow> tree_after t [] t"
  by (simp add: tree_after_def)

lemma tree_after_append: "tree_after t us t1 \<Longrightarrow> tree_after t1 vs t2 \<Longrightarrow> tree_after t (us @ vs) t2"
  unfolding tree_after_def weight_of_append by (auto simp: add.assoc)

lemma tree_after_inv: "tree_after t us t' \<Longrightarrow> descendant_inv t'"
  by (simp add: tree_after_def)

definition leaf_record :: "profile \<Rightarrow> pnref \<Rightarrow> pnref \<Rightarrow> cstr list \<times> u32" where
  "leaf_record pr p l = (drop (length p - 1) l, tree_self pr l)"

lemma add_leaf_spec:
  assumes inv: "profile_inv pr" and t: "descendant_inv t" and p: "p \<in> dom (pr_nodes pr)" and l: "l \<in> below (pr_nodes pr) [p]"
  shows "\<exists>t'. add_leaf_to_tree (pr_nodes pr) l p t = Some t' \<and> tree_after t [leaf_record pr p l] t'"
proof -
  have ne: "p \<noteq> []" using p profile_invD(2) [OF inv] by auto
  obtain n where n: "pr_nodes pr p = Some n" "pn_parent n = par (butlast p)"
    using p profile_invD(3) [OF inv] by (fastforce simp: node_at_def)
  have l': "l \<in> dom (pr_nodes pr)" "prefix p l" using l by (auto simp: below_def)
  then obtain m where m: "pr_nodes pr l = Some m" by blast
  have "l \<noteq> []" using l'(2) ne by auto
  with leaf_trace_spec [OF inv ne l', of "[]"] obtain rs where
    rs: "leaf_trace (pr_nodes pr) (par (butlast p)) (Some l) [] = Some rs" "names (pr_nodes pr) rs (drop (length p - 1) l)"
    by (auto simp: par_def)
  from add_trace_to_tree_spec [OF t rs(2), of "tree_self pr l"] obtain t' where
    "add_trace_to_tree (pr_nodes pr) rs (tree_self pr l) t = Some t'" "tree_after t [leaf_record pr p l] t'"
    by (auto simp: tree_after_def leaf_record_def)
  moreover have "tree_self pr l = pn_self m" using m by (simp add: tree_self_def)
  ultimately show ?thesis using n m rs(1) by (simp add: add_leaf_to_tree_def)
qed

lemma add_leaves_spec:
  assumes inv: "profile_inv pr" and p: "p \<in> dom (pr_nodes pr)"
  shows "descendant_inv t \<Longrightarrow> set ls \<subseteq> below (pr_nodes pr) [p] \<Longrightarrow>
    \<exists>t'. add_leaves_to_tree (pr_nodes pr) p ls t = Some t' \<and> tree_after t (map (leaf_record pr p) ls) t'"
proof (induction ls arbitrary: t)
  case Nil
  then show ?case by (simp add: tree_after_Nil)
next
  case (Cons l ls)
  then have "l \<in> below (pr_nodes pr) [p]" by simp
  from add_leaf_spec [OF inv Cons.prems(1) p this] obtain t1 where
    t1: "add_leaf_to_tree (pr_nodes pr) l p t = Some t1" "tree_after t [leaf_record pr p l] t1" by blast
  from Cons.IH [OF tree_after_inv [OF t1(2)]] Cons.prems(2) obtain t2 where
    "add_leaves_to_tree (pr_nodes pr) p ls t1 = Some t2" "tree_after t1 (map (leaf_record pr p) ls) t2" by auto
  with t1 tree_after_append [OF t1(2), of "map (leaf_record pr p) ls" t2] show ?case by simp
qed

text \<open>The traces that the nodes of a symbol contribute.\<close>

definition records_of :: "profile \<Rightarrow> pnref \<Rightarrow> (cstr list \<times> u32) list \<Rightarrow> bool" where
  "records_of pr p us \<longleftrightarrow> (\<exists>ls. distinct ls \<and> set ls = {l \<in> below (pr_nodes pr) [p]. tree_self pr l \<noteq> 0} \<and> us = map (leaf_record pr p) ls)"

lemma descendants_from_spec:
  assumes inv: "profile_inv pr"
  shows "chain pn_next (pr_nodes pr) start xs \<Longrightarrow> descendant_inv t \<Longrightarrow>
    \<exists>t' uss. descendants_from (pr_nodes pr) start t = Some t' \<and> tree_after t (concat uss) t' \<and>
      list_all2 (records_of pr) (filter (\<lambda>p. pn_toplevel (the (pr_nodes pr p))) xs) uss"
proof (induction xs arbitrary: start t)
  case Nil
  then show ?case by (subst descendants_from.simps) (auto simp: tree_after_Nil)
next
  case (Cons p xs)
  then obtain n where n: "start = Some p" "pr_nodes pr p = Some n" "chain pn_next (pr_nodes pr) (pn_next n) xs" by auto
  show ?case
  proof (cases "pn_toplevel n")
    case False
    with Cons.IH [OF n(3) Cons.prems(2)] n show ?thesis by (subst descendants_from.simps) simp
  next
    case True
    have p: "p \<in> dom (pr_nodes pr)" using n(2) by blast
    have "antichain [p]" "set [p] \<subseteq> dom (pr_nodes pr)" using p by (auto simp: antichain_def)
    from list_leaves_spec [OF inv this, of "[]"] obtain ls where
      ls: "node_list_leaves (pr_nodes pr) p = Some ls" "distinct ls" "set ls = {l \<in> below (pr_nodes pr) [p]. tree_self pr l \<noteq> 0}"
      by (auto simp: node_list_leaves_def)
    then have "set ls \<subseteq> below (pr_nodes pr) [p]" by auto
    from add_leaves_spec [OF inv p Cons.prems(2) this] obtain t1 where
      t1: "add_leaves_to_tree (pr_nodes pr) p ls t = Some t1" "tree_after t (map (leaf_record pr p) ls) t1" by blast
    from Cons.IH [OF n(3) tree_after_inv [OF t1(2)]] obtain t2 uss where
      t2: "descendants_from (pr_nodes pr) (pn_next n) t1 = Some t2" "tree_after t1 (concat uss) t2"
      "list_all2 (records_of pr) (filter (\<lambda>p. pn_toplevel (the (pr_nodes pr p))) xs) uss" by blast
    have "records_of pr p (map (leaf_record pr p) ls)" using ls by (auto simp: records_of_def)
    with t2 t1 ls(1) n True tree_after_append [OF t1(2) t2(2)] show ?thesis
      by (subst descendants_from.simps) (auto intro!: exI [of _ "map (leaf_record pr p) ls # uss"])
  qed
qed

section \<open>The weights of the tree\<close>

lemma toplevel_first:
  assumes inv: "profile_inv pr" and p: "p \<in> symbol_paths pr s"
  shows "pn_toplevel (the (pr_nodes pr p)) \<longleftrightarrow> first_for s p"
proof -
  obtain n where n: "pr_nodes pr p = Some n" "last p = s" using p by (auto simp: symbol_paths_def)
  have "p \<noteq> []" using n(1) profile_invD(2) [OF inv] by auto
  then have "p = butlast p @ [s]" using n(2) by (metis append_butlast_last_id)
  then have "first_for s p \<longleftrightarrow> s \<notin> set (butlast p)"
    unfolding first_for_def by (metis append1_eq_conv)
  with profile_invD(3) [OF inv n(1)] n show ?thesis by (simp add: node_at_def)
qed

lemma first_for_suffix:
  assumes "first_for s p" and "prefix p l"
  shows "drop (length p - 1) l = dropWhile (\<lambda>x. x \<noteq> s) l"
proof -
  have p: "p = takeWhile (\<lambda>x. x \<noteq> s) l @ [s]" by (rule first_for_prefix_eq [OF assms])
  have "takeWhile (\<lambda>x. x \<noteq> s) l @ dropWhile (\<lambda>x. x \<noteq> s) l = l" by simp
  then have "drop (length (takeWhile (\<lambda>x. x \<noteq> s) l)) l = dropWhile (\<lambda>x. x \<noteq> s) l" by (metis append_eq_conv_conj)
  with p show ?thesis by (metis add_diff_cancel_right' length_append_singleton Suc_eq_plus1)
qed

lemma records_weight:
  assumes inv: "profile_inv pr" and us: "records_of pr p us" and p: "first_for s p"
  shows "weight_of (\<lambda>z. z) Q us = (\<Sum>l \<in> below (pr_nodes pr) [p]. if Q (dropWhile (\<lambda>x. x \<noteq> s) l) then tree_self pr l else 0)"
proof -
  obtain ls where ls: "distinct ls" "set ls = {l \<in> below (pr_nodes pr) [p]. tree_self pr l \<noteq> 0}" "us = map (leaf_record pr p) ls"
    using us by (auto simp: records_of_def)
  note fin = finite_below [OF profile_path_tree [OF inv], of "[p]"]
  have "weight_of (\<lambda>z. z) Q us = (\<Sum>l \<leftarrow> ls. if Q (drop (length p - 1) l) then tree_self pr l else 0)"
    by (simp add: weight_of_def ls(3) leaf_record_def comp_def)
  also have "\<dots> = (\<Sum>l \<in> set ls. if Q (drop (length p - 1) l) then tree_self pr l else 0)"
    by (rule sum_list_distinct_conv_sum_set [OF ls(1)])
  also have "\<dots> = (\<Sum>l \<in> set ls. if Q (dropWhile (\<lambda>x. x \<noteq> s) l) then tree_self pr l else 0)"
    by (rule sum.cong) (use ls(2) first_for_suffix [OF p] in \<open>auto simp: below_def\<close>)
  also have "\<dots> = (\<Sum>l \<in> below (pr_nodes pr) [p]. if Q (dropWhile (\<lambda>x. x \<noteq> s) l) then tree_self pr l else 0)"
    by (rule sum.mono_neutral_left [OF fin]) (use ls(2) in auto)
  finally show ?thesis .
qed

lemma concat_weight:
  "weight_of (\<lambda>z. z) Q (concat uss) = (\<Sum>us \<leftarrow> uss. weight_of (\<lambda>z. z) Q us)"
  by (induction uss) (simp_all add: weight_of_append)

lemma all_records_weight:
  assumes inv: "profile_inv pr" and ps: "distinct ps" "set ps = {p \<in> dom (pr_nodes pr). first_for s p}"
    and uss: "list_all2 (records_of pr) ps uss"
  shows "weight_of (\<lambda>z. z) Q (concat uss) =
    (\<Sum>l \<in> {l \<in> dom (pr_nodes pr). s \<in> set l \<and> Q (dropWhile (\<lambda>x. x \<noteq> s) l)}. tree_self pr l)"
proof -
  let ?g = "\<lambda>l. if Q (dropWhile (\<lambda>x. x \<noteq> s) l) then tree_self pr l else 0"
  have fin: "finite (dom (pr_nodes pr))" by (rule profile_invD(1) [OF inv])
  have "\<forall>p \<in> set ps. first_for s p" using ps(2) by simp
  with uss have "(\<Sum>us \<leftarrow> uss. weight_of (\<lambda>z. z) Q us) = (\<Sum>p \<leftarrow> ps. \<Sum>l \<in> below (pr_nodes pr) [p]. ?g l)"
  proof (induction ps uss rule: list_all2_induct)
    case (Cons p ps us uss)
    with records_weight [OF inv Cons(1), of s Q] show ?case by simp
  qed simp
  then have "weight_of (\<lambda>z. z) Q (concat uss) = (\<Sum>p \<in> set ps. \<Sum>l \<in> below (pr_nodes pr) [p]. ?g l)"
    unfolding concat_weight sum_list_distinct_conv_sum_set [OF ps(1)] .
  also have "\<dots> = (\<Sum>l \<in> (\<Union>p \<in> set ps. below (pr_nodes pr) [p]). ?g l)"
  proof (rule sum.UNION_disjoint [symmetric])
    show "\<forall>p \<in> set ps. finite (below (pr_nodes pr) [p])" using fin by (auto simp: below_def)
    show "\<forall>p \<in> set ps. \<forall>q \<in> set ps. p \<noteq> q \<longrightarrow> below (pr_nodes pr) [p] \<inter> below (pr_nodes pr) [q] = {}"
    proof (intro ballI impI)
      fix p q assume pq: "p \<in> set ps" "q \<in> set ps" "p \<noteq> q"
      then have f: "first_for s p" "first_for s q" using ps(2) by auto
      have False if "prefix p l" "prefix q l" for l using first_for_unique [OF f that] pq(3) by simp
      then show "below (pr_nodes pr) [p] \<inter> below (pr_nodes pr) [q] = {}" by (auto simp: below_def)
    qed
  qed simp
  also have "(\<Union>p \<in> set ps. below (pr_nodes pr) [p]) = {l \<in> dom (pr_nodes pr). s \<in> set l}"
  proof (intro equalityI subsetI)
    fix l assume "l \<in> (\<Union>p \<in> set ps. below (pr_nodes pr) [p])"
    then obtain p where "first_for s p" "prefix p l" "l \<in> dom (pr_nodes pr)" using ps(2) by (auto simp: below_def)
    then show "l \<in> {l \<in> dom (pr_nodes pr). s \<in> set l}" using first_for_mem by simp
  next
    fix l assume l: "l \<in> {l \<in> dom (pr_nodes pr). s \<in> set l}"
    then have "s \<in> set l" by blast
    from first_for_exists [OF this] obtain p where p: "first_for s p" "prefix p l" by (elim exE conjE)
    then have "p \<noteq> []" by (auto simp: first_for_def)
    then have "p \<in> dom (pr_nodes pr)" by (rule path_tree_prefix [OF profile_path_tree [OF inv] p(2)]) (use l in blast)
    then have "p \<in> set ps" unfolding ps(2) using p(1) by blast
    with l p show "l \<in> (\<Union>p \<in> set ps. below (pr_nodes pr) [p])" by (auto simp: below_def)
  qed
  also have "(\<Sum>l \<in> {l \<in> dom (pr_nodes pr). s \<in> set l}. ?g l) =
      (\<Sum>l \<in> {l \<in> {l \<in> dom (pr_nodes pr). s \<in> set l}. Q (dropWhile (\<lambda>x. x \<noteq> s) l)}. tree_self pr l)"
    by (rule sum.inter_filter [symmetric]) (use fin in simp)
  finally show ?thesis by (simp add: conj_assoc)
qed

text \<open>Every path of the tree starts with the function.\<close>

lemma visited_hd: "c \<noteq> [] \<Longrightarrow> p \<in> visited c ss \<Longrightarrow> hd p = hd c"
proof (induction ss arbitrary: c)
  case Nil
  then show ?case by simp
next
  case (Cons x ss)
  have "hd (step_path c x) = hd c" using Cons.prems(1) by (cases c) (auto simp: step_path_def)
  with Cons.IH [of "step_path c x"] Cons.prems(2) show ?case by auto
qed

lemma records_hd:
  assumes us: "records_of pr q us" and q: "first_for s q" and u: "(u, z) \<in> set us" and p: "p \<in> visited [] u"
  shows "hd p = s"
proof -
  obtain l where l: "prefix q l" "u = drop (length q - 1) l"
    using us u by (auto simp: records_of_def leaf_record_def below_def)
  have "s \<in> set l" by (rule first_for_mem [OF q l(1)])
  with first_for_suffix [OF q l(1)] l(2) have "u = dropWhile (\<lambda>x. x \<noteq> s) l" "u \<noteq> []"
    by (auto simp: dropWhile_eq_Nil_conv)
  then have "hd u = s" using hd_dropWhile [of "\<lambda>x. x \<noteq> s" l] by simp
  with \<open>u \<noteq> []\<close> obtain v where "u = s # v" by (cases u) auto
  with p have "p = [s] \<or> p \<in> visited [s] v" by (simp add: step_path_def)
  then show ?thesis using visited_hd [of "[s]" p v] by auto
qed

lemma descendant_tree_spec:
  assumes run: "record_all profile_record empty_profile ts = Some pr"
    and r: "pr_by_symbol pr s = Some r" and f: "pf_node f = Some r"
  shows "\<exists>t. profile_func_create_descendant_tree (pr_nodes pr) f = Some t \<and> descendant_inv t \<and>
    (\<forall>p \<in> dom (dt_nodes t). hd p = s) \<and>
    (\<forall>p. d_val dn_self t p = weight_of (\<lambda>z. z) (\<lambda>t. s \<in> set t \<and> p = fold_path (dropWhile (\<lambda>x. x \<noteq> s) t)) ts) \<and>
    (\<forall>p. d_val dn_non_recursion t p =
       weight_of (\<lambda>z. z) (\<lambda>t. s \<in> set t \<and> p \<noteq> [] \<and> prefix p (fold_path (dropWhile (\<lambda>x. x \<noteq> s) t))) ts) \<and>
    (\<forall>p. d_val dn_total t p =
       weight_of (\<lambda>z. z) (\<lambda>t. s \<in> set t \<and> p \<in> visited [] (dropWhile (\<lambda>x. x \<noteq> s) t)) ts)"
proof -
  have inv: "profile_inv pr" and dom: "dom (pr_nodes pr) = trace_paths ts"
    and own: "\<forall>p. tree_self pr p = weight_of (\<lambda>z. z) (\<lambda>t. p \<noteq> [] \<and> p = t) ts"
    using build_tree_spec [of ts] run by auto
  note fin = profile_invD(1) [OF inv]
  obtain xs where xs: "chain pn_next (pr_nodes pr) (pr_by_symbol pr s) xs" "set xs = symbol_paths pr s"
    using profile_invD(9) [OF inv] by blast
  let ?e = "\<lparr>dt_nodes = Map.empty, dt_roots = []\<rparr>"
  have "descendant_inv ?e" by (simp add: descendant_inv_def tree_shape_def path_tree_empty)
  from descendants_from_spec [OF inv xs(1) this] obtain t uss where
    t: "descendants_from (pr_nodes pr) (pr_by_symbol pr s) ?e = Some t" "tree_after ?e (concat uss) t"
    "list_all2 (records_of pr) (filter (\<lambda>p. pn_toplevel (the (pr_nodes pr p))) xs) uss" by blast
  let ?ps = "filter (\<lambda>p. pn_toplevel (the (pr_nodes pr p))) xs"
  have "set ?ps = {p \<in> symbol_paths pr s. first_for s p}" using toplevel_first [OF inv] xs(2) by auto
  also have "\<dots> = {p \<in> dom (pr_nodes pr). first_for s p}" by (auto simp: symbol_paths_def first_for_def)
  finally have ps: "set ?ps = {p \<in> dom (pr_nodes pr). first_for s p}" .
  have d: "distinct ?ps" by (rule distinct_filter [OF chain_distinct [OF xs(1)]])
  have w: "weight_of (\<lambda>z. z) Q (concat uss) = weight_of (\<lambda>z. z) (\<lambda>t. s \<in> set t \<and> Q (dropWhile (\<lambda>x. x \<noteq> s) t)) ts" for Q
  proof -
    have "weight_of (\<lambda>z. z) Q (concat uss) =
        weight_of (\<lambda>z. z) (\<lambda>t. t \<noteq> [] \<and> s \<in> set t \<and> Q (dropWhile (\<lambda>x. x \<noteq> s) t)) ts"
      unfolding all_records_weight [OF inv d ps t(3)] own [rule_format]
      by (rule self_weight [OF fin]) (auto simp: dom trace_paths_def)
    also have "(\<lambda>t. t \<noteq> [] \<and> s \<in> set t \<and> Q (dropWhile (\<lambda>x. x \<noteq> s) t)) =
        (\<lambda>t. s \<in> set t \<and> Q (dropWhile (\<lambda>x. x \<noteq> s) t))" by (auto simp: fun_eq_iff)
    finally show ?thesis .
  qed
  have h: "hd p = s" if p: "p \<in> dom (dt_nodes t)" for p
  proof -
    obtain us u z where u: "us \<in> set uss" "(u, z) \<in> set us" "p \<in> visited [] u"
      using t(2) p by (auto simp: tree_after_def)
    with t(3) obtain q where "q \<in> set ?ps" "records_of pr q us"
      by (metis in_set_conv_nth list_all2_conv_all_nth)
    with ps u show "hd p = s" by (intro records_hd [of pr q us s u z]) auto
  qed
  have e: "d_val g ?e p = 0" for g p by (simp add: d_val_def)
  have fp: "s \<in> set u \<Longrightarrow> fold_path (dropWhile (\<lambda>x. x \<noteq> s) u) \<noteq> []" for u
    by (cases "dropWhile (\<lambda>x. x \<noteq> s) u" rule: rev_cases) (auto simp: fold_path_def dropWhile_eq_Nil_conv)
  have "(\<lambda>t. s \<in> set t \<and> p \<noteq> [] \<and> p = fold_path (dropWhile (\<lambda>x. x \<noteq> s) t)) =
      (\<lambda>t. s \<in> set t \<and> p = fold_path (dropWhile (\<lambda>x. x \<noteq> s) t))" for p
    using fp by (auto simp: fun_eq_iff)
  moreover have "profile_func_create_descendant_tree (pr_nodes pr) f = Some t"
    using t(1) r f by (simp add: profile_func_create_descendant_tree_def)
  ultimately show ?thesis using t(2) h by (simp add: tree_after_def e w)
qed

text \<open>
  Property C27: The descendant tree of a function is the tree of the stacks that contain it, each
  cut to the part from its first frame on and folded so that no symbol occurs twice on a path: a
  node carries the bytes of the blocks whose folded stack ends there (self), those whose folded
  stack passes through it (the recursion-free count) and those whose walk visits it at all
  (total). Between traces no node stays marked.
\<close>

theorem descendants_correct:
  assumes ts: "traces_of env m skip bs ps = Some (q, st, ts)" and s: "(t, z) \<in> set ts" "s \<in> set t"
  shows "\<exists>pr f d. profile_build_tree env m skip bs ps empty_profile = Some (q, st, pr) \<and>
    add_function s pr = Some (pr\<lparr>pr_functions := pr_functions pr @ [f]\<rparr>) \<and>
    profile_func_create_descendant_tree (pr_nodes pr) f = Some d \<and> descendant_inv d \<and>
    (\<forall>p. d_val dn_self d p = weight_of (\<lambda>z. z) (\<lambda>t. s \<in> set t \<and> p = fold_path (dropWhile (\<lambda>x. x \<noteq> s) t)) ts) \<and>
    (\<forall>p. d_val dn_non_recursion d p =
       weight_of (\<lambda>z. z) (\<lambda>t. s \<in> set t \<and> p \<noteq> [] \<and> prefix p (fold_path (dropWhile (\<lambda>x. x \<noteq> s) t))) ts) \<and>
    (\<forall>p. d_val dn_total d p =
       weight_of (\<lambda>z. z) (\<lambda>t. s \<in> set t \<and> p \<in> visited [] (dropWhile (\<lambda>x. x \<noteq> s) t)) ts)"
proof -
  obtain pr f r where pr: "record_all profile_record empty_profile ts = Some pr"
    "profile_build_tree env m skip bs ps empty_profile = Some (q, st, pr)" "pr_by_symbol pr s = Some r"
    "add_function s pr = Some (pr\<lparr>pr_functions := pr_functions pr @ [f]\<rparr>)" "pf_node f = Some r"
    using function_of_traces [OF ts s] by blast
  with descendant_tree_spec [OF pr(1,3,5)] show ?thesis by blast
qed

theorem descendants_correct_witness:
  "\<exists>q st pr f d. profile_build_tree prog_env (nodes (w_nodes demo_world)) {''xmalloc''}
      [\<lparr>b_flags = 0, b_addr = 0x10, b_size = 5, b_stack = Some (Cell 0 0), b_refcount = 1\<rparr>]
      (demo_process, no_inodes) empty_profile = Some (q, st, pr) \<and>
     add_function main_symbol pr = Some (pr\<lparr>pr_functions := pr_functions pr @ [f]\<rparr>) \<and>
     profile_func_create_descendant_tree (pr_nodes pr) f = Some d \<and>
     d_val dn_self d [main_symbol] = 5 \<and> d_val dn_total d [main_symbol] = 5"
proof -
  from descendants_correct [OF demo_traces, of "[main_symbol]" 5 main_symbol] obtain pr f d where
    run: "profile_build_tree prog_env (nodes (w_nodes demo_world)) {''xmalloc''}
      [\<lparr>b_flags = 0, b_addr = 0x10, b_size = 5, b_stack = Some (Cell 0 0), b_refcount = 1\<rparr>]
      (demo_process, no_inodes) empty_profile = Some (demo_process\<lparr>p_map_list := [prog_map], p_strings := 1\<rparr>, no_inodes, pr)"
      "add_function main_symbol pr = Some (pr\<lparr>pr_functions := pr_functions pr @ [f]\<rparr>)"
      "profile_func_create_descendant_tree (pr_nodes pr) f = Some d"
    and v: "d_val dn_self d [main_symbol] = weight_of (\<lambda>z. z) (\<lambda>t. main_symbol \<in> set t \<and>
        [main_symbol] = fold_path (dropWhile (\<lambda>x. x \<noteq> main_symbol) t)) [([main_symbol], 5)]"
      "d_val dn_total d [main_symbol] = weight_of (\<lambda>z. z) (\<lambda>t. main_symbol \<in> set t \<and>
        [main_symbol] \<in> visited [] (dropWhile (\<lambda>x. x \<noteq> main_symbol) t)) [([main_symbol], 5)]"
    by auto
  have "d_val dn_self d [main_symbol] = 5 \<and> d_val dn_total d [main_symbol] = 5"
    unfolding v by (simp add: fold_path_def step_path_def)
  with run show ?thesis by blast
qed

end
