(* ===== verification/Profile_Output.thy ===== *)
theory Profile_Output
  imports Profile_Descendants
begin

text \<open>
  Writing a profile to a file (src/profile.c): the functions by descending totals, and for each
  the callers and the descendants that contribute at least one percent. The file is the list of
  its lines. \<open>g_ptr_array_sort\<close> is an argument, once for functions and once for nodes. An
  unsigned count printed with \<open>%d\<close> is read as a signed number; the floating point percentage of
  a line is kept as the two counts it is made of. The name \<open>"???"\<close> for a null symbol is not
  modelled: a frame without a symbol never gets into the call tree.
\<close>

type_synonym 'a sorter = "('a \<Rightarrow> 'a \<Rightarrow> int) \<Rightarrow> 'a list \<Rightarrow> 'a list"

datatype line_name = Symbol_Name cstr | Spontaneous

datatype profile_line =
    Bytes_Line u32
  | Summary_Header
  | Summary_Line int int "u32 \<times> u32" cstr
  | Rule_Line
  | Callers_Header
  | Caller_Line int int int line_name
  | Descendants_Header
  | Descendant_Line int int int cstr

datatype write_error = Cannot_Open

definition compare_profile_funcs :: "profile_func \<Rightarrow> profile_func \<Rightarrow> int" where
  "compare_profile_funcs a b =
     (if pf_total a > pf_total b then -1 else if pf_total a < pf_total b then 1 else 0)"

definition create_sorted_profile_funcs :: "profile_func sorter \<Rightarrow> profile_func list \<Rightarrow> profile_func list" where
  "create_sorted_profile_funcs srt fs = srt compare_profile_funcs fs"

definition compare_descendant_tree_nodes :: "descendant_node \<Rightarrow> descendant_node \<Rightarrow> int" where
  "compare_descendant_tree_nodes a b =
     (if dn_total a > dn_total b then -1 else if dn_total a < dn_total b then 1 else 0)"

definition create_sorted_descendant_tree_nodes :: "descendant_node sorter \<Rightarrow> descendant_node list \<Rightarrow> descendant_node list" where
  "create_sorted_descendant_tree_nodes srt ns = srt compare_descendant_tree_nodes ns"

text \<open>\<open>(part * 100) / whole\<close> on unsigned numbers; a division by zero ends the program.\<close>

definition percent_of :: "u32 \<Rightarrow> u32 \<Rightarrow> u32 option" where
  "percent_of part whole = (if whole = 0 then None else Some (part * 100 div whole))"

fun caller_lines :: "(pnref \<rightharpoonup> profile_node) \<Rightarrow> u32 \<Rightarrow> profile_func list \<Rightarrow> profile_line list option" where
  "caller_lines h whole [] = Some []"
| "caller_lines h whole (g # gs) = do {
     name \<leftarrow> (case pf_node g of None \<Rightarrow> Some Spontaneous
       | Some r \<Rightarrow> map_option (\<lambda>n. Symbol_Name (pn_symbol n)) (h r));
     percent \<leftarrow> percent_of (pf_total g) whole;
     ls \<leftarrow> caller_lines h whole gs;
     Some (if percent < 1 then ls
       else Caller_Line (sint (pf_self g)) (sint (pf_total g)) (sint percent) name # ls)
   }"

definition output_callers ::
    "profile_func sorter \<Rightarrow> (pnref \<rightharpoonup> profile_node) \<Rightarrow> profile_func \<Rightarrow> profile_line list option" where
  "output_callers srt h f = do {
     gs \<leftarrow> profile_func_create_caller_list h f;
     ls \<leftarrow> caller_lines h (pf_total f) (create_sorted_profile_funcs srt gs);
     Some (Callers_Header # ls)
   }"

fun descendant_lines :: "u32 \<Rightarrow> descendant_node list \<Rightarrow> profile_line list option" where
  "descendant_lines whole [] = Some []"
| "descendant_lines whole (n # ns) = do {
     percent \<leftarrow> percent_of (dn_total n) whole;
     ls \<leftarrow> descendant_lines whole ns;
     Some (if percent < 1 then ls
       else Descendant_Line (sint (dn_self n)) (sint (dn_total n)) (sint percent) (dn_symbol n) # ls)
   }"

fun descendants_at :: "(pnref \<rightharpoonup> descendant_node) \<Rightarrow> pnref list \<Rightarrow> descendant_node list option" where
  "descendants_at h [] = Some []"
| "descendants_at h (r # rs) = do { n \<leftarrow> h r; ns \<leftarrow> descendants_at h rs; Some (n # ns) }"

text \<open>The tree of a function is read through its first root; an empty array has none.\<close>

definition output_descendants ::
    "descendant_node sorter \<Rightarrow> (pnref \<rightharpoonup> profile_node) \<Rightarrow> profile_func \<Rightarrow> profile_line list option" where
  "output_descendants srt h f = do {
     tree \<leftarrow> profile_func_create_descendant_tree h f;
     r \<leftarrow> (case dt_roots tree of [] \<Rightarrow> None | r # rs \<Rightarrow> Some r);
     node \<leftarrow> dt_nodes tree r;
     ns \<leftarrow> descendants_at (dt_nodes tree) (dn_children node);
     ls \<leftarrow> descendant_lines (dn_total node) (create_sorted_descendant_tree_nodes srt ns);
     profile_descendant_tree_free (dt_roots tree) (dt_nodes tree);
     Some (Descendants_Header # ls)
   }"

definition summary_line :: "(pnref \<rightharpoonup> profile_node) \<Rightarrow> u32 \<Rightarrow> profile_func \<Rightarrow> profile_line option" where
  "summary_line h n_bytes f = do {
     r \<leftarrow> pf_node f;
     n \<leftarrow> h r;
     Some (Summary_Line (sint (pf_self f)) (sint (pf_total f)) (pf_total f, n_bytes) (pn_symbol n))
   }"

fun summary_lines :: "(pnref \<rightharpoonup> profile_node) \<Rightarrow> u32 \<Rightarrow> profile_func list \<Rightarrow> profile_line list option" where
  "summary_lines h n_bytes [] = Some []"
| "summary_lines h n_bytes (f # fs) = do {
     l \<leftarrow> summary_line h n_bytes f;
     ls \<leftarrow> summary_lines h n_bytes fs;
     Some (l # ls)
   }"

definition output_profile_summary ::
    "(pnref \<rightharpoonup> profile_node) \<Rightarrow> u32 \<Rightarrow> profile_func list \<Rightarrow> profile_line list option" where
  "output_profile_summary h n_bytes fs = map_option (\<lambda>ls. Summary_Header # ls) (summary_lines h n_bytes fs)"

fun output_profile_details ::
    "profile_func sorter \<Rightarrow> descendant_node sorter \<Rightarrow> (pnref \<rightharpoonup> profile_node) \<Rightarrow> u32 \<Rightarrow> profile_func list \<Rightarrow>
     profile_line list option" where
  "output_profile_details srt srtd h n_bytes [] = Some []"
| "output_profile_details srt srtd h n_bytes (f # fs) = do {
     l \<leftarrow> summary_line h n_bytes f;
     cs \<leftarrow> output_callers srt h f;
     ds \<leftarrow> output_descendants srtd h f;
     ls \<leftarrow> output_profile_details srt srtd h n_bytes fs;
     Some (Rule_Line # l # cs @ ds @ ls)
   }"

text \<open>\<open>opens\<close>: whether \<open>fopen\<close> succeeds.\<close>

definition profile_write ::
    "profile_func sorter \<Rightarrow> descendant_node sorter \<Rightarrow> bool \<Rightarrow> profile \<Rightarrow> (write_error + profile_line list) option" where
  "profile_write srt srtd opens pr =
     (if \<not> opens then Some (Inl Cannot_Open)
      else do {
        let fs = create_sorted_profile_funcs srt (pr_functions pr);
        ss \<leftarrow> output_profile_summary (pr_nodes pr) (pr_n_bytes pr) fs;
        ds \<leftarrow> output_profile_details srt srtd (pr_nodes pr) (pr_n_bytes pr) fs;
        Some (Inr (Bytes_Line (pr_n_bytes pr) # ss @ ds))
      })"

end
