(* ===== verification/Profile_Output_Inv.thy ===== *)
theory Profile_Output_Inv
  imports Profile_Descendants_Inv Profile_Output
begin

text \<open>
  When the report of a profile can be written: every division in it is by the total of a
  function, and everything else it reads is there.
\<close>

section \<open>Sorting and lines\<close>

text \<open>A sort rearranges its list.\<close>

definition sorts :: "'a sorter \<Rightarrow> bool" where
  "sorts srt \<longleftrightarrow> (\<forall>cmp xs. mset (srt cmp xs) = mset xs)"

lemma sorts_set: "sorts srt \<Longrightarrow> set (srt cmp xs) = set xs"
  unfolding sorts_def by (metis set_mset_mset)

lemma percent_of_Some: "percent_of part whole = None \<longleftrightarrow> whole = 0"
  by (simp add: percent_of_def)

text \<open>A line for each caller can be written when the divisor is not zero, and only then.\<close>

definition caller_ok :: "(pnref \<rightharpoonup> profile_node) \<Rightarrow> profile_func \<Rightarrow> bool" where
  "caller_ok h g \<longleftrightarrow> (\<forall>r. pf_node g = Some r \<longrightarrow> r \<in> dom h)"

lemma caller_lines_Some:
  "whole \<noteq> 0 \<Longrightarrow> \<forall>g \<in> set gs. caller_ok h g \<Longrightarrow> caller_lines h whole gs \<noteq> None"
proof (induction gs)
  case Nil
  then show ?case by simp
next
  case (Cons g gs)
  then obtain ls where ls: "caller_lines h whole gs = Some ls" by auto
  have "caller_ok h g" using Cons.prems by simp
  then obtain name where "(case pf_node g of None \<Rightarrow> Some Spontaneous
       | Some r \<Rightarrow> map_option (\<lambda>n. Symbol_Name (pn_symbol n)) (h r)) = Some name"
    by (cases "pf_node g") (auto simp: caller_ok_def dom_def)
  with ls Cons.prems(1) show ?case by (simp add: percent_of_def)
qed

lemma caller_lines_zero: "gs \<noteq> [] \<Longrightarrow> caller_lines h 0 gs = None"
  by (cases gs) (auto simp: percent_of_def split: option.split)

lemma descendant_lines_Some: "whole \<noteq> 0 \<Longrightarrow> descendant_lines whole ns \<noteq> None"
  by (induction ns) (auto simp: percent_of_def)

lemma descendants_at_Some: "set rs \<subseteq> dom h \<Longrightarrow> descendants_at h rs \<noteq> None"
  by (induction rs) auto

section \<open>The callers in the report\<close>

lemma count_caller_nodes:
  "count_caller h p c = Some c' \<Longrightarrow> map pf_node (ca_result c') = map pf_node (ca_result c)"
proof -
  have upd: "map pf_node (xs[i := g]) = map pf_node xs" if "pf_node g = pf_node (xs ! i)" for xs i g
    using that by (cases "i < length xs") (simp_all add: map_update list_update_same_conv list_update_beyond)
  assume "count_caller h p c = Some c'"
  then show ?thesis
    by (auto simp: count_caller_def bind_eq_Some Let_def split: option.splits prod.splits intro!: upd)
qed

lemma count_callers_nodes:
  "count_callers h rs c = Some c' \<Longrightarrow> map pf_node (ca_result c') = map pf_node (ca_result c)"
  by (induction rs arbitrary: c) (auto simp: bind_eq_Some dest: count_caller_nodes)

lemma collect_callers_nodes:
  "pf_node ` set (ca_result (fold collect_caller rs c)) \<subseteq> pf_node ` set (ca_result c) \<union> (par \<circ> butlast) ` set rs"
proof (induction rs arbitrary: c)
  case Nil
  then show ?case by simp
next
  case (Cons p rs)
  have "pf_node ` set (ca_result (collect_caller p c)) \<subseteq> insert (par (butlast p)) (pf_node ` set (ca_result c))"
    by (auto simp: ca_result_new new_caller_def)
  with Cons.IH [of "collect_caller p c"] show ?case by auto
qed

lemma caller_list_nodes:
  assumes inv: "profile_inv pr" and f: "pf_node f = pr_by_symbol pr s"
    and run: "profile_func_create_caller_list (pr_nodes pr) f = Some gs" and g: "g \<in> set gs"
  shows "caller_ok (pr_nodes pr) g"
proof -
  obtain xs where xs: "chain pn_next (pr_nodes pr) (pr_by_symbol pr s) xs" "set xs = symbol_paths pr s"
    using profile_invD(9) [OF inv] by blast
  have sub: "set xs \<subseteq> dom (pr_nodes pr)" using xs(2) by (auto simp: symbol_paths_def)
  obtain c where c: "count_callers (pr_nodes pr) xs (fold collect_caller xs no_callers) = Some c" "gs = ca_result c"
    using run node_chain_chain [OF xs(1)] collect_callers_eq [OF inv sub, of no_callers] f
    by (auto simp: profile_func_create_caller_list_def bind_eq_Some)
  have "pf_node ` set gs = pf_node ` set (ca_result (fold collect_caller xs no_callers))"
    using count_callers_nodes [OF c(1)] c(2) by (metis list.set_map)
  also have "\<dots> \<subseteq> (par \<circ> butlast) ` set xs"
    using collect_callers_nodes [of xs no_callers] by (simp add: no_callers_def)
  finally obtain p where p: "p \<in> set xs" "pf_node g = par (butlast p)" using g by auto
  then have "p \<in> dom (pr_nodes pr)" using sub by blast
  with p(2) profile_invD(4) [OF inv, of p] show ?thesis by (auto simp: caller_ok_def par_def split: if_splits)
qed

section \<open>One function\<close>

lemma calls_exists:
  assumes "s \<in> set t"
  shows "\<exists>k. calls k s t"
proof -
  from assms obtain u v where "t = u @ s # v" by (meson split_list)
  then show ?thesis unfolding calls_def by blast
qed

lemma output_callers_iff:
  assumes run: "record_all profile_record empty_profile ts = Some pr" and srt: "sorts srt"
    and r: "pr_by_symbol pr s = Some r" and f: "pf_node f = Some r"
  shows "output_callers srt (pr_nodes pr) f = None \<longleftrightarrow> pf_total f = 0"
proof -
  have inv: "profile_inv pr" and dom: "dom (pr_nodes pr) = trace_paths ts" using build_tree_spec [of ts] run by auto
  obtain ks gs where gs: "profile_func_create_caller_list (pr_nodes pr) f = Some gs"
    "set ks = {k. \<exists>(t, z) \<in> set ts. calls k s t}" "list_all2 (caller_counts ts s) ks gs"
    using caller_list_spec [OF run r f] by blast
  have "s \<in> dom (pr_by_symbol pr)" using r by blast
  then obtain t z where "(t, z) \<in> set ts" "s \<in> set t" using by_symbol_dom [OF inv dom] by auto
  with calls_exists [of s t] gs(2) have "ks \<noteq> []" by fastforce
  with gs(3) have "gs \<noteq> []" by auto
  let ?gs = "create_sorted_profile_funcs srt gs"
  have same: "set ?gs = set gs" using sorts_set [OF srt] by (simp add: create_sorted_profile_funcs_def)
  with \<open>gs \<noteq> []\<close> have ne: "?gs \<noteq> []" by (metis set_empty2)
  have "\<forall>g \<in> set ?gs. caller_ok (pr_nodes pr) g"
    using caller_list_nodes [OF inv _ gs(1), of s] f r same by simp
  then show ?thesis
    using caller_lines_Some [of "pf_total f" ?gs "pr_nodes pr"] caller_lines_zero [OF ne, of "pr_nodes pr"] gs(1)
    by (cases "pf_total f = 0") (auto simp: output_callers_def)
qed

lemma output_descendants_Some:
  assumes run: "record_all profile_record empty_profile ts = Some pr"
    and r: "pr_by_symbol pr s = Some r" and f: "pf_node f = Some r"
    and tot: "pf_total f = weight_of (\<lambda>z. z) (\<lambda>t. s \<in> set t) ts" "pf_total f \<noteq> 0"
  shows "output_descendants srtd (pr_nodes pr) f \<noteq> None"
proof -
  obtain d where d: "profile_func_create_descendant_tree (pr_nodes pr) f = Some d" "descendant_inv d"
    "\<forall>p \<in> dom (dt_nodes d). hd p = s"
    "\<forall>p. d_val dn_total d p = weight_of (\<lambda>z. z) (\<lambda>t. s \<in> set t \<and> p \<in> visited [] (dropWhile (\<lambda>x. x \<noteq> s) t)) ts"
    using descendant_tree_spec [OF run r f] by blast
  have "[s] \<in> visited [] (dropWhile (\<lambda>x. x \<noteq> s) t)" if "s \<in> set t" for t
  proof -
    have "dropWhile (\<lambda>x. x \<noteq> s) t \<noteq> []" using that by (auto simp: dropWhile_eq_Nil_conv)
    with hd_dropWhile [OF this] obtain v where "dropWhile (\<lambda>x. x \<noteq> s) t = s # v"
      by (cases "dropWhile (\<lambda>x. x \<noteq> s) t") auto
    then show ?thesis by (simp add: step_path_def)
  qed
  then have "(\<lambda>t. s \<in> set t \<and> [s] \<in> visited [] (dropWhile (\<lambda>x. x \<noteq> s) t)) = (\<lambda>t. s \<in> set t)" by blast
  with d(4) tot(1) have total: "d_val dn_total d [s] = pf_total f" by simp
  with tot(2) obtain n where n: "dt_nodes d [s] = Some n" "dn_total n = pf_total f"
    by (auto simp: d_val_def split: option.splits)
  have tree: "path_tree dn_children (dt_nodes d) (dt_roots d)" using d(2) by (simp add: descendant_inv_def tree_shape_def)
  have roots: "set (dt_roots d) = {q \<in> dom (dt_nodes d). butlast q = []}" by (rule path_treeD(7) [OF tree])
  then have "[s] \<in> set (dt_roots d)" using n(1) by auto
  then obtain x xs where x: "dt_roots d = x # xs" by (cases "dt_roots d") auto
  then have "x \<in> dom (dt_nodes d)" "butlast x = []" using roots by auto
  moreover from this d(3) have "hd x = s" by blast
  ultimately have "x = [s]" using path_treeD(2) [OF tree] by (cases x rule: rev_cases) auto
  have "set (dn_children n) \<subseteq> dom (dt_nodes d)" using path_treeD(5) [OF tree n(1)] by auto
  then obtain ns where ns: "descendants_at (dt_nodes d) (dn_children n) = Some ns" using descendants_at_Some by blast
  obtain ls where ls: "descendant_lines (pf_total f) (create_sorted_descendant_tree_nodes srtd ns) = Some ls"
    using descendant_lines_Some [OF tot(2)] by blast
  have "profile_descendant_tree_free (dt_roots d) (dt_nodes d) = Some Map.empty"
    by (rule descendant_freeing.frees_all [OF tree])
  with d(1) x \<open>x = [s]\<close> n ns ls show ?thesis by (simp add: output_descendants_def)
qed

section \<open>The whole report\<close>

lemma summary_lines_Some:
  "\<forall>f \<in> set fs. \<exists>r. pf_node f = Some r \<and> r \<in> dom h \<Longrightarrow> summary_lines h n fs \<noteq> None"
  by (induction fs) (auto simp: summary_line_def)

lemma details_iff:
  assumes "\<forall>f \<in> set fs. \<exists>r. pf_node f = Some r \<and> r \<in> dom h"
    and "\<forall>f \<in> set fs. output_callers srt h f = None \<longleftrightarrow> pf_total f = 0"
    and "\<forall>f \<in> set fs. pf_total f \<noteq> 0 \<longrightarrow> output_descendants srtd h f \<noteq> None"
  shows "output_profile_details srt srtd h n fs = None \<longleftrightarrow> (\<exists>f \<in> set fs. pf_total f = 0)"
  using assms
proof (induction fs)
  case Nil
  then show ?case by simp
next
  case (Cons f fs)
  obtain r where r: "pf_node f = Some r" "r \<in> dom h" using Cons.prems(1) by auto
  have c: "output_callers srt h f = None \<longleftrightarrow> pf_total f = 0" using Cons.prems(2) by simp
  have d: "pf_total f \<noteq> 0 \<longrightarrow> output_descendants srtd h f \<noteq> None" using Cons.prems(3) by simp
  have IH: "output_profile_details srt srtd h n fs = None \<longleftrightarrow> (\<exists>f \<in> set fs. pf_total f = 0)"
    using Cons.IH Cons.prems by simp
  obtain l where l: "summary_line h n f = Some l" using r by (auto simp: summary_line_def)
  show ?case
  proof (cases "pf_total f = 0")
    case True
    with c l show ?thesis by simp
  next
    case False
    with c d obtain cs ds where "output_callers srt h f = Some cs" "output_descendants srtd h f = Some ds" by auto
    with l IH False show ?thesis
      by (cases "output_profile_details srt srtd h n fs") auto
  qed
qed

lemma add_functions_nodes:
  "add_functions ss pr = Some pr' \<Longrightarrow> pr_nodes pr' = pr_nodes pr \<and> pr_by_symbol pr' = pr_by_symbol pr \<and>
     (\<exists>fs. pr_functions pr' = pr_functions pr @ fs \<and> (\<forall>f \<in> set fs. \<exists>s r. pr_by_symbol pr s = Some r \<and> pf_node f = Some r))"
proof (induction ss arbitrary: pr)
  case Nil
  then show ?case by simp
next
  case (Cons s ss)
  then obtain pr1 where p1: "add_function s pr = Some pr1" "add_functions ss pr1 = Some pr'"
    by (auto simp: bind_eq_Some)
  then obtain f r where f: "pr1 = pr\<lparr>pr_functions := pr_functions pr @ [f]\<rparr>" "pr_by_symbol pr s = Some r" "pf_node f = Some r"
    by (auto simp: add_function_def bind_eq_Some)
  from Cons.IH [OF p1(2)] f show ?case by auto
qed

lemma write_iff:
  assumes run: "record_all profile_record empty_profile ts = Some pr0" and nodes: "pr_nodes pr = pr_nodes pr0"
    and fs: "\<forall>f \<in> set (pr_functions pr). (\<exists>s r. pr_by_symbol pr0 s = Some r \<and> pf_node f = Some r) \<and> (\<exists>s. describes ts s f)"
    and srt: "sorts srt"
  shows "profile_write srt srtd True pr = None \<longleftrightarrow> (\<exists>f \<in> set (pr_functions pr). pf_total f = 0)"
proof -
  have inv: "profile_inv pr0" using build_tree_spec [of ts] run by auto
  have fn: "\<exists>s r. pr_by_symbol pr0 s = Some r \<and> pf_node f = Some r \<and> describes ts s f \<and> r \<in> dom (pr_nodes pr0)"
    if "f \<in> set (pr_functions pr)" for f
  proof -
    from fs [rule_format, OF that] obtain s r s' where
      s: "pr_by_symbol pr0 s = Some r" "pf_node f = Some r" and s': "describes ts s' f" by (elim conjE exE)
    from function_sums(1,2) [OF inv s(1)] s s' show ?thesis by (auto simp: describes_def)
  qed
  let ?fs = "create_sorted_profile_funcs srt (pr_functions pr)"
  have same: "set ?fs = set (pr_functions pr)" using sorts_set [OF srt] by (simp add: create_sorted_profile_funcs_def)
  have a: "\<forall>f \<in> set ?fs. \<exists>r. pf_node f = Some r \<and> r \<in> dom (pr_nodes pr)"
  proof
    fix f assume "f \<in> set ?fs"
    with same have "f \<in> set (pr_functions pr)" by simp
    from fn [OF this] nodes show "\<exists>r. pf_node f = Some r \<and> r \<in> dom (pr_nodes pr)" by auto
  qed
  have b: "\<forall>f \<in> set ?fs. output_callers srt (pr_nodes pr) f = None \<longleftrightarrow> pf_total f = 0"
  proof
    fix f assume "f \<in> set ?fs"
    with same fn [of f] obtain s r where "pr_by_symbol pr0 s = Some r" "pf_node f = Some r" by auto
    from output_callers_iff [OF run srt this] nodes
    show "output_callers srt (pr_nodes pr) f = None \<longleftrightarrow> pf_total f = 0" by simp
  qed
  have c: "\<forall>f \<in> set ?fs. pf_total f \<noteq> 0 \<longrightarrow> output_descendants srtd (pr_nodes pr) f \<noteq> None"
  proof (intro ballI impI)
    fix f assume f: "f \<in> set ?fs" "pf_total f \<noteq> 0"
    with same fn [of f] obtain s r where "pr_by_symbol pr0 s = Some r" "pf_node f = Some r" "describes ts s f" by auto
    with output_descendants_Some [OF run this(1,2) _ f(2)] nodes
    show "output_descendants srtd (pr_nodes pr) f \<noteq> None" by (simp add: describes_def)
  qed
  obtain ss where "output_profile_summary (pr_nodes pr) (pr_n_bytes pr) ?fs = Some ss"
    using summary_lines_Some [OF a, of "pr_n_bytes pr"] by (auto simp: output_profile_summary_def)
  with details_iff [where n = "pr_n_bytes pr", OF a b c] same show ?thesis
    by (cases "output_profile_details srt srtd (pr_nodes pr) (pr_n_bytes pr) ?fs") (auto simp: profile_write_def)
qed

section \<open>Properties\<close>

lemma profile_create_parts:
  assumes each: "process_block_foreach enumb i w = Some (w1, rs)" and bs: "blocks_at (w_blocks w1) (rev rs) = Some bs"
    and p: "w_procs w1 i = Some p"
    and ts: "traces_of env (nodes (w_nodes w1)) (set skip) bs (p, w_inodes w1) = Some (q, s, ts)"
    and run: "profile_create env enumb enums skip i w = Some (w', pr)"
  shows "\<exists>pr0. record_all profile_record empty_profile ts = Some pr0 \<and> pr_nodes pr = pr_nodes pr0 \<and>
    (\<forall>f \<in> set (pr_functions pr). \<exists>s r. pr_by_symbol pr0 s = Some r \<and> pf_node f = Some r)"
proof -
  obtain pr0 where pr0: "record_all profile_record empty_profile ts = Some pr0" "pr_functions pr0 = []"
    using build_tree_spec by blast
  have build: "profile_build_tree env (nodes (w_nodes w1)) (set skip) bs (p, w_inodes w1) empty_profile = Some (q, s, pr0)"
    using ts pr0(1) by (simp add: profile_build_tree_eq finish_def)
  obtain ss where "add_functions ss (pr0\<lparr>pr_n_bytes := sum_sizes bs 0\<rparr>) = Some pr"
    using run each bs p build by (auto simp: profile_create_def Let_def bind_eq_Some)
  from add_functions_nodes [OF this] pr0 show ?thesis by auto
qed

text \<open>
  Property C28: \<open>profile_write\<close>, given a file that opens and a profile made by
  \<open>profile_create\<close>, writes its report unless the total of some function is zero; then it
  divides by zero. (A function whose blocks all have size zero is such a function.) The report
  never runs into an empty descendant tree, and every such tree is freed.
\<close>

theorem profile_write_returns:
  assumes "process_block_foreach enumb i w = Some (w1, rs)" and "blocks_at (w_blocks w1) (rev rs) = Some bs"
    and "w_procs w1 i = Some p"
    and "traces_of env (nodes (w_nodes w1)) (set skip) bs (p, w_inodes w1) = Some (q, s, ts)"
    and "enumerates_symbols enums" and "sorts srt"
  shows "\<exists>w' pr. profile_create env enumb enums skip i w = Some (w', pr) \<and>
    (profile_write srt srtd True pr = None \<longleftrightarrow> (\<exists>f \<in> set (pr_functions pr). pf_total f = 0)) \<and>
    profile_write srt srtd False pr = Some (Inl Cannot_Open)"
proof -
  obtain pr ss where pr: "profile_create env enumb enums skip i w = Some (put i q (w1\<lparr>w_inodes := s\<rparr>), pr)"
    "list_all2 (describes ts) ss (pr_functions pr)"
    using profile_create_spec [OF assms(1-5)] by (elim exE conjE) (rule that)
  obtain pr0 where pr0: "record_all profile_record empty_profile ts = Some pr0" "pr_nodes pr = pr_nodes pr0"
    "\<forall>f \<in> set (pr_functions pr). \<exists>s r. pr_by_symbol pr0 s = Some r \<and> pf_node f = Some r"
    using profile_create_parts [OF assms(1-4) pr(1)] by (elim exE conjE) (rule that)
  have "\<exists>s. describes ts s f" if "f \<in> set (pr_functions pr)" for f
  proof -
    from that obtain j where "j < length (pr_functions pr)" "f = pr_functions pr ! j" by (auto simp: in_set_conv_nth)
    with pr(2) have "describes ts (ss ! j) f" by (simp add: list_all2_conv_all_nth)
    then show ?thesis by (rule exI)
  qed
  with pr0(3) have "\<forall>f \<in> set (pr_functions pr).
      (\<exists>s r. pr_by_symbol pr0 s = Some r \<and> pf_node f = Some r) \<and> (\<exists>s. describes ts s f)" by simp
  then have "profile_write srt srtd True pr = None \<longleftrightarrow> (\<exists>f \<in> set (pr_functions pr). pf_total f = 0)"
    by (rule write_iff [OF pr0(1,2) _ assms(6)])
  with pr(1) show ?thesis by (intro exI conjI) (assumption | simp add: profile_write_def)+
qed

text \<open>An instance of the sort, by insertion.\<close>

fun insert_by :: "('a \<Rightarrow> 'a \<Rightarrow> int) \<Rightarrow> 'a \<Rightarrow> 'a list \<Rightarrow> 'a list" where
  "insert_by cmp x [] = [x]"
| "insert_by cmp x (y # ys) = (if cmp x y \<le> 0 then x # y # ys else y # insert_by cmp x ys)"

definition insertion_sort :: "'a sorter" where
  "insertion_sort cmp xs = foldr (insert_by cmp) xs []"

lemma insertion_sort_sorts: "sorts insertion_sort"
proof -
  have "mset (insert_by cmp x ys) = add_mset x (mset ys)" for cmp :: "'a \<Rightarrow> 'a \<Rightarrow> int" and x ys
    by (induction ys) auto
  then have "mset (foldr (insert_by cmp) xs []) = mset xs" for cmp :: "'a \<Rightarrow> 'a \<Rightarrow> int" and xs
    by (induction xs) auto
  then show ?thesis by (simp add: sorts_def insertion_sort_def)
qed

theorem profile_write_returns_witness:
  "\<exists>w' pr. profile_create prog_env by_address by_symbol [''xmalloc''] 0 demo_world = Some (w', pr) \<and>
     (profile_write insertion_sort insertion_sort True pr = None \<longleftrightarrow> (\<exists>f \<in> set (pr_functions pr). pf_total f = 0))"
proof -
  have "set [''xmalloc''] = {''xmalloc''}" by simp
  from profile_write_returns [OF demo_blocks(1,2,3), of prog_env "[''xmalloc'']" _ _ _ by_symbol insertion_sort insertion_sort,
      unfolded this demo_blocks(4), OF demo_traces by_symbol_enumerates insertion_sort_sorts]
  show ?thesis by (elim exE conjE) (intro exI conjI, assumption+)
qed

end
