(* ===== verification/Mi_Utils.thy ===== *)
theory Mi_Utils
  imports Numerals
begin

text \<open>
  Output without \<open>malloc\<close> or stdio, and the atomic counters (lib/memintercept-utils.c).

  A file descriptor is a stream: what has been sent, and the outcomes of the coming \<open>write\<close> or
  \<open>send\<close> calls; when the outcomes are used up, a call takes all it is given. (A call that is
  interrupted for ever is the one environment this leaves out.) \<open>None\<close> is the descriptor
  \<open>-1\<close>, on which every call fails.
\<close>

section \<open>Writing all of a buffer\<close>

datatype outcome = Wrote nat | Interrupted | Failed u32

record 'a stream =
  outcomes :: "outcome list"
  sent :: "'a list"

datatype write_result = All_Written | Wrote_Nothing | Error_No u32

text \<open>The loop of \<open>write_all\<close> and of \<open>mi_write\<close>, over what is left of the buffer.\<close>

fun write_loop :: "outcome list \<Rightarrow> 'a list \<Rightarrow> write_result \<times> 'a list \<times> outcome list" where
  "write_loop [] buf = (All_Written, buf, [])"
| "write_loop (r # rs) buf =
     (if buf = [] then (All_Written, [], r # rs)
      else (case r of
          Interrupted \<Rightarrow> write_loop rs buf
        | Failed e \<Rightarrow> (Error_No e, [], rs)
        | Wrote n \<Rightarrow>
            if n = 0 then (Wrote_Nothing, [], rs)
            else let (res, out, rs) = write_loop rs (drop n buf) in (res, take n buf @ out, rs)))"

definition write_stream :: "'a list \<Rightarrow> 'a stream \<Rightarrow> write_result \<times> 'a stream" where
  "write_stream buf s =
     (let (res, out, rs) = write_loop (outcomes s) buf
      in (res, s\<lparr>outcomes := rs, sent := sent s @ out\<rparr>))"

definition write_all :: "'a list \<Rightarrow> 'a stream option \<Rightarrow> bool \<times> 'a stream option" where
  "write_all buf fd = (case fd of
       None \<Rightarrow> (buf = [], None)
     | Some s \<Rightarrow> let (res, s) = write_stream buf s in (res = All_Written, Some s))"

section \<open>Printing numbers\<close>

partial_function (option) count_digits :: "64 word \<Rightarrow> 64 word \<Rightarrow> nat \<Rightarrow> nat option" where
  "count_digits radix tmp n =
     (if tmp = 0 then Some n
      else if radix = 0 then None
      else count_digits radix (tmp div radix) (n + 1))"

partial_function (option) fill_digits :: "64 word \<Rightarrow> 64 word \<Rightarrow> nat \<Rightarrow> string \<Rightarrow> string option" where
  "fill_digits radix num i buffer =
     (if num = 0 then Some buffer
      else if radix = 0 \<or> i = 0 \<or> length buffer < i then None
      else fill_digits radix (num div radix) (i - 1) (buffer[i - 1 := digit_char (unat (num mod radix))]))"

text \<open>The prefix of an octal number is written with a length of two: the string and its end.\<close>

definition write_unsigned :: "64 word \<Rightarrow> 64 word \<Rightarrow> char stream option \<Rightarrow> char stream option option" where
  "write_unsigned num radix fd =
     (if num = 0 then Some (snd (write_all ''0'' fd))
      else do {
        let fd = (if radix = 16 then snd (write_all ''0x'' fd)
          else if radix = 8 then snd (write_all [CHR ''0'', CHR 0x00] fd) else fd);
        n \<leftarrow> count_digits radix num 0;
        buffer \<leftarrow> fill_digits radix num n (replicate 64 (CHR 0x00));
        Some (snd (write_all (take n buffer) fd))
      })"

definition write_signed :: "64 word \<Rightarrow> 64 word \<Rightarrow> char stream option \<Rightarrow> char stream option option" where
  "write_signed num radix fd =
     (if sint num < 0
      then write_unsigned (- num) radix (snd (write_all ''-'' fd))
      else write_unsigned num radix fd)"

section \<open>Formats\<close>

text \<open>
  The arguments of a call: an \<open>int\<close>, a \<open>size_t\<close> or a pointer, a string. Reading an argument
  that is not there or of another type is undefined behaviour, \<open>None\<close>.
\<close>

datatype va_arg = Int_Arg u32 | Long_Arg "64 word" | Text_Arg "string option"

fun skip_z :: "bool \<Rightarrow> string \<Rightarrow> bool \<times> string" where
  "skip_z is_size [] = (is_size, [])"
| "skip_z is_size (c # cs) = (if c = CHR ''z'' then skip_z True cs else (is_size, c # cs))"

definition next_long :: "bool \<Rightarrow> va_arg list \<Rightarrow> (64 word \<times> va_arg list) option" where
  "next_long is_size va = (case va of
       Int_Arg w # va \<Rightarrow> if is_size then None else Some (scast w, va)
     | Long_Arg w # va \<Rightarrow> if is_size then Some (w, va) else None
     | _ \<Rightarrow> None)"

definition directive ::
    "pid \<Rightarrow> bool \<Rightarrow> char \<Rightarrow> va_arg list \<Rightarrow> char stream option \<Rightarrow> (va_arg list \<times> char stream option) option" where
  "directive pid is_size c va fd =
     (if c = CHR ''d'' then do { (n, va) \<leftarrow> next_long is_size va; fd \<leftarrow> write_signed n 10 fd; Some (va, fd) }
      else if c = CHR ''u'' then do { (n, va) \<leftarrow> next_long is_size va; fd \<leftarrow> write_unsigned n 10 fd; Some (va, fd) }
      else if c = CHR ''x'' then do { (n, va) \<leftarrow> next_long is_size va; fd \<leftarrow> write_unsigned n 16 fd; Some (va, fd) }
      else if c = CHR ''p'' then do { (n, va) \<leftarrow> next_long True va; fd \<leftarrow> write_unsigned n 16 fd; Some (va, fd) }
      else if c = CHR ''s'' then (case va of
          Text_Arg t # va \<Rightarrow> Some (va, snd (write_all (case t of None \<Rightarrow> ''(null)'' | Some t \<Rightarrow> t) fd))
        | _ \<Rightarrow> None)
      else if c = CHR ''%'' then Some (va, snd (write_all ''%'' fd))
      else if c = CHR ''P'' then do { fd \<leftarrow> write_signed (scast pid) 10 fd; Some (va, fd) }
      else Some (va, fd))"

lemma length_skip_z: "length (snd (skip_z b cs)) \<le> length cs"
  by (induction b cs rule: skip_z.induct) auto

function mi_vprintf ::
    "pid \<Rightarrow> string \<Rightarrow> va_arg list \<Rightarrow> char stream option \<Rightarrow> char stream option option" where
  "mi_vprintf pid format va fd =
     (case dropWhile (\<lambda>c. c \<noteq> CHR ''%'') format of
        [] \<Rightarrow> Some (snd (write_all format fd))
      | p # rest \<Rightarrow>
          let fd = snd (write_all (takeWhile (\<lambda>c. c \<noteq> CHR ''%'') format) fd);
              is_size = fst (skip_z False rest)
          in (case snd (skip_z False rest) of
                [] \<Rightarrow> Some fd
              | c # rest \<Rightarrow> Option.bind (directive pid is_size c va fd) (\<lambda>vf. mi_vprintf pid rest (fst vf) (snd vf))))"
  by pat_completeness auto

termination
proof (relation "measure (\<lambda>(pid, format, va, fd). length format)")
  fix format p rest and c :: char and cs
  assume a: "dropWhile (\<lambda>c. c \<noteq> CHR ''%'') format = p # rest" "snd (skip_z False rest) = c # cs"
  have "length (p # rest) \<le> length format" using a(1) by (metis length_dropWhile_le)
  moreover have "length (c # cs) \<le> length rest" using length_skip_z [of False rest] a(2) by simp
  ultimately have "length cs < length format" by simp
  then show "((pid, cs, va, fd), pid', format, va', fd') \<in> measure (\<lambda>(pid, format, va, fd). length format)"
    for pid pid' :: pid and va va' :: "va_arg list" and fd fd' :: "char stream option" by simp
qed simp

declare mi_vprintf.simps [simp del]

definition mi_printf :: "pid \<Rightarrow> char stream option \<Rightarrow> string \<Rightarrow> va_arg list \<Rightarrow> char stream option option" where
  "mi_printf pid fd format va = mi_vprintf pid format va fd"

text \<open>
  \<open>mi_debug\<close> opens the terminal once; \<open>tty\<close> is what \<open>open\<close> gives now, \<open>None\<close> when it
  fails. The state is the static descriptor.
\<close>

definition mi_debug ::
    "pid \<Rightarrow> char stream option \<Rightarrow> string \<Rightarrow> va_arg list \<Rightarrow> char stream option \<Rightarrow> char stream option option" where
  "mi_debug pid tty format va fd = do {
     let fd = (if fd = None then tty else fd);
     fd \<leftarrow> mi_printf pid fd ''memintercept (%P): '' [];
     mi_vprintf pid format va fd
   }"

definition mi_perror ::
    "pid \<Rightarrow> char stream option \<Rightarrow> (u32 \<Rightarrow> string) \<Rightarrow> u32 \<Rightarrow> string option \<Rightarrow> char stream option \<Rightarrow> char stream option option" where
  "mi_perror pid tty strerror errno message fd =
     (case message of
        Some (c # cs) \<Rightarrow> mi_debug pid tty (''%s: %s (%d)'' @ [CHR 0x0A])
          [Text_Arg (Some (c # cs)), Text_Arg (Some (strerror errno)), Int_Arg errno] fd
      | _ \<Rightarrow> mi_debug pid tty (''%s (%d)'' @ [CHR 0x0A]) [Text_Arg (Some (strerror errno)), Int_Arg errno] fd)"

definition mi_write ::
    "pid \<Rightarrow> char stream option \<Rightarrow> 'a list \<Rightarrow> 'a stream \<times> char stream option \<Rightarrow>
     (bool \<times> 'a stream \<times> char stream option) option" where
  "mi_write pid tty buf sd =
     (let (res, s) = write_stream buf (fst sd) in
      (case res of
         All_Written \<Rightarrow> Some (True, s, snd sd)
       | Wrote_Nothing \<Rightarrow> Some (False, s, snd sd)
       | Error_No e \<Rightarrow> do {
           d \<leftarrow> mi_debug pid tty (''mi_write error %d'' @ [CHR 0x0A]) [Int_Arg e] (snd sd);
           Some (False, s, d)
         }))"

section \<open>Atomic counters\<close>

text \<open>
  The exchange and add of the processor: the register gets the old value, the memory the sum;
  the instruction after it brings the register up to the new value.
\<close>

definition xadd :: "u32 \<Rightarrow> u32 \<Rightarrow> u32 \<times> u32" where
  "xadd register memory = (memory, memory + register)"

definition mi_atomic_increment :: "u32 \<Rightarrow> u32 \<times> u32" where
  "mi_atomic_increment m = (let (result, m) = xadd 1 m in (result + 1, m))"

definition mi_atomic_decrement :: "u32 \<Rightarrow> u32 \<times> u32" where
  "mi_atomic_decrement m = (let (result, m) = xadd (- 1) m in (result - 1, m))"

end
