(* ===== verification/Wire.thy ===== *)
theory Wire
  imports Protocol
begin

text \<open>
  The bytes of a message (lib/memintercept.h, on x86-64): the variants of the union overlay each
  other in 48 bytes, little-endian, with padding before the first pointer and at the end. The
  library writes them with one call, the profiler reads them into the same union.
\<close>

type_synonym byte = "8 word"

definition le_bytes :: "nat \<Rightarrow> 'a::len word \<Rightarrow> byte list" where
  "le_bytes n w = map (\<lambda>i. ucast (drop_bit (8 * i) w)) [0..<n]"

fun of_le :: "byte list \<Rightarrow> 'a::len word" where
  "of_le [] = 0"
| "of_le (b # bs) = or (ucast b) (push_bit 8 (of_le bs))"

definition op_code :: "mi_operation \<Rightarrow> u32" where
  "op_code op = (case op of MI_MALLOC \<Rightarrow> 0 | MI_REALLOC \<Rightarrow> 1 | MI_FREE \<Rightarrow> 2 | MI_TIME \<Rightarrow> 3 | MI_EXEC \<Rightarrow> 4
     | MI_NEW \<Rightarrow> 5 | MI_FORK \<Rightarrow> 6 | MI_CLONE \<Rightarrow> 7 | MI_EXIT \<Rightarrow> 8)"

fun op_of :: "nat \<Rightarrow> mi_operation list \<Rightarrow> mi_operation option" where
  "op_of n [] = None"
| "op_of n (x # xs) = (if n = 0 then Some x else op_of (n - 1) xs)"

definition operations :: "mi_operation list" where
  "operations = [MI_MALLOC, MI_REALLOC, MI_FREE, MI_TIME, MI_EXEC, MI_NEW, MI_FORK, MI_CLONE, MI_EXIT]"

text \<open>\<open>struct _MIInfoAlloc\<close> and \<open>struct _MIInfoFork\<close> in the union; what a variant does not cover is zero.\<close>

definition wire_any :: "mi_info \<Rightarrow> byte list" where
  "wire_any info = le_bytes 4 (op_code (operation info)) @ le_bytes 4 (i_pid info) @ le_bytes 4 (i_seqno info)"

definition wire_alloc :: "mi_info \<Rightarrow> byte list" where
  "wire_alloc info = wire_any info @ replicate 4 0 @ le_bytes 8 (old_ptr info) @ le_bytes 8 (new_ptr info) @
     le_bytes 8 (i_size info) @ le_bytes 4 (stack_size info) @ replicate 4 0"

definition wire_fork :: "mi_info \<Rightarrow> byte list" where
  "wire_fork info = wire_any info @ le_bytes 4 (new_pid info) @ replicate 32 0"

definition wire_frames :: "ptr list \<Rightarrow> byte list" where
  "wire_frames frames = concat (map (le_bytes 8) frames)"

text \<open>Reading a field at an offset of the union.\<close>

definition field :: "nat \<Rightarrow> nat \<Rightarrow> byte list \<Rightarrow> 'a::len word" where
  "field offset n bs = of_le (take n (drop offset bs))"

definition read_alloc :: "byte list \<Rightarrow> mi_info option" where
  "read_alloc bs = (if length bs < 48 then None
     else map_option (\<lambda>op. \<lparr>operation = op, i_pid = field 4 4 bs, i_seqno = field 8 4 bs,
         old_ptr = field 16 8 bs, new_ptr = field 24 8 bs, i_size = field 32 8 bs,
         stack_size = field 40 4 bs, new_pid = 0\<rparr>)
       (op_of (unat (field 0 4 bs :: u32)) operations))"

definition read_fork :: "byte list \<Rightarrow> mi_info option" where
  "read_fork bs = (if length bs < 48 then None
     else map_option (\<lambda>op. \<lparr>operation = op, i_pid = field 4 4 bs, i_seqno = field 8 4 bs,
         old_ptr = 0, new_ptr = 0, i_size = 0, stack_size = 0, new_pid = field 12 4 bs\<rparr>)
       (op_of (unat (field 0 4 bs :: u32)) operations))"

fun read_frames :: "nat \<Rightarrow> byte list \<Rightarrow> ptr list" where
  "read_frames 0 bs = []"
| "read_frames (Suc n) bs = field 0 8 bs # read_frames n (drop 8 bs)"

end
