(* ===== verification/Intercept.thy ===== *)
theory Intercept
  imports Mi_Utils Wire
begin

text \<open>
  The core of the preloaded library (lib/intercept.c, compiled for NPTL): its initialisation, the
  connection every thread and process has to the profiler, the messages, and the process calls it
  intercepts.

  The state is that of one process: the static variables, the thread variable of each thread
  (named by a number), and the open connections. What the operating system answers is the record
  \<open>lib_env\<close>. A run ends by returning, by the end of the process, or in undefined behaviour
  (\<open>None\<close>).
\<close>

section \<open>State\<close>

record thread_info =
  ti_pid :: pid
  ti_outfd :: nat
  ti_clone_pid :: pid

datatype read_result = Got byte | Read_Interrupted | Read_End | Read_Failed

record connection =
  cn_stream :: "byte stream"
  cn_reads :: "read_result list"

record lib_state =
  l_initialized :: int
  l_tracing :: bool
  l_socket_path :: "string option"
  l_seqno :: u32
  l_threads :: "nat \<Rightarrow> thread_info"
  l_conns :: "nat \<rightharpoonup> connection"
  l_n_calls :: nat
  l_socket_env :: "string option"
  l_debug :: "char stream option"
  l_stderr :: "char stream option"

text \<open>How \<open>socket\<close>, \<open>connect\<close> and \<open>fcntl\<close> go, for the calls of \<open>new_process\<close> in turn.\<close>

datatype conn_result = Socket_Failed u32 | Connect_Failed u32 | Fcntl_Failed u32 | Connected nat connection

record lib_env =
  le_pid :: pid
  le_connect :: "nat \<Rightarrow> string \<Rightarrow> conn_result"
  le_tty :: "char stream option"
  le_strerror :: "u32 \<Rightarrow> string"
  le_bad_fd :: u32

datatype ended = Exited int | Aborted

type_synonym 'a lib = "lib_state \<Rightarrow> (ended \<times> lib_state + 'a \<times> lib_state) option"

definition lret :: "'a \<Rightarrow> 'a lib" where
  "lret x s = Some (Inr (x, s))"

definition lbind :: "'a lib \<Rightarrow> ('a \<Rightarrow> 'b lib) \<Rightarrow> 'b lib" where
  "lbind m f s = (case m s of
       None \<Rightarrow> None
     | Some (Inl e) \<Rightarrow> Some (Inl e)
     | Some (Inr (x, s)) \<Rightarrow> f x s)"

definition lend :: "ended \<Rightarrow> 'a lib" where
  "lend e s = Some (Inl (e, s))"

definition lget :: "(lib_state \<Rightarrow> 'a) \<Rightarrow> 'a lib" where
  "lget f s = Some (Inr (f s, s))"

definition lmod :: "(lib_state \<Rightarrow> lib_state) \<Rightarrow> unit lib" where
  "lmod f s = Some (Inr ((), f s))"

text \<open>A step that may be undefined.\<close>

definition ltry :: "(lib_state \<Rightarrow> lib_state option) \<Rightarrow> unit lib" where
  "ltry f s = map_option (\<lambda>s. Inr ((), s)) (f s)"

definition lwhen :: "bool \<Rightarrow> unit lib \<Rightarrow> unit lib" where
  "lwhen b m = (if b then m else lret ())"

definition set_thread :: "nat \<Rightarrow> thread_info \<Rightarrow> lib_state \<Rightarrow> lib_state" where
  "set_thread t ti s = s\<lparr>l_threads := (l_threads s)(t := ti)\<rparr>"

section \<open>Messages on descriptors\<close>

definition lib_perror :: "lib_env \<Rightarrow> u32 \<Rightarrow> string \<Rightarrow> unit lib" where
  "lib_perror env e message = ltry (\<lambda>s.
     map_option (\<lambda>d. s\<lparr>l_debug := d\<rparr>) (mi_perror (le_pid env) (le_tty env) (le_strerror env) e (Some message) (l_debug s)))"

text \<open>\<open>mi_write\<close> on a descriptor: without a connection there, \<open>send\<close> fails.\<close>

definition lib_write :: "lib_env \<Rightarrow> nat \<Rightarrow> byte list \<Rightarrow> bool lib" where
  "lib_write env fd buf s = (case l_conns s fd of
       Some c \<Rightarrow> map_option (\<lambda>(ok, st, d).
           Inr (ok, s\<lparr>l_conns := (l_conns s)(fd \<mapsto> c\<lparr>cn_stream := st\<rparr>), l_debug := d\<rparr>))
         (mi_write (le_pid env) (le_tty env) buf (cn_stream c, l_debug s))
     | None \<Rightarrow> map_option (\<lambda>(ok, st, d). Inr (ok, s\<lparr>l_debug := d\<rparr>))
         (mi_write (le_pid env) (le_tty env) buf (\<lparr>outcomes = [Failed (le_bad_fd env)], sent = []\<rparr>, l_debug s)))"

text \<open>Reading one byte, again when a signal interrupts; the result is \<open>count\<close> and the byte.\<close>

fun read_byte :: "read_result list \<Rightarrow> int \<times> byte \<times> read_result list" where
  "read_byte [] = (0, 0, [])"
| "read_byte (r # rs) = (case r of
     Got b \<Rightarrow> (1, b, rs) | Read_Interrupted \<Rightarrow> read_byte rs | Read_End \<Rightarrow> (0, 0, rs) | Read_Failed \<Rightarrow> (-1, 0, rs))"

definition lib_read :: "nat \<Rightarrow> (int \<times> byte) lib" where
  "lib_read fd s = (case l_conns s fd of
       Some c \<Rightarrow> let (count, b, rs) = read_byte (cn_reads c)
         in Some (Inr ((count, b), s\<lparr>l_conns := (l_conns s)(fd \<mapsto> c\<lparr>cn_reads := rs\<rparr>)\<rparr>))
     | None \<Rightarrow> Some (Inr ((-1, 0), s)))"

definition lib_close :: "nat \<Rightarrow> unit lib" where
  "lib_close fd = lmod (\<lambda>s. s\<lparr>l_conns := (l_conns s)(fd := None)\<rparr>)"

section \<open>Ending\<close>

definition abort_unitialized :: "lib_env \<Rightarrow> string \<Rightarrow> 'a lib" where
  "abort_unitialized env call = lbind
     (ltry (\<lambda>s. map_option (\<lambda>d. s\<lparr>l_stderr := d\<rparr>)
        (mi_printf (le_pid env) (l_stderr s)
          (''MemProf: unexpected library call during initialization: %s'' @ [CHR 0x0A]) [Text_Arg (Some call)])))
     (\<lambda>_. lend Aborted)"

definition stop_tracing :: "nat \<Rightarrow> unit lib" where
  "stop_tracing fd =
     lbind (lmod (\<lambda>s. s\<lparr>l_tracing := False\<rparr>)) (\<lambda>_.
     lbind (lib_close fd) (\<lambda>_.
     lmod (\<lambda>s. s\<lparr>l_socket_env := Some ''''\<rparr>)))"

text \<open>The library's own \<open>_exit\<close> with tracing off, as \<open>new_process\<close> calls it.\<close>

definition give_up :: "lib_env \<Rightarrow> 'a lib" where
  "give_up env =
     lbind (lmod (\<lambda>s. s\<lparr>l_tracing := False\<rparr>)) (\<lambda>_.
     lbind (lget l_initialized) (\<lambda>i.
     if i \<le> 0 then abort_unitialized env ''_exit'' else lend (Exited 1)))"

section \<open>Connections\<close>

definition allocate_thread :: "lib_env \<Rightarrow> nat \<Rightarrow> unit lib" where
  "allocate_thread env t = lmod (\<lambda>s. set_thread t ((l_threads s t)\<lparr>ti_pid := le_pid env, ti_clone_pid := 0\<rparr>) s)"

definition release_thread :: "nat \<Rightarrow> unit lib" where
  "release_thread t = lmod (\<lambda>s. set_thread t ((l_threads s t)\<lparr>ti_pid := 0\<rparr>) s)"

text \<open>The path must leave room for its end in \<open>sun_path\<close>, whose length \<open>strlen\<close> reads.\<close>

definition connect_socket :: "lib_env \<Rightarrow> nat lib" where
  "connect_socket env s = (case l_socket_path s of
       None \<Rightarrow> None
     | Some path \<Rightarrow>
         if 108 \<le> length path then None
         else (let s' = s\<lparr>l_n_calls := l_n_calls s + 1\<rparr> in
           case le_connect env (l_n_calls s) path of
             Socket_Failed e \<Rightarrow> lbind (lib_perror env e ''error creating socket'') (\<lambda>_. give_up env) s'
           | Connect_Failed e \<Rightarrow> lbind (lib_perror env e ''Error connecting to memprof'') (\<lambda>_. give_up env) s'
           | Fcntl_Failed e \<Rightarrow> lbind (lib_perror env e ''error calling fcntl'') (\<lambda>_. give_up env) s'
           | Connected fd c \<Rightarrow> Some (Inr (fd, s'\<lparr>l_conns := (l_conns s)(fd \<mapsto> c)\<rparr>))))"

definition new_process :: "lib_env \<Rightarrow> nat \<Rightarrow> bool \<Rightarrow> pid \<Rightarrow> mi_operation \<Rightarrow> unit lib" where
  "new_process env t allocated old_pid op =
     lbind (connect_socket env) (\<lambda>outfd.
     let info = zero_info\<lparr>operation := op, i_pid := old_pid, new_pid := le_pid env, i_seqno := 0\<rparr> in
     lbind (lwhen (\<not> allocated) (allocate_thread env t)) (\<lambda>_.
     lbind (lmod (\<lambda>s. set_thread t ((l_threads s t)\<lparr>ti_outfd := outfd\<rparr>) s)) (\<lambda>_.
     lbind (lib_write env outfd (wire_fork info)) (\<lambda>ok.
     lbind (if ok then lib_read outfd else lbind (stop_tracing outfd) (\<lambda>_. lret (0, 0))) (\<lambda>(count, response).
     lwhen (count \<noteq> 1 \<or> response = 0) (stop_tracing outfd))))))"

text \<open>A thread made by \<open>clone\<close> connects at its first message.\<close>

definition find_thread :: "lib_env \<Rightarrow> nat \<Rightarrow> thread_info lib" where
  "find_thread env t =
     lbind (lget (\<lambda>s. l_threads s t)) (\<lambda>ti.
     lbind (lwhen (ti_clone_pid ti \<noteq> 0)
       (lbind (new_process env t True (ti_clone_pid ti) MI_CLONE) (\<lambda>_.
        lmod (\<lambda>s. set_thread t ((l_threads s t)\<lparr>ti_clone_pid := 0\<rparr>) s)))) (\<lambda>_.
     lget (\<lambda>s. l_threads s t)))"

definition next_seqno :: "u32 lib" where
  "next_seqno s = (let (n, m) = mi_atomic_increment (l_seqno s) in Some (Inr (n - 1, s\<lparr>l_seqno := m\<rparr>)))"

definition mi_write_stack :: "lib_env \<Rightarrow> nat \<Rightarrow> int \<Rightarrow> ptr list \<Rightarrow> mi_info \<Rightarrow> unit lib" where
  "mi_write_stack env t n_frames frames info =
     (if n_frames < 0 \<or> n_frames > 20000 then lret ()
      else
        lbind next_seqno (\<lambda>n.
        let info = info\<lparr>stack_size := word_of_int n_frames, i_pid := le_pid env, i_seqno := n\<rparr> in
        lbind (find_thread env t) (\<lambda>ti.
        lbind (lib_write env (ti_outfd ti) (wire_alloc info)) (\<lambda>ok.
        lbind (if ok then lib_write env (ti_outfd ti) (wire_frames frames) else lret False) (\<lambda>ok.
        lwhen (\<not> ok) (stop_tracing (ti_outfd ti)))))))"

definition exit_wait :: "lib_env \<Rightarrow> nat \<Rightarrow> unit lib" where
  "exit_wait env t =
     lbind next_seqno (\<lambda>n.
     let info = zero_info\<lparr>operation := MI_EXIT, i_seqno := n, i_pid := le_pid env\<rparr> in
     lbind (find_thread env t) (\<lambda>ti.
     lbind (lib_write env (ti_outfd ti) (wire_alloc info)) (\<lambda>ok.
     lbind (lwhen ok (lbind (lib_read (ti_outfd ti)) (\<lambda>_. lret ()))) (\<lambda>_.
     lbind (lib_close (ti_outfd ti)) (\<lambda>_.
     lbind (lmod (\<lambda>s. set_thread t ((l_threads s t)\<lparr>ti_pid := 0\<rparr>) s)) (\<lambda>_.
     release_thread t))))))"

definition atexit_trap :: "lib_env \<Rightarrow> nat \<Rightarrow> unit lib" where
  "atexit_trap env t =
     lbind (lget l_tracing) (\<lambda>tracing.
     lwhen tracing (lbind (exit_wait env t) (\<lambda>_. lmod (\<lambda>s. s\<lparr>l_tracing := False\<rparr>))))"

definition lib_exit :: "lib_env \<Rightarrow> nat \<Rightarrow> int \<Rightarrow> 'a lib" where
  "lib_exit env t status =
     lbind (lget l_initialized) (\<lambda>i.
     if i \<le> 0 then abort_unitialized env ''_exit''
     else lbind (atexit_trap env t) (\<lambda>_. lend (Exited status)))"

section \<open>Initialisation\<close>

text \<open>\<open>exit\<close> runs the handler that \<open>initialize\<close> registered.\<close>

definition memprof_init :: "lib_env \<Rightarrow> nat \<Rightarrow> unit lib" where
  "memprof_init env t =
     lbind (lmod (\<lambda>s. s\<lparr>l_socket_path := l_socket_env s\<rparr>)) (\<lambda>_.
     lbind (lget l_socket_path) (\<lambda>path. case path of
       None \<Rightarrow>
         lbind (ltry (\<lambda>s. map_option (\<lambda>d. s\<lparr>l_stderr := d\<rparr>)
           (mi_printf (le_pid env) (l_stderr s) (''libmemintercept: must be used with memprof'' @ [CHR 0x0A]) []))) (\<lambda>_.
         lbind (atexit_trap env t) (\<lambda>_. lend (Exited 1)))
     | Some path \<Rightarrow>
         if path = '''' then lmod (\<lambda>s. s\<lparr>l_tracing := False\<rparr>)
         else new_process env t False 0 MI_NEW))"

definition initialize :: "unit lib" where
  "initialize = lmod (\<lambda>s. s\<lparr>l_initialized := 1\<rparr>)"

definition mi_check_init :: "lib_env \<Rightarrow> nat \<Rightarrow> bool lib" where
  "mi_check_init env t =
     lbind (lget l_initialized) (\<lambda>i.
     if i < 0 then lret False
     else
       lbind (lwhen (i = 0) initialize) (\<lambda>_.
       lbind (lget l_socket_path) (\<lambda>path.
       lbind (lwhen (path = None) (memprof_init env t)) (\<lambda>_.
       lret True))))"

definition mi_tracing :: "bool lib" where
  "mi_tracing = lget l_tracing"

definition checked :: "lib_env \<Rightarrow> nat \<Rightarrow> string \<Rightarrow> unit lib" where
  "checked env t call = lbind (mi_check_init env t) (\<lambda>ok. if ok then lret () else abort_unitialized env call)"

section \<open>Process calls\<close>

text \<open>
  The body that \<open>__fork\<close> and \<open>__vfork\<close> share word for word: \<open>pid\<close> is what the real call
  returns in the process the run goes on in; the child sees the environment \<open>env'\<close>.
\<close>

definition traced_fork :: "string \<Rightarrow> lib_env \<Rightarrow> lib_env \<Rightarrow> nat \<Rightarrow> pid \<Rightarrow> pid lib" where
  "traced_fork call env env' t pid =
     lbind (checked env t call) (\<lambda>_.
     lbind mi_tracing (\<lambda>tracing.
     lbind (lwhen tracing
       (lbind (find_thread env t) (\<lambda>_.
        lwhen (pid = 0) (new_process env' t False (le_pid env) MI_FORK)))) (\<lambda>_.
     lret pid)))"

definition lib_fork :: "lib_env \<Rightarrow> lib_env \<Rightarrow> nat \<Rightarrow> pid \<Rightarrow> pid lib" where
  "lib_fork = traced_fork ''__fork''"

definition lib_vfork :: "lib_env \<Rightarrow> lib_env \<Rightarrow> nat \<Rightarrow> pid \<Rightarrow> pid lib" where
  "lib_vfork = traced_fork ''__vfork''"

fun cut_socket :: "string list \<Rightarrow> string list" where
  "cut_socket [] = []"
| "cut_socket (e # es) =
     (if take 16 e = ''_MEMPROF_SOCKET='' then ''_MEMPROF_SOCKET='' else e) # cut_socket es"

text \<open>The environment \<open>execve\<close> passes on.\<close>

definition lib_execve :: "lib_env \<Rightarrow> nat \<Rightarrow> string list \<Rightarrow> string list lib" where
  "lib_execve env t envp =
     lbind (checked env t ''__execve'') (\<lambda>_.
     lbind mi_tracing (\<lambda>tracing.
     lret (if tracing then envp else cut_socket envp)))"

text \<open>
  \<open>__clone\<close> in the parent, and \<open>clone_thunk\<close>, with which the new thread \<open>t'\<close> (of the process
  \<open>env'\<close>) starts before the parent goes on. When \<open>clone\<close> fails no thread ever sets
  \<open>started\<close>, and the parent waits for ever.
\<close>

definition clone_thunk :: "lib_env \<Rightarrow> nat \<Rightarrow> pid \<Rightarrow> unit lib" where
  "clone_thunk env' t' parent_pid =
     lbind (allocate_thread env' t') (\<lambda>_.
     lmod (\<lambda>s. set_thread t' ((l_threads s t')\<lparr>ti_clone_pid := parent_pid\<rparr>) s))"

definition lib_clone :: "lib_env \<Rightarrow> lib_env \<Rightarrow> nat \<Rightarrow> nat \<Rightarrow> int \<Rightarrow> int lib" where
  "lib_clone env env' t t' pid =
     lbind (checked env t ''__clone'') (\<lambda>_.
     lbind mi_tracing (\<lambda>tracing.
     if tracing
     then
       lbind (find_thread env t) (\<lambda>_.
       if pid < 0 then (\<lambda>s. None)
       else lbind (clone_thunk env' t' (le_pid env)) (\<lambda>_. lret pid))
     else lret pid))"

end
