(* ===== verification/Stack_Frame.thy ===== *)
theory Stack_Frame
  imports Prelude
begin

text \<open>
  Stack traces (lib/stack-frame.c), with \<open>backtrace\<close> of the C library and without. The call
  stack of the thread is a list of return addresses, the innermost first; \<open>guard\<close> is the
  thread variable \<open>in_backtrace\<close>, which is not zero when \<open>backtrace\<close> itself allocates.
\<close>

definition backtrace :: "ptr list \<Rightarrow> nat \<Rightarrow> ptr list" where
  "backtrace frames bufsiz = take bufsiz frames"

partial_function (option) backtrace_loop :: "nat \<Rightarrow> ptr list \<Rightarrow> nat \<Rightarrow> ptr list option" where
  "backtrace_loop guard frames bufsiz =
     (let buf = (if guard = 0 then backtrace frames bufsiz else [])
      in if length buf = bufsiz then backtrace_loop guard frames (bufsiz * 2) else Some buf)"

text \<open>The number of frames and the frames that the callback gets.\<close>

definition mi_call_with_backtrace :: "nat \<Rightarrow> ptr list \<Rightarrow> nat \<Rightarrow> (int \<times> ptr list) option" where
  "mi_call_with_backtrace guard frames to_skip =
     map_option (\<lambda>buf. (int (length buf) - int to_skip, drop to_skip buf)) (backtrace_loop guard frames 128)"

text \<open>
  The walk along frame pointers from a signal handler. \<open>mem\<close> gives the two words of a frame,
  \<open>None\<close> where the stack cannot be read. The array of frames doubles when it is full.
\<close>

partial_function (option) signal_frames ::
    "(ptr \<Rightarrow> (ptr \<times> ptr) option) \<Rightarrow> ptr \<Rightarrow> ptr \<Rightarrow> nat \<Rightarrow> ptr list \<Rightarrow> ptr list option" where
  "signal_frames mem stack_bound frame nframes frames =
     (if frame > stack_bound
      then (case mem frame of None \<Rightarrow> None
        | Some (next_frame, ret) \<Rightarrow>
            let nframes = (if length frames = nframes then nframes * 2 else nframes)
            in if length frames < nframes
               then signal_frames mem stack_bound next_frame nframes (frames @ [ret])
               else None)
      else Some frames)"

definition mi_call_with_signal_backtrace ::
    "(ptr \<Rightarrow> (ptr \<times> ptr) option) \<Rightarrow> ptr \<Rightarrow> ptr \<Rightarrow> ptr \<Rightarrow> (int \<times> ptr list) option" where
  "mi_call_with_signal_backtrace mem first_address second_frame stack_bound =
     map_option (\<lambda>frames. (int (length frames), frames)) (signal_frames mem stack_bound second_frame 64 [first_address])"

text \<open>
  The back trace on systems without \<open>backtrace\<close>: the same walk from the innermost frame, which ends at
  a null frame pointer; the first frames are left out.
\<close>

partial_function (option) call_frames ::
    "(ptr \<Rightarrow> (ptr \<times> ptr) option) \<Rightarrow> ptr \<Rightarrow> nat \<Rightarrow> ptr list \<Rightarrow> ptr list option" where
  "call_frames mem frame nframes frames =
     (if frame \<noteq> 0
      then (case mem frame of None \<Rightarrow> None
        | Some (next_frame, ret) \<Rightarrow>
            let nframes = (if length frames = nframes then nframes * 2 else nframes)
            in if length frames < nframes
               then call_frames mem next_frame nframes (frames @ [ret])
               else None)
      else Some frames)"

definition mi_call_with_frames ::
    "(ptr \<Rightarrow> (ptr \<times> ptr) option) \<Rightarrow> ptr \<Rightarrow> nat \<Rightarrow> (int \<times> ptr list) option" where
  "mi_call_with_frames mem first_frame to_skip =
     map_option (\<lambda>frames. (int (length frames) - int to_skip, drop to_skip frames)) (call_frames mem first_frame 64 [])"

end
