(* ===== verification/Memintercept.thy ===== *)
theory Memintercept
  imports Intercept Stack_Frame
begin

text \<open>
  The intercepted allocation functions (lib/memintercept.c). The functions of the C library (or
  of WebKit) behind them are arguments, and so are the return addresses on the stack of the
  calling thread \<open>t\<close> and its \<open>in_backtrace\<close>. \<open>mi_start\<close> and \<open>mi_stop\<close> do nothing here.
\<close>

record caller =
  ca_thread :: nat
  ca_guard :: nat
  ca_frames :: "ptr list"

definition trace_info :: "mi_operation \<Rightarrow> ptr \<Rightarrow> ptr \<Rightarrow> 64 word \<Rightarrow> mi_info" where
  "trace_info op old new sz = zero_info\<lparr>operation := op, old_ptr := old, new_ptr := new, i_size := sz\<rparr>"

text \<open>The \<open>abort_unitialized\<close> of this file, which writes to the terminal.\<close>

definition mem_abort_unitialized :: "lib_env \<Rightarrow> string \<Rightarrow> 'a lib" where
  "mem_abort_unitialized env call = lbind
     (ltry (\<lambda>s. map_option (\<lambda>d. s\<lparr>l_debug := d\<rparr>)
        (mi_debug (le_pid env) (le_tty env)
          (''MemProf: unexpected library call during initialization: %s'' @ [CHR 0x0A]) [Text_Arg (Some call)] (l_debug s))))
     (\<lambda>_. lend Aborted)"

text \<open>\<open>mi_call_with_backtrace (to_skip, mi_write_stack, &info)\<close>, when tracing.\<close>

definition report :: "lib_env \<Rightarrow> caller \<Rightarrow> nat \<Rightarrow> mi_info \<Rightarrow> unit lib" where
  "report env cl to_skip info =
     lbind mi_tracing (\<lambda>tracing.
     if tracing
     then (case mi_call_with_backtrace (ca_guard cl) (ca_frames cl) to_skip of
         None \<Rightarrow> (\<lambda>s. None)
       | Some (n, frames) \<Rightarrow> mi_write_stack env (ca_thread cl) n frames info)
     else lret ())"

definition do_malloc :: "lib_env \<Rightarrow> caller \<Rightarrow> (64 word \<Rightarrow> ptr) \<Rightarrow> 64 word \<Rightarrow> nat \<Rightarrow> ptr lib" where
  "do_malloc env cl old_malloc sz to_skip =
     lbind (mi_check_init env (ca_thread cl)) (\<lambda>ok.
     if \<not> ok then lret 0
     else
       let result = old_malloc sz in
       lbind (report env cl (to_skip + 1) (trace_info MI_MALLOC 0 result sz)) (\<lambda>_.
       lret result))"

definition lib_malloc :: "lib_env \<Rightarrow> caller \<Rightarrow> (64 word \<Rightarrow> ptr) \<Rightarrow> 64 word \<Rightarrow> ptr lib" where
  "lib_malloc env cl old_malloc sz = do_malloc env cl old_malloc sz 1"

text \<open>\<open>total\<close> is an \<open>int\<close>. The second result is the number of bytes that \<open>memset\<close> clears.\<close>

definition do_calloc :: "lib_env \<Rightarrow> caller \<Rightarrow> (64 word \<Rightarrow> ptr) \<Rightarrow> 64 word \<Rightarrow> 64 word \<Rightarrow> (ptr \<times> 64 word) lib" where
  "do_calloc env cl old_malloc nmemb sz =
     (let total = ucast (nmemb * sz) :: u32 in
      lbind (do_malloc env cl old_malloc (scast total) 2) (\<lambda>result.
      lret (result, if result \<noteq> 0 then scast total else 0)))"

definition do_memalign :: "lib_env \<Rightarrow> caller \<Rightarrow> (64 word \<Rightarrow> 64 word \<Rightarrow> ptr) \<Rightarrow> 64 word \<Rightarrow> 64 word \<Rightarrow> ptr lib" where
  "do_memalign env cl old_memalign boundary sz =
     lbind (mi_check_init env (ca_thread cl)) (\<lambda>ok.
     if \<not> ok then mem_abort_unitialized env ''memalign''
     else
       let result = old_memalign boundary sz in
       lbind (report env cl 2 (trace_info MI_MALLOC 0 result sz)) (\<lambda>_.
       lret result))"

definition do_realloc :: "lib_env \<Rightarrow> caller \<Rightarrow> (ptr \<Rightarrow> 64 word \<Rightarrow> ptr) \<Rightarrow> ptr \<Rightarrow> 64 word \<Rightarrow> ptr lib" where
  "do_realloc env cl old_realloc p sz =
     lbind (mi_check_init env (ca_thread cl)) (\<lambda>ok.
     if \<not> ok then lret 0
     else
       let result = old_realloc p sz in
       lbind (report env cl 2 (trace_info MI_REALLOC p result sz)) (\<lambda>_.
       lret result))"

text \<open>The real \<open>free\<close> comes first; it has no result.\<close>

definition do_free :: "lib_env \<Rightarrow> caller \<Rightarrow> ptr \<Rightarrow> unit lib" where
  "do_free env cl p =
     lbind (mi_check_init env (ca_thread cl)) (\<lambda>ok.
     if \<not> ok then lret ()
     else report env cl 2 (trace_info MI_FREE p 0 0))"

section \<open>The exported names\<close>

definition lib_calloc :: "lib_env \<Rightarrow> caller \<Rightarrow> (64 word \<Rightarrow> ptr) \<Rightarrow> 64 word \<Rightarrow> 64 word \<Rightarrow> (ptr \<times> 64 word) lib" where
  "lib_calloc env cl old_malloc nmemb sz = do_calloc env cl old_malloc nmemb sz"

definition lib_memalign :: "lib_env \<Rightarrow> caller \<Rightarrow> (64 word \<Rightarrow> 64 word \<Rightarrow> ptr) \<Rightarrow> 64 word \<Rightarrow> 64 word \<Rightarrow> ptr lib" where
  "lib_memalign env cl old_memalign boundary sz = do_memalign env cl old_memalign boundary sz"

definition lib_realloc :: "lib_env \<Rightarrow> caller \<Rightarrow> (ptr \<Rightarrow> 64 word \<Rightarrow> ptr) \<Rightarrow> ptr \<Rightarrow> 64 word \<Rightarrow> ptr lib" where
  "lib_realloc env cl old_realloc p sz = do_realloc env cl old_realloc p sz"

definition lib_free :: "lib_env \<Rightarrow> caller \<Rightarrow> ptr \<Rightarrow> unit lib" where
  "lib_free env cl p = do_free env cl p"

section \<open>The allocator of WebKit\<close>

definition fast_malloc :: "lib_env \<Rightarrow> caller \<Rightarrow> (64 word \<Rightarrow> ptr) \<Rightarrow> 64 word \<Rightarrow> ptr lib" where
  "fast_malloc env cl old_malloc sz =
     lbind (mi_check_init env (ca_thread cl)) (\<lambda>ok.
     if \<not> ok then lret 0
     else
       let result = old_malloc sz in
       lbind (report env cl 2 (trace_info MI_MALLOC 0 result sz)) (\<lambda>_.
       lret result))"

definition fast_realloc :: "lib_env \<Rightarrow> caller \<Rightarrow> (ptr \<Rightarrow> 64 word \<Rightarrow> ptr) \<Rightarrow> ptr \<Rightarrow> 64 word \<Rightarrow> ptr lib" where
  "fast_realloc env cl old_realloc p sz =
     lbind (mi_check_init env (ca_thread cl)) (\<lambda>ok.
     if \<not> ok then lret 0
     else
       let result = old_realloc p sz in
       lbind (report env cl 1 (trace_info MI_REALLOC p result sz)) (\<lambda>_.
       lret result))"

definition fast_free :: "lib_env \<Rightarrow> caller \<Rightarrow> ptr \<Rightarrow> unit lib" where
  "fast_free env cl p =
     lbind (mi_check_init env (ca_thread cl)) (\<lambda>ok.
     if \<not> ok then lret ()
     else report env cl 1 (trace_info MI_FREE p 0 0))"

definition fast_calloc :: "lib_env \<Rightarrow> caller \<Rightarrow> (64 word \<Rightarrow> 64 word \<Rightarrow> ptr) \<Rightarrow> 64 word \<Rightarrow> 64 word \<Rightarrow> ptr lib" where
  "fast_calloc env cl old_calloc nmemb sz =
     lbind (mi_check_init env (ca_thread cl)) (\<lambda>ok.
     if \<not> ok then lret 0
     else
       let result = old_calloc nmemb sz in
       lbind (report env cl 1 (trace_info MI_MALLOC 0 result (nmemb * sz))) (\<lambda>_.
       lret result))"

end
