(* ===== verification/Mi_Utils_Inv.thy ===== *)
theory Mi_Utils_Inv
  imports Mi_Utils
begin

text \<open>
  What the output routines of the library guarantee: a buffer goes out whole or not at all beyond
  a beginning of it, numbers are printed the way they are scanned, and no message of the library's
  own is undefined.
\<close>

section \<open>Writing\<close>

lemma write_loop_spec:
  "write_loop rs buf = (res, out, rs') \<Longrightarrow> prefix out buf \<and> (res = All_Written \<longleftrightarrow> out = buf)"
proof (induction rs buf arbitrary: res out rs' rule: write_loop.induct)
  case (1 buf)
  then show ?case by simp
next
  case (2 r rs buf)
  show ?case
  proof (cases "buf = []")
    case True
    with 2 show ?thesis by simp
  next
    case False
    show ?thesis
    proof (cases r)
      case (Wrote n)
      show ?thesis
      proof (cases "n = 0")
        case True
        with 2 Wrote False show ?thesis by auto
      next
        case n: False
        obtain res' out' rs2 where w: "write_loop rs (drop n buf) = (res', out', rs2)" by (cases "write_loop rs (drop n buf)") auto
        with 2(1) [OF False Wrote n w] 2(3) Wrote False n have
          "prefix out' (drop n buf)" "res' = All_Written \<longleftrightarrow> out' = drop n buf" "res = res'" "out = take n buf @ out'" by auto
        moreover have "buf = take n buf @ drop n buf" by simp
        ultimately show ?thesis by (metis same_append_eq same_prefix_prefix)
      qed
    next
      case Interrupted
      with 2 False show ?thesis by simp
    next
      case (Failed e)
      with 2 False show ?thesis by auto
    qed
  qed
qed

lemma write_stream_spec:
  "\<exists>out. sent (snd (write_stream buf s)) = sent s @ out \<and> prefix out buf \<and>
     (fst (write_stream buf s) = All_Written \<longleftrightarrow> out = buf)"
proof -
  obtain res out rs where w: "write_loop (outcomes s) buf = (res, out, rs)" by (cases "write_loop (outcomes s) buf") auto
  with write_loop_spec [OF w] show ?thesis by (auto simp: write_stream_def)
qed

text \<open>A stream whose calls succeed takes everything.\<close>

definition never_fails :: "outcome list \<Rightarrow> bool" where
  "never_fails rs \<longleftrightarrow> list_all (\<lambda>r. case r of Failed e \<Rightarrow> False | Wrote n \<Rightarrow> 0 < n | Interrupted \<Rightarrow> True) rs"

lemma write_loop_all:
  "never_fails rs \<Longrightarrow> \<exists>rs'. write_loop rs buf = (All_Written, buf, rs') \<and> never_fails rs'"
proof (induction rs buf rule: write_loop.induct)
  case (1 buf)
  then show ?case by simp
next
  case (2 r rs buf)
  show ?case
  proof (cases "buf = []")
    case True
    with 2 show ?thesis by simp
  next
    case False
    have rs: "never_fails rs" using 2(3) by (simp add: never_fails_def)
    show ?thesis
    proof (cases r)
      case (Wrote n)
      then have n: "n \<noteq> 0" using 2(3) by (simp add: never_fails_def)
      from 2(1) [OF False Wrote n rs] obtain rs' where "write_loop rs (drop n buf) = (All_Written, drop n buf, rs')" "never_fails rs'"
        by blast
      with False Wrote n show ?thesis by simp
    next
      case Interrupted
      with 2(2) [OF False Interrupted rs] False show ?thesis by simp
    next
      case (Failed e)
      with 2(3) show ?thesis by (simp add: never_fails_def)
    qed
  qed
qed

lemma write_stream_all:
  assumes "never_fails (outcomes s)"
  shows "\<exists>rs. write_stream buf s = (All_Written, s\<lparr>outcomes := rs, sent := sent s @ buf\<rparr>) \<and> never_fails rs"
  using write_loop_all [OF assms, of buf] by (auto simp: write_stream_def)

section \<open>Printed numbers\<close>

lemma numeral_length: "2 \<le> b \<Longrightarrow> 0 < k \<Longrightarrow> n < b ^ k \<Longrightarrow> length (numeral_of b n) \<le> k"
proof (induction k arbitrary: n)
  case 0
  then show ?case by simp
next
  case (Suc k)
  show ?case
  proof (cases "n < b")
    case True
    then show ?thesis by (subst numeral_of.simps) simp
  next
    case False
    have "k \<noteq> 0" using False Suc.prems(3) by (cases k) auto
    moreover have "n div b < b ^ k" using Suc.prems(1,3) by (simp add: less_mult_imp_div_less mult.commute)
    ultimately have "length (numeral_of b (n div b)) \<le> k" using Suc by simp
    with False Suc.prems(1) show ?thesis by (subst numeral_of.simps) simp
  qed
qed

lemma digits_induct:
  assumes b: "2 \<le> (b :: nat)" and P: "\<And>n. (\<not> n < b \<Longrightarrow> P (n div b)) \<Longrightarrow> P n"
  shows "P n"
proof (induction n rule: less_induct)
  case (less n)
  show ?case
  proof (rule P)
    assume "\<not> n < b"
    then have "n div b < n" using b by simp
    then show "P (n div b)" by (rule less)
  qed
qed

lemma radix_unat:
  assumes "b < 2 ^ 64"
  shows "unat (w div of_nat b :: 64 word) = unat w div b" "unat (w mod of_nat b :: 64 word) = unat w mod b"
  using assms by (simp_all add: unat_div unat_mod take_bit_nat_eq_self unat_of_nat)

lemma count_digits_spec:
  assumes b: "2 \<le> b" "b \<le> 16"
  shows "w \<noteq> 0 \<Longrightarrow> count_digits (of_nat b) w n = Some (n + length (numeral_of b (unat w)))"
proof (induction "unat w" arbitrary: w n rule: digits_induct [OF b(1)])
  case (1 w)
  have r: "(of_nat b :: 64 word) \<noteq> 0"
    using b by (simp add: word_unat_eq_iff unat_of_nat take_bit_nat_eq_self)
  have u: "unat (w div of_nat b) = unat w div b" by (rule radix_unat) (use b in simp)
  show ?case
  proof (cases "unat w < b")
    case True
    then have "w div of_nat b = 0" using u by (simp add: word_unat_eq_iff)
    then have "count_digits (of_nat b) (w div of_nat b) (n + 1) = Some (n + 1)" by (subst count_digits.simps) simp
    with 1(2) r True show ?thesis by (subst count_digits.simps, subst numeral_of.simps) simp
  next
    case False
    then have "w div of_nat b \<noteq> 0" using u b by (simp add: word_unat_eq_iff div_eq_0_iff)
    from 1(1) [OF False u [symmetric] this, of "n + 1"] 1(2) r False b u show ?thesis
      by (subst count_digits.simps, subst numeral_of.simps) simp
  qed
qed

lemma fill_digits_spec:
  assumes b: "2 \<le> b" "b \<le> 16"
  shows "w \<noteq> 0 \<Longrightarrow> length (numeral_of b (unat w)) \<le> i \<Longrightarrow> i \<le> length buf \<Longrightarrow>
    fill_digits (of_nat b) w i buf =
      Some (take (i - length (numeral_of b (unat w))) buf @ numeral_of b (unat w) @ drop i buf)"
proof (induction "unat w" arbitrary: w i buf rule: digits_induct [OF b(1)])
  case (1 w)
  have r: "(of_nat b :: 64 word) \<noteq> 0"
    using b by (simp add: word_unat_eq_iff unat_of_nat take_bit_nat_eq_self)
  have u: "unat (w div of_nat b) = unat w div b" "unat (w mod of_nat b) = unat w mod b" by (rule radix_unat, use b in simp)+
  let ?c = "digit_char (unat w mod b)"
  have i: "i \<noteq> 0" using 1(3) by (cases i) auto
  have upd: "buf[i - 1 := c] = take (i - 1) buf @ c # drop i buf" for c
    using i 1(4) by (simp add: upd_conv_take_nth_drop)
  have step: "fill_digits (of_nat b) w i buf = fill_digits (of_nat b) (w div of_nat b) (i - 1) (buf[i - 1 := ?c])"
    using 1(2,4) i r u by (subst fill_digits.simps) simp
  show ?case
  proof (cases "unat w < b")
    case True
    then have "w div of_nat b = 0" using u by (simp add: word_unat_eq_iff)
    then have "fill_digits (of_nat b) w i buf = Some (buf[i - 1 := ?c])"
      unfolding step by (subst fill_digits.simps) simp
    with True show ?thesis unfolding upd by (subst numeral_of.simps, subst (2) numeral_of.simps) simp
  next
    case False
    then have nz: "w div of_nat b \<noteq> 0" using u b by (simp add: word_unat_eq_iff div_eq_0_iff)
    let ?m = "numeral_of b (unat w div b)"
    have n: "numeral_of b (unat w) = ?m @ [?c]" using False b by (subst numeral_of.simps) simp
    have "length ?m \<le> i - 1" using 1(3) n by simp
    from 1(1) [OF False u(1) [symmetric] nz, of "i - 1" "buf[i - 1 := ?c]"] this 1(4) u(1)
    have "fill_digits (of_nat b) w i buf =
        Some (take (i - 1 - length ?m) (buf[i - 1 := ?c]) @ ?m @ drop (i - 1) (buf[i - 1 := ?c]))"
      unfolding step by simp
    moreover have "drop (i - 1) (buf[i - 1 := ?c]) = ?c # drop i buf" unfolding upd using 1(4) i by simp
    moreover have "take (i - 1 - length ?m) (buf[i - 1 := ?c]) = take (i - length (numeral_of b (unat w))) buf"
      unfolding upd n using 1(4) by simp
    ultimately show ?thesis by (simp add: n)
  qed
qed

definition put_text :: "string \<Rightarrow> char stream option \<Rightarrow> char stream option" where
  "put_text t fd = snd (write_all t fd)"

definition radix_prefix :: "nat \<Rightarrow> string" where
  "radix_prefix b = (if b = 16 then ''0x'' else '''')"

lemma put_text_Nil: "put_text [] fd = fd"
proof (cases fd)
  case (Some s)
  have "write_loop rs [] = (All_Written, [] :: char list, rs)" for rs by (cases rs) simp_all
  then show ?thesis using Some by (simp add: put_text_def write_all_def write_stream_def)
qed (simp add: put_text_def write_all_def)

text \<open>Both loops together print the number.\<close>

lemma write_unsigned_spec:
  assumes b: "b = 10 \<or> b = 16" and w: "w \<noteq> 0"
  shows "write_unsigned w (of_nat b) fd = Some (put_text (numeral_of b (unat w)) (put_text (radix_prefix b) fd))"
proof -
  have b': "2 \<le> b" "b \<le> 16" using b by auto
  have "unat w < 2 ^ 64" using unsigned_less [of w] by simp
  also have "(2 :: nat) ^ 64 \<le> b ^ 64" using b' by (intro power_mono) auto
  finally have len: "length (numeral_of b (unat w)) \<le> 64" by (intro numeral_length) (use b' in auto)
  let ?n = "numeral_of b (unat w)" and ?buf = "replicate 64 (CHR 0x00)"
  have c: "count_digits (of_nat b) w 0 = Some (length ?n)" using count_digits_spec [OF b' w, of 0] by simp
  have f: "fill_digits (of_nat b) w (length ?n) ?buf = Some (?n @ drop (length ?n) ?buf)"
    using fill_digits_spec [OF b' w, of "length ?n" ?buf] len by simp
  have p: "(if of_nat b = (16 :: 64 word) then snd (write_all ''0x'' fd)
          else if of_nat b = (8 :: 64 word) then snd (write_all [CHR ''0'', CHR 0x00] fd) else fd) = put_text (radix_prefix b) fd"
    using b put_text_Nil by (auto simp: radix_prefix_def put_text_def)
  show ?thesis using w c f unfolding write_unsigned_def p by (simp add: put_text_def)
qed

lemma write_unsigned_zero: "write_unsigned 0 r fd = Some (put_text ''0'' fd)"
  by (simp add: write_unsigned_def put_text_def)

section \<open>Signed numbers\<close>

lemma unat_of_int_bounds:
  assumes "0 \<le> k" "k < 2 ^ 64"
  shows "unat (word_of_int k :: 64 word) = nat k"
proof -
  have "uint (word_of_int k :: 64 word) = k" using assms by (simp add: uint_word_of_int)
  then show ?thesis by (simp add: unat_eq_nat_uint)
qed

lemma uint_minus:
  assumes "sint (w :: 64 word) < 0"
  shows "unat (- w) = nat (- sint w)"
proof -
  have "- w = word_of_int (- sint w)" by simp
  moreover have "- (2 ^ 63) \<le> sint w" using sint_ge [of w] by simp
  moreover have "0 \<le> - sint w" "- sint w < 2 ^ 64" using assms calculation(2) by simp_all
  ultimately show ?thesis using unat_of_int_bounds [of "- sint w"] by simp
qed

lemma uint_positive:
  assumes "0 \<le> sint (w :: 64 word)"
  shows "unat w = nat (sint w)"
proof -
  have "w = word_of_int (sint w)" by simp
  moreover have "sint w < 2 ^ 63" using sint_less [of w] by simp
  ultimately show ?thesis using assms unat_of_int_bounds [of "sint w"] by simp
qed


lemma write_signed_spec:
  "write_signed w 10 fd = Some (if sint w < 0 then put_text (numeral_of 10 (nat (- sint w))) (put_text ''-'' fd)
     else put_text (numeral_of 10 (nat (sint w))) fd)"
proof -
  have u: "write_unsigned v 10 fd = Some (put_text (numeral_of 10 (unat v)) fd)" for v fd
  proof (cases "v = 0")
    case True
    have "numeral_of 10 0 = ''0''" by (subst numeral_of.simps) (simp add: digit_char_def char_of_def bit_0)
    with True show ?thesis by (simp add: write_unsigned_zero)
  next
    case False
    with write_unsigned_spec [of 10 v fd] show ?thesis by (simp add: radix_prefix_def put_text_Nil)
  qed
  show ?thesis
  proof (cases "sint w < 0")
    case True
    then show ?thesis unfolding write_signed_def by (simp add: u uint_minus put_text_def)
  next
    case False
    then show ?thesis unfolding write_signed_def by (simp add: u uint_positive)
  qed
qed


section \<open>Messages are printed whole\<close>

lemma skip_z_nz: "c \<noteq> CHR ''z'' \<Longrightarrow> skip_z b (c # cs) = (b, c # cs)"
  by simp

text \<open>One conversion that cannot be undefined, on any descriptor.\<close>

lemma directive_d: "\<exists>fd'. directive pid False CHR ''d'' (Int_Arg e # va) fd = Some (va, fd')"
  by (simp add: directive_def next_long_def write_signed_spec)

lemma directive_P: "\<exists>fd'. directive pid b CHR ''P'' va fd = Some (va, fd')"
  by (simp add: directive_def write_signed_spec)

lemma directive_s: "\<exists>fd'. directive pid b CHR ''s'' (Text_Arg t # va) fd = Some (va, fd')"
  by (cases t) (simp_all add: directive_def)

text \<open>The text of a format up to a conversion.\<close>

lemma vprintf_text:
  assumes "list_all (\<lambda>c. c \<noteq> CHR ''%'') t"
  shows "mi_vprintf pid t va fd = Some (put_text t fd)"
proof -
  have "dropWhile (\<lambda>c. c \<noteq> CHR ''%'') t = []" using assms by (simp add: list_all_iff)
  then show ?thesis by (subst mi_vprintf.simps) (simp only: list.case put_text_def)
qed

lemma vprintf_step:
  assumes t: "list_all (\<lambda>c. c \<noteq> CHR ''%'') t" and c: "c \<noteq> CHR ''z''"
    and "directive pid False c va (put_text t fd) = Some (va', fd')"
  shows "mi_vprintf pid (t @ CHR ''%'' # c # cs) va fd = mi_vprintf pid cs va' fd'"
proof -
  have d: "dropWhile (\<lambda>c. c \<noteq> CHR ''%'') (t @ CHR ''%'' # c # cs) = CHR ''%'' # c # cs"
    and k: "takeWhile (\<lambda>c. c \<noteq> CHR ''%'') (t @ CHR ''%'' # c # cs) = t"
    using t by (simp_all add: list_all_iff)
  have z: "skip_z False (c # cs) = (False, c # cs)" using c by simp
  show ?thesis using assms(3)
    by (subst mi_vprintf.simps) (simp only: d k z list.case Let_def fst_conv snd_conv put_text_def [symmetric] Option.bind_lunit)
qed

lemma mi_debug_prefix:
  "mi_debug pid tty format va fd =
     mi_vprintf pid format va
       (put_text ''): '' (the (write_signed (scast pid) 10 (put_text ''memintercept ('' (if fd = None then tty else fd)))))"
proof -
  let ?fd = "put_text ''memintercept ('' (if fd = None then tty else fd)" and ?n = "scast pid :: 64 word"
  obtain fd' where "write_signed ?n 10 ?fd = Some fd'" by (simp add: write_signed_spec)
  then have "directive pid False CHR ''P'' [] ?fd = Some ([], the (write_signed ?n 10 ?fd))"
    by (simp add: directive_def split del: if_split)
  from vprintf_step [OF _ _ this, where cs = "''): ''"] vprintf_text [of "''): ''" pid "[]"]
  have "mi_printf pid (if fd = None then tty else fd) ''memintercept (%P): '' [] =
      Some (put_text ''): '' (the (write_signed ?n 10 ?fd)))" by (simp add: mi_printf_def)
  then show ?thesis by (simp add: mi_debug_def)
qed

lemma mi_debug_number:
  assumes "list_all (\<lambda>c. c \<noteq> CHR ''%'') t"
  shows "\<exists>d. mi_debug pid tty (t @ CHR ''%'' # CHR ''d'' # [CHR 0x0A]) [Int_Arg e] fd = Some d"
proof -
  let ?fd = "put_text ''): '' (the (write_signed (scast pid) 10 (put_text ''memintercept ('' (if fd = None then tty else fd))))"
  obtain fd' where "directive pid False CHR ''d'' [Int_Arg e] (put_text t ?fd) = Some ([], fd')"
    using directive_d [of pid e "[]" "put_text t ?fd"] by blast
  from vprintf_step [OF assms _ this, where cs = "[CHR 0x0A]"] vprintf_text [of "[CHR 0x0A]" pid "[]" fd']
  show ?thesis by (simp add: mi_debug_prefix)
qed

lemma mi_write_spec:
  "\<exists>ok s' d'. mi_write pid tty buf (s, d) = Some (ok, s', d') \<and>
     (\<exists>out. sent s' = sent s @ out \<and> prefix out buf \<and> (ok \<longleftrightarrow> out = buf))"
proof -
  obtain res s' where w: "write_stream buf s = (res, s')" by (cases "write_stream buf s") auto
  have out: "\<exists>out. sent s' = sent s @ out \<and> prefix out buf \<and> (res = All_Written \<longleftrightarrow> out = buf)"
    using write_stream_spec [of buf s] w by simp
  show ?thesis
  proof (cases res)
    case (Error_No e)
    obtain d' where "mi_debug pid tty (''mi_write error %d'' @ [CHR 0x0A]) [Int_Arg e] d = Some d'"
      using mi_debug_number [of "''mi_write error ''" pid tty e d] by auto
    with w out Error_No show ?thesis by (auto simp: mi_write_def)
  qed (use w out in \<open>auto simp: mi_write_def\<close>)
qed

lemma mi_write_all:
  assumes "never_fails (outcomes s)"
  shows "\<exists>rs. mi_write pid tty buf (s, d) = Some (True, s\<lparr>outcomes := rs, sent := sent s @ buf\<rparr>, d) \<and> never_fails rs"
  using write_stream_all [OF assms, of buf] by (auto simp: mi_write_def)

lemma mi_atomic_simps [simp]:
  "mi_atomic_increment m = (m + 1, m + 1)" "mi_atomic_decrement m = (m - 1, m - 1)"
  by (simp_all add: mi_atomic_increment_def mi_atomic_decrement_def xadd_def)

text \<open>A message about an error is never undefined.\<close>

lemma mi_perror_total: "\<exists>d. mi_perror pid tty err e m fd = Some d"
proof -
  let ?e = "Text_Arg (Some (err e))"
  have tail: "\<exists>d. mi_vprintf pid (''%s (%d)'' @ [CHR 0x0A]) [?e, Int_Arg e] fd = Some d" for fd
  proof -
    obtain fd1 where 1: "directive pid False CHR ''s'' [?e, Int_Arg e] (put_text [] fd) = Some ([Int_Arg e], fd1)"
      using directive_s by blast
    obtain fd2 where 2: "directive pid False CHR ''d'' [Int_Arg e] (put_text '' ('' fd1) = Some ([], fd2)"
      using directive_d by blast
    from vprintf_step [OF _ _ 1, where cs = "'' (%d)'' @ [CHR 0x0A]"] vprintf_step [OF _ _ 2, where cs = "'')'' @ [CHR 0x0A]"]
      vprintf_text [of "'')'' @ [CHR 0x0A]" pid "[]" fd2]
    show ?thesis by simp
  qed
  have "\<exists>d. mi_vprintf pid (''%s: %s (%d)'' @ [CHR 0x0A]) [Text_Arg m, ?e, Int_Arg e] fd = Some d" for m fd
  proof -
    obtain fd1 where 1: "directive pid False CHR ''s'' [Text_Arg m, ?e, Int_Arg e] (put_text [] fd) = Some ([?e, Int_Arg e], fd1)"
      using directive_s by blast
    obtain fd2 where 2: "directive pid False CHR ''s'' [?e, Int_Arg e] (put_text '': '' fd1) = Some ([Int_Arg e], fd2)"
      using directive_s by blast
    obtain fd3 where 3: "directive pid False CHR ''d'' [Int_Arg e] (put_text '' ('' fd2) = Some ([], fd3)"
      using directive_d by blast
    from vprintf_step [OF _ _ 1, where cs = "'': %s (%d)'' @ [CHR 0x0A]"] vprintf_step [OF _ _ 2, where cs = "'' (%d)'' @ [CHR 0x0A]"]
      vprintf_step [OF _ _ 3, where cs = "'')'' @ [CHR 0x0A]"] vprintf_text [of "'')'' @ [CHR 0x0A]" pid "[]" fd3]
    show ?thesis by simp
  qed
  with tail show ?thesis by (auto simp: mi_perror_def mi_debug_prefix split: option.splits list.splits)
qed

section \<open>Properties\<close>

text \<open>
  Writing a message always returns, whatever the connection does, and what has been
  sent is a beginning of the message; the result is true exactly if all of it was sent.
\<close>

theorem mi_write_correct:
  "\<exists>ok s' d' out. mi_write pid tty buf (s, d) = Some (ok, s', d') \<and> sent s' = sent s @ out \<and>
     prefix out buf \<and> (ok = (out = buf))"
  using mi_write_spec [of pid tty buf s d] by blast



end
