(* ===== verification/Wire_Inv.thy ===== *)
theory Wire_Inv
  imports Wire
begin

text \<open>
  A message that is received whole is the message that was sent: the fields of each variant come
  back from the bytes, the frames from theirs.
\<close>

lemma length_le_bytes [simp]: "length (le_bytes n w) = n"
  by (simp add: le_bytes_def)

lemma bit_of_le:
  "bit (of_le bs :: 'a::len word) i \<longleftrightarrow> i < LENGTH('a) \<and> i div 8 < length bs \<and> bit (bs ! (i div 8)) (i mod 8)"
proof (induction bs arbitrary: i)
  case Nil
  then show ?case by simp
next
  case (Cons b bs)
  show ?case
  proof (cases "i < 8")
    case True
    then show ?thesis by (auto simp: bit_or_iff bit_push_bit_iff bit_ucast_iff)
  next
    case False
    then obtain k where i: "i = k + 8" using le_Suc_ex by (metis add.commute not_less)
    have "\<not> bit b i" using False bit_imp_le_length [of b i] by auto
    then have "bit (of_le (b # bs) :: 'a word) i \<longleftrightarrow> i < LENGTH('a) \<and> bit (of_le bs :: 'a word) k"
      by (simp add: bit_or_iff bit_push_bit_iff bit_ucast_iff i)
    moreover have "i div 8 = Suc (k div 8)" "i mod 8 = k mod 8" by (simp_all add: i)
    ultimately show ?thesis unfolding Cons by (auto simp del: of_le.simps)
  qed
qed

lemma of_le_bytes:
  assumes "LENGTH('a) \<le> 8 * n"
  shows "of_le (le_bytes n w) = (w :: 'a::len word)"
proof (rule bit_word_eqI)
  fix i
  assume i: "i < LENGTH('a)"
  then have "i div 8 < n" using assms by (simp add: less_mult_imp_div_less mult.commute)
  then show "bit (of_le (le_bytes n w) :: 'a word) i = bit w i"
    using i by (simp add: bit_of_le le_bytes_def bit_ucast_iff bit_drop_bit_eq)
qed

lemma field_here: "LENGTH('a) \<le> 8 * n \<Longrightarrow> field 0 n (le_bytes n w @ bs) = (w :: 'a::len word)"
  by (simp add: field_def of_le_bytes)

lemma field_skip: "length as \<le> k \<Longrightarrow> field k n (as @ bs) = field (k - length as) n bs"
  by (simp add: field_def)

lemma op_of_code: "op_of (unat (op_code op)) operations = Some op"
  by (cases op) (simp_all add: op_code_def operations_def)

lemmas wire_defs = wire_any_def wire_alloc_def wire_fork_def

lemma length_wire_alloc [simp]: "length (wire_alloc info) = 48"
  by (simp add: wire_defs)

lemma length_wire_fork [simp]: "length (wire_fork info) = 48"
  by (simp add: wire_defs)

lemma field_any:
  "field 0 4 (wire_any info @ bs) = op_code (operation info)"
  "field 4 4 (wire_any info @ bs) = i_pid info"
  "field 8 4 (wire_any info @ bs) = i_seqno info"
  by (simp_all add: wire_any_def field_here field_skip)

lemma wire_alloc_fields:
  "field 16 8 (wire_alloc info @ bs) = old_ptr info" "field 24 8 (wire_alloc info @ bs) = new_ptr info"
  "field 32 8 (wire_alloc info @ bs) = i_size info" "field 40 4 (wire_alloc info @ bs) = stack_size info"
  by (simp_all add: wire_defs field_here field_skip)

lemma wire_alloc_any: "wire_alloc info @ bs = wire_any info @ drop 12 (wire_alloc info @ bs)"
  by (simp add: wire_alloc_def wire_any_def)

lemma wire_fork_any: "wire_fork info @ bs = wire_any info @ drop 12 (wire_fork info @ bs)"
  by (simp add: wire_fork_def wire_any_def)

lemma read_alloc_spec: "read_alloc (wire_alloc info @ bs) = Some (info\<lparr>new_pid := 0\<rparr>)"
  using field_any [of info "drop 12 (wire_alloc info @ bs)", folded wire_alloc_any]
  by (simp add: read_alloc_def op_of_code wire_alloc_fields)

lemma read_fork_spec:
  "read_fork (wire_fork info @ bs) =
     Some (info\<lparr>old_ptr := 0, new_ptr := 0, i_size := 0, stack_size := 0\<rparr>)"
proof -
  have "field 12 4 (wire_fork info @ bs) = new_pid info"
    by (simp add: wire_defs field_here field_skip)
  then show ?thesis
    using field_any [of info "drop 12 (wire_fork info @ bs)", folded wire_fork_any]
    by (simp add: read_fork_def op_of_code)
qed

lemma read_frames_spec: "read_frames (length frames) (wire_frames frames @ bs) = frames"
  by (induction frames) (simp_all add: wire_frames_def field_here)

lemma length_wire_frames [simp]: "length (wire_frames frames) = 8 * length frames"
  by (induction frames) (simp_all add: wire_frames_def)

text \<open>
  The profiler gets back what the library sent. The record in the union, read as the
  variant it was written as, and then as many frames as the record says, are those of the message,
  whatever bytes follow them on the connection.
\<close>

theorem message_roundtrip:
  assumes "stack_size info = word_of_int (int (length frames))" and "length frames \<le> 20000"
  shows "\<exists>m. read_alloc (wire_alloc info @ wire_frames frames @ bs) = Some m \<and>
    m = info\<lparr>new_pid := 0\<rparr> \<and>
    read_frames (unat (stack_size m)) (drop 48 (wire_alloc info @ wire_frames frames @ bs)) = frames"
proof -
  have "unat (stack_size info) = length frames"
    using assms by (simp add: unat_of_nat take_bit_nat_eq_self)
  then show ?thesis by (simp add: read_alloc_spec read_frames_spec)
qed

theorem message_roundtrip_witness:
  "\<exists>m. read_alloc (wire_alloc (zero_info\<lparr>operation := MI_FREE, old_ptr := 4096, stack_size := 2\<rparr>) @
      wire_frames [0x400123, 2 ^ 64 - 1] @ [7]) = Some m \<and>
    m = zero_info\<lparr>operation := MI_FREE, old_ptr := 4096, stack_size := 2, new_pid := 0\<rparr> \<and>
    read_frames (unat (stack_size m)) (drop 48 (wire_alloc (zero_info\<lparr>operation := MI_FREE, old_ptr := 4096, stack_size := 2\<rparr>) @
      wire_frames [0x400123, 2 ^ 64 - 1] @ [7])) = [0x400123, 2 ^ 64 - 1]"
  using message_roundtrip [of "zero_info\<lparr>operation := MI_FREE, old_ptr := 4096, stack_size := 2\<rparr>" "[0x400123, 2 ^ 64 - 1]" "[7]"]
  by simp

end
