(* ===== verification/Stack_Frame_Inv.thy ===== *)
theory Stack_Frame_Inv
  imports Stack_Frame
begin

text \<open>
  The buffer of \<open>mi_call_with_backtrace\<close> grows until the whole call stack fits; the walk of the
  signal handler collects the return addresses of a chain of frames and stays inside its array.
\<close>

section \<open>The C library's back trace\<close>

lemma backtrace_loop_spec:
  "0 < n \<Longrightarrow> backtrace_loop guard frames n = Some (if guard = 0 then frames else [])"
proof (induction "length frames + 1 - n" arbitrary: n rule: less_induct)
  case less
  show ?case
  proof (cases "guard = 0 \<and> n \<le> length frames")
    case True
    have "Suc (length frames) - n * 2 < Suc (length frames) - n" using True less(2) by linarith
    then have "backtrace_loop guard frames (n * 2) = Some frames" using less(1) [of "n * 2"] less(2) True by simp
    moreover have "length (backtrace frames n) = n" using True by (simp add: backtrace_def)
    ultimately show ?thesis using True by (subst backtrace_loop.simps) simp
  next
    case False
    with less(2) show ?thesis by (subst backtrace_loop.simps) (auto simp: backtrace_def min_def)
  qed
qed

section \<open>The walk of the signal handler\<close>

text \<open>The frames from \<open>frame\<close> on have the return addresses \<open>rets\<close> and end below the bound.\<close>

inductive frame_chain :: "(ptr \<Rightarrow> (ptr \<times> ptr) option) \<Rightarrow> ptr \<Rightarrow> ptr \<Rightarrow> ptr list \<Rightarrow> bool" where
  Chain_End: "frame \<le> bound \<Longrightarrow> frame_chain mem bound frame []"
| Chain_Frame: "frame > bound \<Longrightarrow> mem frame = Some (next_frame, ret) \<Longrightarrow> frame_chain mem bound next_frame rets \<Longrightarrow>
    frame_chain mem bound frame (ret # rets)"

lemma signal_frames_spec:
  "frame_chain mem bound frame rets \<Longrightarrow> 0 < n \<Longrightarrow> length frames \<le> n \<Longrightarrow>
    signal_frames mem bound frame n frames = Some (frames @ rets)"
proof (induction arbitrary: n frames rule: frame_chain.induct)
  case (Chain_End frame bound mem)
  then have "\<not> frame > bound" by simp
  then show ?case by (subst signal_frames.simps) (simp only: if_False append_Nil2)
next
  case (Chain_Frame frame bound mem next_frame ret rets)
  let ?n = "if length frames = n then n * 2 else n"
  have "signal_frames mem bound next_frame ?n (frames @ [ret]) = Some ((frames @ [ret]) @ rets)"
    using Chain_Frame.prems by (intro Chain_Frame.IH) auto
  moreover have "length frames < ?n" using Chain_Frame.prems by simp
  ultimately show ?case using Chain_Frame.hyps by (subst signal_frames.simps) (simp add: Let_def split del: if_split)
qed

text \<open>
  Whatever the walk returns, it has followed such a chain; a chain that never leaves the stack
  gives no result.
\<close>

lemma signal_frames_chain:
  assumes "signal_frames mem bound frame n frames = Some fs"
  shows "\<exists>rets. frame_chain mem bound frame rets \<and> fs = frames @ rets"
  using assms
proof (induction rule: signal_frames.raw_induct [rotated 1, consumes 1])
  case (1 walk mem bound frame n frames fs)
  show ?case
  proof (cases "frame > bound")
    case True
    then obtain next_frame ret where m: "mem frame = Some (next_frame, ret)" using 1(2) by (cases "mem frame") auto
    with True 1(2) have "walk mem bound next_frame (if length frames = n then n * 2 else n) (frames @ [ret]) = Some fs"
      by (auto simp: Let_def split: if_splits)
    from 1(1) [OF this] obtain rets where "frame_chain mem bound next_frame rets" "fs = (frames @ [ret]) @ rets" by blast
    with True m show ?thesis by (auto intro: frame_chain.Chain_Frame)
  next
    case False
    with 1(2) show ?thesis by (auto intro: frame_chain.Chain_End)
  qed
qed

text \<open>The walk without \<open>backtrace\<close> is the one of the signal handler with the bound zero.\<close>

lemma call_frames_signal: "call_frames mem frame n frames = signal_frames mem 0 frame n frames"
proof -
  have "signal_frames mem 0 frame n frames = Some fs" if "call_frames mem frame n frames = Some fs" for fs
    using that
  proof (induction rule: call_frames.raw_induct [rotated 1, consumes 1])
    case (1 walk mem frame n frames fs)
    then show ?case
      by (subst signal_frames.simps) (auto simp: word_neq_0_conv Let_def split: option.splits if_splits)
  qed
  moreover have "call_frames mem frame n frames = Some fs" if "signal_frames mem b frame n frames = Some fs" "b = 0" for b fs
    using that
  proof (induction rule: signal_frames.raw_induct [rotated 1, consumes 1])
    case (1 walk mem b frame n frames fs)
    then show ?case
      by (subst call_frames.simps) (auto simp: word_neq_0_conv Let_def split: option.splits if_splits)
  qed
  ultimately show ?thesis
    by (cases "call_frames mem frame n frames"; cases "signal_frames mem 0 frame n frames") auto
qed

lemma call_frames_complete:
  "mi_call_with_frames mem frame k = Some r \<longleftrightarrow>
     (\<exists>rets. frame_chain mem 0 frame rets \<and> r = (int (length rets) - int k, drop k rets))"
proof
  assume "mi_call_with_frames mem frame k = Some r"
  then obtain fs where fs: "signal_frames mem 0 frame 64 [] = Some fs" "r = (int (length fs) - int k, drop k fs)"
    by (auto simp: mi_call_with_frames_def call_frames_signal)
  from signal_frames_chain [OF fs(1)] fs(2) show "\<exists>rets. frame_chain mem 0 frame rets \<and> r = (int (length rets) - int k, drop k rets)"
    by auto
next
  assume "\<exists>rets. frame_chain mem 0 frame rets \<and> r = (int (length rets) - int k, drop k rets)"
  then show "mi_call_with_frames mem frame k = Some r"
    using signal_frames_spec [of mem 0 frame _ 64 "[]"] by (auto simp: mi_call_with_frames_def call_frames_signal)
qed

text \<open>
  The stack trace of an allocation is complete. The loop that doubles its buffer ends
  for every call stack, however deep, and the callback gets every frame but the ones to skip, or
  no frame at all when \<open>backtrace\<close> itself allocates.
\<close>

theorem backtrace_complete:
  "mi_call_with_backtrace guard frames to_skip =
     Some (if guard = 0 then (int (length frames) - int to_skip, drop to_skip frames) else (- int to_skip, []))"
  by (simp add: mi_call_with_backtrace_def backtrace_loop_spec)

text \<open>
  Property C36: the signal handler's walk never writes outside its array of frames, which grows
  when it is full: it returns exactly when the saved frame pointers lead below the bound of the
  stack, and then with the interrupted address and every return address on the way.
\<close>

theorem signal_backtrace_exact:
  "mi_call_with_signal_backtrace mem address frame bound = Some (n, fs) \<longleftrightarrow>
     (\<exists>rets. frame_chain mem bound frame rets \<and> fs = address # rets \<and> n = int (length fs))"
proof
  assume "mi_call_with_signal_backtrace mem address frame bound = Some (n, fs)"
  then show "\<exists>rets. frame_chain mem bound frame rets \<and> fs = address # rets \<and> n = int (length fs)"
    using signal_frames_chain [of mem bound frame 64 "[address]" fs]
    by (auto simp: mi_call_with_signal_backtrace_def)
next
  assume "\<exists>rets. frame_chain mem bound frame rets \<and> fs = address # rets \<and> n = int (length fs)"
  then show "mi_call_with_signal_backtrace mem address frame bound = Some (n, fs)"
    using signal_frames_spec [of mem bound frame _ 64 "[address]"]
    by (auto simp: mi_call_with_signal_backtrace_def)
qed

end
