(* ===== verification/Library_Inv.thy ===== *)
theory Library_Inv
  imports Memintercept Mi_Utils_Inv Wire_Inv Stack_Frame_Inv
begin

text \<open>
  What the preloaded library sends. For a thread whose connection takes what it is given, every
  intercepted call that has a stack trace sends one message, whole and under the next number, and
  the others send nothing.
\<close>

section \<open>Running the library\<close>

lemma lbind_simps [simp]:
  "lbind (lret x) f = f x" "lbind (lget g) f s = f (g s) s" "lbind (lmod h) k s = k () (h s)"
  "lbind (lend e) f' = lend e" "lwhen True m = m" "lwhen False m = lret ()"
  by (auto simp: lbind_def lret_def lget_def lmod_def lend_def lwhen_def)

lemma lbind_Inr [simp]: "m s = Some (Inr (x, s')) \<Longrightarrow> lbind m f s = f x s'"
  by (simp add: lbind_def)

lemma lib_results [simp]:
  "lret x s = Some (Inr (x, s))" "lget g s = Some (Inr (g s, s))" "lmod h s = Some (Inr ((), h s))"
  "lend e s = Some (Inl (e, s))"
  by (simp_all add: lret_def lget_def lmod_def lend_def)

text \<open>What has been sent on a descriptor, and a thread whose messages get through.\<close>

definition sent_on :: "lib_state \<Rightarrow> nat \<Rightarrow> byte list" where
  "sent_on s fd = (case l_conns s fd of None \<Rightarrow> [] | Some c \<Rightarrow> sent (cn_stream c))"

definition works :: "lib_state \<Rightarrow> nat \<Rightarrow> bool" where
  "works s fd \<longleftrightarrow> (\<exists>c. l_conns s fd = Some c \<and> never_fails (outcomes (cn_stream c)))"

definition traced :: "lib_state \<Rightarrow> nat \<Rightarrow> bool" where
  "traced s t \<longleftrightarrow> 0 < l_initialized s \<and> l_socket_path s \<noteq> None \<and> l_tracing s \<and>
     ti_clone_pid (l_threads s t) = 0 \<and> works s (ti_outfd (l_threads s t))"

text \<open>
  From \<open>s\<close> to \<open>s'\<close> the library has used \<open>k\<close> numbers and sent \<open>out fd\<close> on each descriptor; all
  else that decides its behaviour is as before.
\<close>

definition advances :: "nat \<Rightarrow> (nat \<Rightarrow> byte list) \<Rightarrow> lib_state \<Rightarrow> lib_state \<Rightarrow> bool" where
  "advances k out s s' \<longleftrightarrow> l_seqno s' = l_seqno s + of_nat k \<and> l_threads s' = l_threads s \<and>
     l_initialized s' = l_initialized s \<and> l_socket_path s' = l_socket_path s \<and> l_tracing s' = l_tracing s \<and>
     (\<forall>fd. works s fd \<longrightarrow> works s' fd) \<and> (\<forall>fd. sent_on s' fd = sent_on s fd @ out fd)"

lemma advances_refl: "advances 0 (\<lambda>fd. []) s s"
  by (simp add: advances_def)

lemma advances_trans:
  "advances k f s s' \<Longrightarrow> advances l g s' s'' \<Longrightarrow> advances (k + l) (\<lambda>fd. f fd @ g fd) s s''"
  by (simp add: advances_def add.assoc)

lemma advances_traced: "advances k f s s' \<Longrightarrow> traced s t \<Longrightarrow> traced s' t"
  by (simp add: advances_def traced_def)

section \<open>Sending\<close>

lemma lib_write_spec:
  assumes "works s fd"
  shows "\<exists>s'. lib_write env fd buf s = Some (Inr (True, s')) \<and>
    advances 0 (\<lambda>g. if g = fd then buf else []) s s'"
proof -
  obtain c where c: "l_conns s fd = Some c" "never_fails (outcomes (cn_stream c))" using assms by (auto simp: works_def)
  from mi_write_all [OF c(2)] obtain rs where
    w: "mi_write (le_pid env) (le_tty env) buf (cn_stream c, l_debug s) =
      Some (True, (cn_stream c)\<lparr>outcomes := rs, sent := sent (cn_stream c) @ buf\<rparr>, l_debug s)" "never_fails rs" by blast
  show ?thesis using c w by (auto simp: lib_write_def advances_def works_def sent_on_def split: option.splits)
qed

lemma find_thread_spec: "traced s t \<Longrightarrow> find_thread env t s = Some (Inr (l_threads s t, s))"
  by (simp add: find_thread_def traced_def)

definition numbered_info :: "lib_env \<Rightarrow> u32 \<Rightarrow> nat \<Rightarrow> mi_info \<Rightarrow> mi_info" where
  "numbered_info env n k info = info\<lparr>stack_size := of_nat k, i_pid := le_pid env, i_seqno := n\<rparr>"

text \<open>A message with its stack goes out whole, under the next number.\<close>

lemma mi_write_stack_spec:
  assumes t: "traced s t" and n: "length frames \<le> 20000"
  shows "\<exists>s'. mi_write_stack env t (int (length frames)) frames info s = Some (Inr ((), s')) \<and>
    advances 1 (\<lambda>fd. if fd = ti_outfd (l_threads s t)
        then wire_alloc (numbered_info env (l_seqno s) (length frames) info) @ wire_frames frames else []) s s'"
proof -
  let ?s = "s\<lparr>l_seqno := l_seqno s + 1\<rparr>" and ?fd = "ti_outfd (l_threads s t)"
  let ?info = "numbered_info env (l_seqno s) (length frames) info"
  have a0: "advances 1 (\<lambda>fd. []) s ?s" by (simp add: advances_def works_def sent_on_def)
  then have t1: "traced ?s t" using t by (rule advances_traced)
  then have "works ?s ?fd" by (simp add: traced_def)
  from lib_write_spec [OF this] obtain s1 where
    w1: "lib_write env ?fd (wire_alloc ?info) ?s = Some (Inr (True, s1))"
      "advances 0 (\<lambda>g. if g = ?fd then wire_alloc ?info else []) ?s s1" by blast
  have "works s1 ?fd" using w1(2) \<open>works ?s ?fd\<close> by (simp add: advances_def)
  from lib_write_spec [OF this] obtain s2 where
    w2: "lib_write env ?fd (wire_frames frames) s1 = Some (Inr (True, s2))"
      "advances 0 (\<lambda>g. if g = ?fd then wire_frames frames else []) s1 s2" by blast
  have n1: "next_seqno s = Some (Inr (l_seqno s, ?s))" by (simp add: next_seqno_def)
  have i: "info\<lparr>stack_size := word_of_int (int (length frames)), i_pid := le_pid env, i_seqno := l_seqno s\<rparr> = ?info"
    by (simp add: numbered_info_def)
  have "mi_write_stack env t (int (length frames)) frames info s = Some (Inr ((), s2))"
    using n w1(1) w2(1) find_thread_spec [OF t1]
    by (simp add: mi_write_stack_def lbind_Inr [where m = next_seqno, OF n1] i [simplified] Let_def)
  moreover have "advances 1 (\<lambda>fd. if fd = ?fd then wire_alloc ?info @ wire_frames frames else []) s s2"
    using advances_trans [OF a0 advances_trans [OF w1(2) w2(2)]] by (simp add: advances_def)
  ultimately show ?thesis by blast
qed

text \<open>A stack that is empty after skipping too much, or far too long, is neither numbered nor sent.\<close>

lemma mi_write_stack_elided: "n < 0 \<or> 20000 < n \<Longrightarrow> mi_write_stack env t n frames info s = Some (Inr ((), s))"
  by (auto simp: mi_write_stack_def)

section \<open>The intercepted calls\<close>

text \<open>
  A call of the program with what the function behind it returns (the number of objects and
  their size for \<open>calloc\<close>).
\<close>

datatype mem_call = Malloc "64 word" ptr | Calloc "64 word" "64 word" ptr | Memalign "64 word" "64 word" ptr
  | Realloc ptr "64 word" ptr | Free ptr

fun perform :: "lib_env \<Rightarrow> caller \<Rightarrow> mem_call \<Rightarrow> unit lib" where
  "perform env cl (Malloc n r) = lbind (lib_malloc env cl (\<lambda>_. r) n) (\<lambda>_. lret ())"
| "perform env cl (Calloc k n r) = lbind (lib_calloc env cl (\<lambda>_. r) k n) (\<lambda>_. lret ())"
| "perform env cl (Memalign b n r) = lbind (lib_memalign env cl (\<lambda>_ _. r) b n) (\<lambda>_. lret ())"
| "perform env cl (Realloc p n r) = lbind (lib_realloc env cl (\<lambda>_ _. r) p n) (\<lambda>_. lret ())"
| "perform env cl (Free p) = lib_free env cl p"

text \<open>The size \<open>calloc\<close> asks for.\<close>

definition calloc_total :: "64 word \<Rightarrow> 64 word \<Rightarrow> 64 word" where
  "calloc_total k n = scast (ucast (k * n) :: u32)"

fun call_info :: "mem_call \<Rightarrow> mi_info" where
  "call_info (Malloc n r) = trace_info MI_MALLOC 0 r n"
| "call_info (Calloc k n r) = trace_info MI_MALLOC 0 r (calloc_total k n)"
| "call_info (Memalign b n r) = trace_info MI_MALLOC 0 r n"
| "call_info (Realloc p n r) = trace_info MI_REALLOC p r n"
| "call_info (Free p) = trace_info MI_FREE p 0 0"

fun own_frames :: "mem_call \<Rightarrow> nat" where
  "own_frames (Calloc k n r) = 3"
| "own_frames c = 2"

text \<open>A call whose stack trace is not elided.\<close>

definition seen :: "caller \<times> mem_call \<Rightarrow> bool" where
  "seen cc \<longleftrightarrow> ca_guard (fst cc) = 0 \<and> own_frames (snd cc) \<le> length (ca_frames (fst cc)) \<and>
     length (ca_frames (fst cc)) \<le> 20000 + own_frames (snd cc)"

definition call_frames :: "caller \<times> mem_call \<Rightarrow> ptr list" where
  "call_frames cc = drop (own_frames (snd cc)) (ca_frames (fst cc))"

definition message_bytes :: "mi_info \<times> ptr list \<Rightarrow> byte list" where
  "message_bytes m = wire_alloc (fst m) @ wire_frames (snd m)"

lemma report_eq:
  assumes "traced s (ca_thread cl)"
  shows "report env cl k info s =
    (if ca_guard cl = 0
     then mi_write_stack env (ca_thread cl) (int (length (ca_frames cl)) - int k) (drop k (ca_frames cl)) info s
     else mi_write_stack env (ca_thread cl) (- int k) [] info s)"
  using assms by (simp add: report_def mi_tracing_def traced_def mi_call_with_backtrace_def backtrace_loop_spec)

lemma check_init_traced: "traced s t \<Longrightarrow> mi_check_init env t s = Some (Inr (True, s))"
  by (auto simp: mi_check_init_def traced_def)

lemma perform_report:
  assumes ok: "mi_check_init env (ca_thread cl) s = Some (Inr (True, s))"
    and r: "report env cl (own_frames c) (call_info c) s = Some (Inr ((), s'))"
  shows "perform env cl c s = Some (Inr ((), s'))"
proof -
  note ci = lbind_Inr [where m = "mi_check_init env (ca_thread cl)", OF ok]
  note rep = lbind_Inr [where m = "report env cl (own_frames c) (call_info c)", OF r]
  show ?thesis
  proof (cases c)
    case (Malloc n r)
    then have "do_malloc env cl (\<lambda>_. r) n 1 s = Some (Inr (r, s'))"
      using rep [of "\<lambda>_. lret r"] by (simp add: do_malloc_def ci numeral_2_eq_2)
    with Malloc show ?thesis by (simp add: lib_malloc_def)
  next
    case (Calloc k n r)
    then have "do_malloc env cl (\<lambda>_. r) (calloc_total k n) 2 s = Some (Inr (r, s'))"
      using rep [of "\<lambda>_. lret r"] by (simp add: do_malloc_def ci numeral_3_eq_3)
    with Calloc show ?thesis by (simp add: lib_calloc_def do_calloc_def calloc_total_def Let_def lbind_def)
  next
    case (Memalign b n r)
    then have "do_memalign env cl (\<lambda>_ _. r) b n s = Some (Inr (r, s'))"
      using rep [of "\<lambda>_. lret r"] by (simp add: do_memalign_def ci)
    with Memalign show ?thesis by (simp add: lib_memalign_def)
  next
    case (Realloc p n r)
    then have "do_realloc env cl (\<lambda>_ _. r) p n s = Some (Inr (r, s'))"
      using rep [of "\<lambda>_. lret r"] by (simp add: do_realloc_def ci)
    with Realloc show ?thesis by (simp add: lib_realloc_def)
  next
    case (Free p)
    with r show ?thesis by (simp add: lib_free_def do_free_def ci)
  qed
qed

lemma perform_seen:
  fixes env
  assumes t: "traced s (ca_thread cl)" and "seen (cl, c)"
  defines "m \<equiv> (numbered_info env (l_seqno s) (length (call_frames (cl, c))) (call_info c), call_frames (cl, c))"
  shows "\<exists>s'. perform env cl c s = Some (Inr ((), s')) \<and>
    advances 1 (\<lambda>fd. if fd = ti_outfd (l_threads s (ca_thread cl)) then message_bytes m else []) s s'"
proof -
  have len: "int (length (ca_frames cl)) - int (own_frames c) = int (length (call_frames (cl, c)))"
    "length (call_frames (cl, c)) \<le> 20000" "ca_guard cl = 0"
    using assms(2) by (auto simp: seen_def call_frames_def)
  have "report env cl (own_frames c) (call_info c) s =
      mi_write_stack env (ca_thread cl) (int (length (call_frames (cl, c)))) (call_frames (cl, c)) (call_info c) s"
    by (simp only: report_eq [OF t] len if_True) (simp add: call_frames_def)
  with mi_write_stack_spec [OF t len(2), of env "call_info c"] obtain s' where
    "report env cl (own_frames c) (call_info c) s = Some (Inr ((), s'))"
    "advances 1 (\<lambda>fd. if fd = ti_outfd (l_threads s (ca_thread cl)) then message_bytes m else []) s s'"
    unfolding m_def message_bytes_def fst_conv snd_conv by metis
  then show ?thesis using perform_report [OF check_init_traced [OF t]] by blast
qed

lemma perform_unseen:
  assumes t: "traced s (ca_thread cl)" and "\<not> seen (cl, c)"
  shows "perform env cl c s = Some (Inr ((), s))"
proof (rule perform_report [OF check_init_traced [OF t]])
  have "0 < own_frames c" by (cases c) auto
  then show "report env cl (own_frames c) (call_info c) s = Some (Inr ((), s))"
    using assms(2) by (auto simp: report_eq [OF t] seen_def mi_write_stack_elided)
qed

section \<open>A run of the program\<close>

fun run_calls :: "lib_env \<Rightarrow> (caller \<times> mem_call) list \<Rightarrow> unit lib" where
  "run_calls env [] = lret ()"
| "run_calls env (cc # ccs) = lbind (perform env (fst cc) (snd cc)) (\<lambda>_. run_calls env ccs)"

text \<open>The messages, each with the thread that sends it.\<close>

fun messages :: "lib_env \<Rightarrow> u32 \<Rightarrow> (caller \<times> mem_call) list \<Rightarrow> (nat \<times> mi_info \<times> ptr list) list" where
  "messages env n [] = []"
| "messages env n (cc # ccs) =
     (if seen cc
      then (ca_thread (fst cc), numbered_info env n (length (call_frames cc)) (call_info (snd cc)), call_frames cc) #
        messages env (n + 1) ccs
      else messages env n ccs)"

definition bytes_on :: "(nat \<Rightarrow> thread_info) \<Rightarrow> (nat \<times> mi_info \<times> ptr list) list \<Rightarrow> nat \<Rightarrow> byte list" where
  "bytes_on th ms fd = concat (map (message_bytes \<circ> snd) (filter (\<lambda>m. ti_outfd (th (fst m)) = fd) ms))"

lemma run_calls_spec:
  "list_all (\<lambda>cc. traced s (ca_thread (fst cc))) ccs \<Longrightarrow>
   \<exists>s'. run_calls env ccs s = Some (Inr ((), s')) \<and>
     advances (length (messages env (l_seqno s) ccs)) (bytes_on (l_threads s) (messages env (l_seqno s) ccs)) s s'"
proof (induction ccs arbitrary: s)
  case Nil
  then show ?case using advances_refl by (simp add: bytes_on_def)
next
  case (Cons cc ccs)
  obtain cl c where cc: "cc = (cl, c)" by (cases cc)
  have t: "traced s (ca_thread cl)" using Cons.prems cc by simp
  show ?case
  proof (cases "seen cc")
    case True
    from perform_seen [OF t True [unfolded cc], of env] obtain s1 where
      p: "perform env cl c s = Some (Inr ((), s1))"
      and a: "advances 1 (\<lambda>fd. if fd = ti_outfd (l_threads s (ca_thread cl))
        then message_bytes (numbered_info env (l_seqno s) (length (call_frames cc)) (call_info c), call_frames cc) else []) s s1"
      unfolding cc by blast
    have "list_all (\<lambda>cc. traced s1 (ca_thread (fst cc))) ccs"
      using Cons.prems advances_traced [OF a] by (auto simp: list_all_iff)
    from Cons.IH [OF this] obtain s2 where r: "run_calls env ccs s1 = Some (Inr ((), s2))"
      "advances (length (messages env (l_seqno s1) ccs)) (bytes_on (l_threads s1) (messages env (l_seqno s1) ccs)) s1 s2"
      by blast
    have "l_threads s1 = l_threads s" "l_seqno s1 = l_seqno s + 1" using a by (simp_all add: advances_def)
    with advances_trans [OF a r(2)] True cc
    have "advances (length (messages env (l_seqno s) (cc # ccs))) (bytes_on (l_threads s) (messages env (l_seqno s) (cc # ccs))) s s2"
      by (auto simp: advances_def bytes_on_def)
    moreover have "run_calls env (cc # ccs) s = Some (Inr ((), s2))" using p r(1) cc by (simp add: lbind_def)
    ultimately show ?thesis by blast
  next
    case False
    from Cons.IH [of s] Cons.prems perform_unseen [OF t False [unfolded cc], of env] False cc
    show ?thesis by (simp add: lbind_def)
  qed
qed

end
