(* ===== verification/Agreement.thy ===== *)
theory Agreement
  imports Library_Inv Process_Command
begin

text \<open>
  The library and the profiler together: the bytes that a program's intercepted calls send are
  read back as messages, the messages are processed, and the profiler's live blocks are those of
  the program.
\<close>

section \<open>Reading a connection\<close>

text \<open>The messages in the bytes that have arrived on a connection, as the loop of \<open>input_func\<close> reads them.\<close>

function receive :: "byte list \<Rightarrow> (mi_info \<times> ptr list) list" where
  "receive bs = (case read_alloc bs of
       None \<Rightarrow> []
     | Some m \<Rightarrow> (m, read_frames (unat (stack_size m)) (drop 48 bs)) #
         receive (drop (48 + 8 * unat (stack_size m)) bs))"
  by pat_completeness auto

termination
  by (relation "measure length") (auto simp: read_alloc_def split: if_splits)

declare receive.simps [simp del]

definition well_formed :: "mi_info \<times> ptr list \<Rightarrow> bool" where
  "well_formed m \<longleftrightarrow> new_pid (fst m) = 0 \<and> stack_size (fst m) = of_nat (length (snd m)) \<and> length (snd m) \<le> 20000"

lemma receive_messages:
  "list_all well_formed ms \<Longrightarrow> receive (concat (map message_bytes ms)) = ms"
proof (induction ms)
  case Nil
  then show ?case by (simp add: receive.simps read_alloc_def)
next
  case (Cons m ms)
  obtain i fs where m: "m = (i, fs)" by (cases m)
  let ?rest = "concat (map message_bytes ms)"
  have w: "i\<lparr>new_pid := 0\<rparr> = i" "unat (stack_size i) = length fs"
    using Cons.prems m by (auto simp: well_formed_def unat_of_nat take_bit_nat_eq_self)
  have "read_alloc (wire_alloc i @ wire_frames fs @ ?rest) = Some i" using w(1) by (simp add: read_alloc_spec)
  then have "receive (wire_alloc i @ wire_frames fs @ ?rest) = (i, fs) # receive ?rest"
    by (subst receive.simps) (simp add: w(2) read_frames_spec)
  with Cons show ?case by (simp add: m message_bytes_def [of "(i, fs)"])
qed

text \<open>The descriptors of a run split its messages; together they have all of them.\<close>

lemma mset_split:
  "distinct gs \<Longrightarrow> f ` set xs \<subseteq> set gs \<Longrightarrow> mset (concat (map (\<lambda>g. filter (\<lambda>x. f x = g) xs) gs)) = mset xs"
proof (induction gs arbitrary: xs)
  case Nil
  then show ?case by simp
next
  case (Cons g gs)
  let ?rest = "filter (\<lambda>x. f x \<noteq> g) xs"
  have "map (\<lambda>h. filter (\<lambda>x. f x = h) xs) gs = map (\<lambda>h. filter (\<lambda>x. f x = h) ?rest) gs"
    using Cons.prems(1) by (auto simp: filter_filter intro!: filter_cong)
  moreover have "mset (concat (map (\<lambda>h. filter (\<lambda>x. f x = h) ?rest) gs)) = mset ?rest"
    by (rule Cons.IH) (use Cons.prems in auto)
  ultimately have "mset (concat (map (\<lambda>h. filter (\<lambda>x. f x = h) xs) gs)) = mset ?rest" by (simp only:)
  then show ?case using multiset_partition [of "mset xs" "\<lambda>x. f x = g"] by simp
qed

section \<open>The blocks of the program\<close>

text \<open>
  The truth the profiler should show: the addresses the program has allocated, with their sizes.
  A \<open>realloc\<close> that fails leaves the block alone.
\<close>

fun heap_step :: "mem_call \<Rightarrow> (ptr \<rightharpoonup> 64 word) \<Rightarrow> ptr \<rightharpoonup> 64 word" where
  "heap_step (Malloc n r) h = (if r = 0 then h else h(r \<mapsto> n))"
| "heap_step (Calloc k n r) h = (if r = 0 then h else h(r \<mapsto> k * n))"
| "heap_step (Memalign b n r) h = (if r = 0 then h else h(r \<mapsto> n))"
| "heap_step (Realloc p n r) h =
     (if r = 0 then (if n = 0 \<and> p \<noteq> 0 then h(p := None) else h)
      else (if p = 0 then h else h(p := None))(r \<mapsto> n))"
| "heap_step (Free p) h = (if p = 0 then h else h(p := None))"

fun heap_run :: "mem_call list \<Rightarrow> (ptr \<rightharpoonup> 64 word) \<Rightarrow> ptr \<rightharpoonup> 64 word" where
  "heap_run [] h = h"
| "heap_run (c # cs) h = heap_run cs (heap_step c h)"

text \<open>
  What the allocator behind the library does: it returns no address that is allocated. And no
  \<open>realloc\<close> of a block fails, for after a failure the profiler is wrong.
\<close>

fun call_ok :: "mem_call \<Rightarrow> (ptr \<rightharpoonup> 64 word) \<Rightarrow> bool" where
  "call_ok (Malloc n r) h = (h r = None)"
| "call_ok (Calloc k n r) h = (h r = None)"
| "call_ok (Memalign b n r) h = (h r = None)"
| "call_ok (Realloc p n r) h = (if r = 0 then n = 0 \<or> p = 0 else p = r \<or> h r = None)"
| "call_ok (Free p) h = True"

fun calls_ok :: "mem_call list \<Rightarrow> (ptr \<rightharpoonup> 64 word) \<Rightarrow> bool" where
  "calls_ok [] h = True"
| "calls_ok (c # cs) h = (call_ok c h \<and> calls_ok cs (heap_step c h))"

text \<open>The sizes the profiler knows, against those of the program: an address with its size modulo \<open>2 ^ 32\<close>.\<close>

definition agrees :: "(ptr \<rightharpoonup> u32 \<times> nref option) \<Rightarrow> (ptr \<rightharpoonup> 64 word) \<Rightarrow> bool" where
  "agrees m h \<longleftrightarrow> h 0 = None \<and> (\<forall>a. map_option fst (m a) = map_option ucast (h a))"

lemma agrees_None: "agrees m h \<Longrightarrow> (m a = None) = (h a = None)"
  by (metis agrees_def option.map_disc_iff)

lemma agrees_upd:
  "agrees m h \<Longrightarrow> a \<noteq> 0 \<Longrightarrow> n = ucast k \<Longrightarrow> agrees (m(a \<mapsto> (n, s))) (h(a \<mapsto> k))"
  "agrees m h \<Longrightarrow> agrees (m(a := None)) (h(a := None))"
  by (auto simp: agrees_def)

lemma calloc_total_low: "(ucast (calloc_total k n) :: u32) = ucast (k * n)"
  by (rule bit_word_eqI) (simp add: calloc_total_def bit_ucast_iff bit_signed_iff)

section \<open>One call, one command\<close>

definition command_of :: "(mi_info \<times> ptr list \<Rightarrow> nref option) \<Rightarrow> mi_info \<times> ptr list \<Rightarrow> command" where
  "command_of stk m = \<lparr>c_info = fst m, c_stack = stk m\<rparr>"

lemma numbered_info_simps [simp]:
  "operation (numbered_info env n k i) = operation i" "old_ptr (numbered_info env n k i) = old_ptr i"
  "new_ptr (numbered_info env n k i) = new_ptr i" "i_size (numbered_info env n k i) = i_size i"
  "i_seqno (numbered_info env n k i) = n" "stack_size (numbered_info env n k i) = of_nat k"
  "new_pid (numbered_info env n k i) = new_pid i"
  by (simp_all add: numbered_info_def)

lemma trace_info_simps [simp]:
  "operation (trace_info op p r n) = op" "old_ptr (trace_info op p r n) = p" "new_ptr (trace_info op p r n) = r"
  "i_size (trace_info op p r n) = n" "new_pid (trace_info op p r n) = 0"
  by (simp_all add: trace_info_def zero_info_def)

lemma call_info_new_pid [simp]: "new_pid (call_info c) = 0"
  by (cases c) simp_all

lemma live_call:
  assumes a: "agrees m h" and ok: "call_ok c h"
  shows "agrees (live_step (numbered_info env n k (call_info c)) stack m) (heap_step c h)"
proof -
  note None = agrees_None [OF a]
  have new: "agrees (live_alloc r (ucast q) stack m) (if r = 0 then h else h(r \<mapsto> q))" if "h r = None" for r q
    using that a agrees_upd(1) [OF a, of r _ q stack] None by (simp add: live_alloc_def)
  show ?thesis
  proof (cases c)
    case (Malloc q r)
    with ok new [of r q] show ?thesis by (simp add: live_step_def live_free_def)
  next
    case (Calloc j q r)
    with ok new [of r "j * q"] show ?thesis by (simp add: live_step_def live_free_def calloc_total_low)
  next
    case (Memalign b q r)
    with ok new [of r q] show ?thesis by (simp add: live_step_def live_free_def)
  next
    case (Realloc p q r)
    let ?m = "live_free p m" and ?h = "if p = 0 then h else h(p := None)"
    have a': "agrees ?m ?h" using a agrees_upd(2) [OF a] by (simp add: live_free_def)
    show ?thesis
    proof (cases "r = 0")
      case True
      with Realloc ok a' show ?thesis by (auto simp: live_step_def live_alloc_def)
    next
      case False
      then have "?h r = None" using ok Realloc a by (auto simp: agrees_def)
      then have "?m r = None" using agrees_None [OF a'] by blast
      then show ?thesis using Realloc False agrees_upd(1) [OF a' False, of _ q stack]
        by (simp add: live_step_def live_alloc_def)
    qed
  next
    case (Free p)
    with a agrees_upd(2) [OF a] show ?thesis by (simp add: live_step_def live_free_def live_alloc_def)
  qed
qed

text \<open>A run of calls, and the commands it sends.\<close>

lemma live_calls:
  "list_all seen ccs \<Longrightarrow> agrees m h \<Longrightarrow> calls_ok (map snd ccs) h \<Longrightarrow>
   agrees (live_run (map (command_of stk) (map snd (messages env n ccs))) m) (heap_run (map snd ccs) h)"
proof (induction ccs arbitrary: m h n)
  case (Cons cc ccs)
  then show ?case using live_call [OF Cons.prems(2), of "snd cc"] by (simp add: command_of_def)
qed simp

lemma length_messages: "list_all seen ccs \<Longrightarrow> length (messages env n ccs) = length ccs"
  by (induction ccs arbitrary: n) simp_all

lemma nth_messages:
  "list_all seen ccs \<Longrightarrow> j < length ccs \<Longrightarrow> i_seqno (fst (snd (messages env n ccs ! j))) = n + of_nat j"
proof (induction ccs arbitrary: n j)
  case (Cons cc ccs)
  then show ?case by (cases j) (simp_all add: add.assoc)
qed simp

lemma messages_numbered:
  assumes "list_all seen ccs" and "unat n + length ccs < 2 ^ 32"
  shows "numbered command_no n (map (command_of stk) (map snd (messages env n ccs)))"
  using assms by (simp add: numbered_def length_messages nth_messages command_no_def command_of_def)

lemma messages_well_formed: "list_all well_formed (map snd (messages env n ccs))"
  by (induction ccs arbitrary: n) (auto simp: well_formed_def seen_def call_frames_def)

lemma messages_acceptable:
  assumes "\<And>x. readable penv nd pid (stk x)"
  shows "list_all (acceptable penv nd pid) (map (command_of stk) (map snd (messages env n ccs)))"
proof (induction ccs arbitrary: n)
  case (Cons cc ccs)
  have "applicable (operation (call_info (snd cc)))" by (cases "snd cc") (simp_all add: applicable_def)
  with Cons assms show ?case by (simp add: acceptable_def command_of_def)
qed simp

lemma messages_threads:
  "(\<And>cc. cc \<in> set ccs \<Longrightarrow> P (ca_thread (fst cc))) \<Longrightarrow> x \<in> set (messages env n ccs) \<Longrightarrow> P (fst x)"
proof (induction ccs arbitrary: n)
  case (Cons cc ccs)
  have "x \<in> set (messages env (n + 1) ccs) \<or> x \<in> set (messages env n ccs) \<or> fst x = ca_thread (fst cc)"
    using Cons.prems(2) by (auto split: if_splits)
  moreover have "P (ca_thread (fst cc))" by (rule Cons.prems(1)) simp
  ultimately show ?case using Cons.IH [OF Cons.prems(1)] by auto
qed simp

text \<open>What arrives on all the connections together is what was sent.\<close>

lemma received_mset:
  assumes a: "advances k (bytes_on th (messages env n ccs)) s s'" and d: "distinct fds"
    and th: "\<And>cc. cc \<in> set ccs \<Longrightarrow> ti_outfd (th (ca_thread (fst cc))) \<in> set fds"
  shows "mset (concat (map (\<lambda>fd. receive (drop (length (sent_on s fd)) (sent_on s' fd))) fds)) =
    mset (map snd (messages env n ccs))"
proof -
  let ?ms = "messages env n ccs" and ?f = "\<lambda>m :: nat \<times> mi_info \<times> ptr list. ti_outfd (th (fst m))"
  have "receive (drop (length (sent_on s fd)) (sent_on s' fd)) = map snd (filter (\<lambda>m. ?f m = fd) ?ms)" for fd
  proof -
    have "drop (length (sent_on s fd)) (sent_on s' fd) =
        concat (map message_bytes (map snd (filter (\<lambda>m. ?f m = fd) ?ms)))"
      using a by (simp add: advances_def bytes_on_def)
    moreover have "list_all well_formed (map snd (filter (\<lambda>m. ?f m = fd) ?ms))"
      using messages_well_formed [of env n ccs] by (auto simp: list_all_iff)
    ultimately show ?thesis using receive_messages by presburger
  qed
  then have "concat (map (\<lambda>fd. receive (drop (length (sent_on s fd)) (sent_on s' fd))) fds) =
      map snd (concat (map (\<lambda>fd. filter (\<lambda>m. ?f m = fd) ?ms) fds))" by (simp add: map_concat comp_def)
  moreover have "?f ` set ?ms \<subseteq> set fds"
    using messages_threads [of ccs "\<lambda>t. ti_outfd (th t) \<in> set fds"] th by blast
  ultimately show ?thesis using mset_split [OF d, of ?f ?ms] by simp
qed

section \<open>Properties\<close>

text \<open>
  Property C2: the profiler shows the blocks the program has. Any sequence of intercepted
  allocations, reallocations and releases, made by any threads over their own connections, is
  carried over by the bytes they send: when the messages read from all the connections have been
  processed, in any order, the live blocks of the process are those of the program, with their
  sizes (modulo \<open>2 ^ 32\<close>). This rests on the allocator returning addresses that are free and
  on no \<open>realloc\<close> failing.
\<close>

theorem profiler_shows_live_blocks:
  assumes "list_all (\<lambda>cc. traced s (ca_thread (fst cc)) \<and> seen cc) ccs" and "calls_ok (map snd ccs) h"
    and "distinct fds" and "list_all (\<lambda>cc. ti_outfd (l_threads s (ca_thread (fst cc))) \<in> set fds) ccs"
    and "agrees (live st) h" and "account_ok own st" and "st_queue st = []"
    and "p_seqno (st_proc st) = l_seqno s" and "unat (l_seqno s) + length ccs < 2 ^ 32"
    and "\<And>x. readable penv nd (p_pid (st_proc st)) (stk x)"
  shows "\<exists>s'. run_calls env ccs s = Some (Inr ((), s')) \<and>
    (\<forall>ds. mset ds = mset (map (command_of stk)
          (concat (map (\<lambda>fd. receive (drop (length (sent_on s fd)) (sent_on s' fd))) fds))) \<longrightarrow>
      (\<exists>st'. run_in_order (deliver_command penv nd) ds st = Some st' \<and> st_queue st' = [] \<and>
        agrees (live st') (heap_run (map snd ccs) h) \<and> account_ok own st'))"
proof -
  have all: "list_all (\<lambda>cc. traced s (ca_thread (fst cc))) ccs" "list_all seen ccs"
    using assms(1) by (auto simp: list_all_iff)
  let ?ms = "messages env (l_seqno s) ccs"
  let ?cs = "map (command_of stk) (map snd ?ms)"
  from run_calls_spec [OF all(1)] obtain s' where s': "run_calls env ccs s = Some (Inr ((), s'))"
    "advances (length ?ms) (bytes_on (l_threads s) ?ms) s s'" by blast
  have num: "numbered command_no (p_seqno (st_proc st)) ?cs"
    unfolding assms(8) by (rule messages_numbered [OF all(2) assms(9)])
  from run_commands_spec [OF assms(6) num messages_acceptable [OF assms(10)]] obtain st' where
    st': "run_in_order (run_command penv nd) ?cs st = Some st'" "account_ok own st'"
      "live st' = live_run ?cs (live st)" "st_queue st' = []" using assms(7) by auto
  have "run_in_order (deliver_command penv nd) ds st = Some st'"
    if ds: "mset ds = mset (map (command_of stk)
      (concat (map (\<lambda>fd. receive (drop (length (sent_on s fd)) (sent_on s' fd))) fds)))" for ds
  proof (rule pc.any_order [OF num st'(1) assms(7)])
    have "mset (concat (map (\<lambda>fd. receive (drop (length (sent_on s fd)) (sent_on s' fd))) fds)) = mset (map snd ?ms)"
      by (rule received_mset [OF s'(2) assms(3)]) (use assms(4) in \<open>simp add: list_all_iff\<close>)
    then show "mset ds = mset ?cs" using ds by (simp only: mset_map)
  qed
  moreover have "agrees (live st') (heap_run (map snd ccs) h)"
    using live_calls [OF all(2) assms(5,2)] st'(3) by simp
  ultimately show ?thesis using s'(1) st' by blast
qed

text \<open>An instance: two threads, each with its connection; the second frees the block of the first.\<close>

definition demo_lib_env :: lib_env where
  "demo_lib_env = \<lparr>le_pid = 7, le_connect = \<lambda>_ _. Socket_Failed 0, le_tty = None, le_strerror = \<lambda>_. [], le_bad_fd = 9\<rparr>"

definition demo_lib_state :: lib_state where
  "demo_lib_state = \<lparr>l_initialized = 1, l_tracing = True, l_socket_path = Some ''/tmp/memprof.a'', l_seqno = 0,
     l_threads = (\<lambda>t. \<lparr>ti_pid = 7, ti_outfd = t + 4, ti_clone_pid = 0\<rparr>),
     l_conns = (\<lambda>fd. Some \<lparr>cn_stream = \<lparr>outcomes = [Wrote 5, Interrupted], sent = []\<rparr>, cn_reads = []\<rparr>),
     l_n_calls = 1, l_socket_env = None, l_debug = None, l_stderr = None\<rparr>"

definition demo_caller :: "nat \<Rightarrow> caller" where
  "demo_caller t = \<lparr>ca_thread = t, ca_guard = 0, ca_frames = [1, 2, 3, 0x400100]\<rparr>"

definition demo_calls :: "(caller \<times> mem_call) list" where
  "demo_calls = [(demo_caller 0, Malloc 10 0x10), (demo_caller 1, Calloc 4 5 0x20), (demo_caller 1, Free 0x10)]"

lemma demo_run:
  "list_all (\<lambda>cc. traced demo_lib_state (ca_thread (fst cc)) \<and> seen cc) demo_calls"
  "calls_ok (map snd demo_calls) Map.empty" "heap_run (map snd demo_calls) Map.empty = [0x20 \<mapsto> 20]"
  "list_all (\<lambda>cc. ti_outfd (l_threads demo_lib_state (ca_thread (fst cc))) \<in> set [4, 5]) demo_calls"
  "l_seqno demo_lib_state = 0" "length demo_calls = 3" "sent_on demo_lib_state fd = []"
  by (simp_all add: demo_calls_def demo_caller_def traced_def seen_def demo_lib_state_def works_def
      never_fails_def sent_on_def fun_eq_iff)

theorem profiler_shows_live_blocks_witness:
  "\<exists>s'. run_calls demo_lib_env demo_calls demo_lib_state = Some (Inr ((), s')) \<and>
    (\<forall>ds. mset ds = mset (map (command_of (\<lambda>_. None)) (receive (sent_on s' 4) @ receive (sent_on s' 5))) \<longrightarrow>
      (\<exists>st'. run_in_order (deliver_command prog_env Map.empty) ds (start_state 7) = Some st' \<and> st_queue st' = [] \<and>
        agrees (live st') [0x20 \<mapsto> 20] \<and> account_ok (\<lambda>r. 0) st'))"
proof -
  have rd: "readable prog_env Map.empty (p_pid (st_proc (start_state 7))) None"
    by (simp add: readable_def prog_env_def frames_of.simps)
  have ag: "agrees (live (start_state 7)) Map.empty" by (simp add: start_simps agrees_def)
  show ?thesis
    using profiler_shows_live_blocks [OF demo_run(1,2) _ demo_run(4) ag start_ok start_simps(1), of prog_env Map.empty "\<lambda>_. None"
        demo_lib_env] rd
    by (simp add: start_simps demo_run)
qed



end
