(* ===== verification/Library_Safety.thy ===== *)
theory Library_Safety
  imports Library_Inv
begin

text \<open>
  How the library begins and ends: what happens to a message when the connection fails, the
  handshake of the first call, the end of the process, and what a program that is executed
  inherits. The routines are shown to return whatever the operating system answers.
\<close>

section \<open>Totality of the parts\<close>

lemma lib_write_total:
  "\<exists>ok s'. lib_write env fd buf s = Some (Inr (ok, s')) \<and> l_tracing s' = l_tracing s \<and>
     l_initialized s' = l_initialized s \<and> l_socket_path s' = l_socket_path s \<and> l_threads s' = l_threads s \<and>
     l_seqno s' = l_seqno s \<and>
     (\<exists>out. sent_on s' fd = sent_on s fd @ out \<and> prefix out buf \<and> (ok \<and> l_conns s fd \<noteq> None \<longrightarrow> out = buf)) \<and>
     (\<forall>g. g \<noteq> fd \<longrightarrow> l_conns s' g = l_conns s g) \<and> (l_conns s' fd = None) = (l_conns s fd = None)"
proof (cases "l_conns s fd")
  case None
  let ?bad = "\<lparr>outcomes = [Failed (le_bad_fd env)], sent = []\<rparr> :: byte stream"
  obtain ok st d where "mi_write (le_pid env) (le_tty env) buf (?bad, l_debug s) = Some (ok, st, d)"
    using mi_write_spec [of "le_pid env" "le_tty env" buf ?bad "l_debug s"] by blast
  with None show ?thesis by (auto simp: lib_write_def sent_on_def)
next
  case (Some c)
  obtain ok st d where m: "mi_write (le_pid env) (le_tty env) buf (cn_stream c, l_debug s) = Some (ok, st, d)"
    "\<exists>out. sent st = sent (cn_stream c) @ out \<and> prefix out buf \<and> (ok \<longleftrightarrow> out = buf)"
    using mi_write_spec [of "le_pid env" "le_tty env" buf "cn_stream c" "l_debug s"] by blast
  with Some show ?thesis by (auto simp: lib_write_def sent_on_def)
qed



lemma stop_tracing_spec:
  "stop_tracing fd s =
     Some (Inr ((), s\<lparr>l_tracing := False, l_conns := (l_conns s)(fd := None), l_socket_env := Some ''''\<rparr>))"
  by (simp add: stop_tracing_def lib_close_def)

section \<open>A connection that fails\<close>

lemma write_stack_spec:
  assumes "ti_clone_pid (l_threads s t) = 0" and "0 \<le> n" "n \<le> 20000" and "l_conns s (ti_outfd (l_threads s t)) \<noteq> None"
  defines "fd \<equiv> ti_outfd (l_threads s t)"
  shows "\<exists>s'. mi_write_stack env t n frames info s = Some (Inr ((), s')) \<and> l_seqno s' = l_seqno s + 1 \<and>
    l_initialized s' = l_initialized s \<and> l_socket_path s' = l_socket_path s \<and>
    (l_tracing s' = l_tracing s \<and> sent_on s' fd = sent_on s fd @ message_bytes
        (info\<lparr>stack_size := word_of_int n, i_pid := le_pid env, i_seqno := l_seqno s\<rparr>, frames) \<or>
     \<not> l_tracing s' \<and> l_conns s' fd = None \<and> l_socket_env s' = Some '''')"
proof -
  let ?s = "s\<lparr>l_seqno := l_seqno s + 1\<rparr>"
  let ?info = "info\<lparr>stack_size := word_of_int n, i_pid := le_pid env, i_seqno := l_seqno s\<rparr>"
  have n1: "next_seqno s = Some (Inr (l_seqno s, ?s))" by (simp add: next_seqno_def)
  have f: "find_thread env t ?s = Some (Inr (l_threads s t, ?s))" using assms(1) by (simp add: find_thread_def)
  have w: "mi_write_stack env t n frames info s =
    lbind (lib_write env fd (wire_alloc ?info)) (\<lambda>ok.
    lbind (if ok then lib_write env fd (wire_frames frames) else lret False) (\<lambda>ok.
    lwhen (\<not> ok) (stop_tracing fd))) ?s"
    using assms(2,3) f unfolding fd_def by (simp add: mi_write_stack_def lbind_Inr [where m = next_seqno, OF n1] Let_def)
  obtain ok1 s1 where 1: "lib_write env fd (wire_alloc ?info) ?s = Some (Inr (ok1, s1))" "l_seqno s1 = l_seqno s + 1"
    "l_initialized s1 = l_initialized s" "l_socket_path s1 = l_socket_path s"
    "l_tracing s1 = l_tracing s" "l_conns s1 fd \<noteq> None" "ok1 \<Longrightarrow> sent_on s1 fd = sent_on ?s fd @ wire_alloc ?info"
    using lib_write_total [of env fd "wire_alloc ?info" ?s] assms(4) unfolding fd_def by auto
  have same: "sent_on ?s fd = sent_on s fd" by (simp add: sent_on_def)
  show ?thesis
  proof (cases ok1)
    case False
    with 1 show ?thesis unfolding w by (simp add: lbind_def stop_tracing_spec)
  next
    case True
    obtain ok2 s2 where 2: "lib_write env fd (wire_frames frames) s1 = Some (Inr (ok2, s2))" "l_seqno s2 = l_seqno s1"
      "l_initialized s2 = l_initialized s1" "l_socket_path s2 = l_socket_path s1"
      "l_tracing s2 = l_tracing s1" "ok2 \<Longrightarrow> sent_on s2 fd = sent_on s1 fd @ wire_frames frames"
      using lib_write_total [of env fd "wire_frames frames" s1] 1(6) by auto
    show ?thesis
    proof (cases ok2)
      case False
      with True 1 2 show ?thesis unfolding w by (simp add: lbind_def stop_tracing_spec)
    next
      case ok2: True
      with True 1 2 show ?thesis unfolding w by (simp add: lbind_def message_bytes_def same)
    qed
  qed
qed

text \<open>With tracing off, the library is silent.\<close>

definition silent :: "lib_state \<Rightarrow> bool" where
  "silent s \<longleftrightarrow> 0 < l_initialized s \<and> l_socket_path s \<noteq> None \<and> \<not> l_tracing s"

lemma check_init_silent: "silent s \<Longrightarrow> mi_check_init env t s = Some (Inr (True, s))"
  by (auto simp: mi_check_init_def silent_def)

lemma report_silent: "silent s \<Longrightarrow> report env cl k info s = Some (Inr ((), s))"
  by (simp add: report_def mi_tracing_def silent_def)

lemma run_calls_silent: "silent s \<Longrightarrow> run_calls env ccs s = Some (Inr ((), s))"
proof (induction ccs)
  case (Cons cc ccs)
  then have "perform env (fst cc) (snd cc) s = Some (Inr ((), s))"
    by (intro perform_report check_init_silent report_silent)
  with Cons show ?case by (simp add: lbind_def)
qed simp

section \<open>Connecting\<close>


lemma lbind_assoc: "lbind (lbind m f) g = lbind m (\<lambda>x. lbind (f x) g)"
  by (auto simp: lbind_def fun_eq_iff split: option.splits sum.splits)




section \<open>Ending\<close>







section \<open>The environment of the next program\<close>

fun getenv :: "string \<Rightarrow> string list \<Rightarrow> string option" where
  "getenv name [] = None"
| "getenv name (e # es) =
     (if take (Suc (length name)) e = name @ ''='' then Some (drop (Suc (length name)) e) else getenv name es)"

lemma getenv_cut_socket: "getenv ''_MEMPROF_SOCKET'' (cut_socket es) = map_option (\<lambda>_. []) (getenv ''_MEMPROF_SOCKET'' es)"
proof (induction es)
  case (Cons e es)
  have n: "Suc (length ''_MEMPROF_SOCKET'') = 16" "''_MEMPROF_SOCKET'' @ ''='' = ''_MEMPROF_SOCKET=''" by simp_all
  have "take 16 ''_MEMPROF_SOCKET='' = ''_MEMPROF_SOCKET=''" "drop 16 ''_MEMPROF_SOCKET='' = []" by simp_all
  with Cons show ?case by (simp only: getenv.simps cut_socket.simps n if_split option.map split: if_split) simp
qed simp

lemma cut_entry_other:
  assumes "CHR ''='' \<notin> set name" "name \<noteq> ''_MEMPROF_SOCKET''" "take 16 e = ''_MEMPROF_SOCKET=''"
  shows "take (Suc (length name)) e \<noteq> name @ ''=''"
proof
  assume n: "take (Suc (length name)) e = name @ ''=''"
  have tw: "takeWhile (\<lambda>c. c \<noteq> CHR ''='') (m @ ''='' @ r) = m" if "CHR ''='' \<notin> set m" for m r
    using that by (induction m) auto
  have "e = name @ ''='' @ drop (Suc (length name)) e" using n by (metis append.assoc append_take_drop_id)
  moreover have "e = ''_MEMPROF_SOCKET='' @ drop 16 e" using assms(3) by (metis append_take_drop_id)
  then have "e = ''_MEMPROF_SOCKET'' @ ''='' @ drop 16 e" by simp
  ultimately have "name = ''_MEMPROF_SOCKET''"
    using tw [OF assms(1), of "drop (Suc (length name)) e"] tw [of "''_MEMPROF_SOCKET''" "drop 16 e"] by simp
  with assms(2) show False by simp
qed

lemma getenv_cut_other:
  assumes "CHR ''='' \<notin> set name" "name \<noteq> ''_MEMPROF_SOCKET''"
  shows "getenv name (cut_socket es) = getenv name es"
proof (induction es)
  case (Cons e es)
  show ?case
    using cut_entry_other [OF assms, of e] cut_entry_other [OF assms, of "''_MEMPROF_SOCKET=''"] Cons by simp
qed simp

section \<open>Properties\<close>

text \<open>
  Property C6: no message is cut in the middle of a stream that goes on. Whatever its connection
  does, \<open>mi_write_stack\<close> returns, and either the message and its stack have gone out whole, under
  the next number, or tracing has ended: the descriptor is closed, the programs started later are
  told so, and no intercepted call after that sends anything.
\<close>

theorem message_or_silence:
  assumes "0 < l_initialized s" and "l_socket_path s \<noteq> None" and "ti_clone_pid (l_threads s t) = 0"
    and "0 \<le> n" and "n \<le> 20000" and "l_conns s (ti_outfd (l_threads s t)) \<noteq> None"
  shows "\<exists>s'. mi_write_stack env t n frames info s = Some (Inr ((), s')) \<and> l_seqno s' = l_seqno s + 1 \<and>
    (l_tracing s' = l_tracing s \<and>
       sent_on s' (ti_outfd (l_threads s t)) = sent_on s (ti_outfd (l_threads s t)) @ message_bytes
         (info\<lparr>stack_size := word_of_int n, i_pid := le_pid env, i_seqno := l_seqno s\<rparr>, frames) \<or>
     l_conns s' (ti_outfd (l_threads s t)) = None \<and> l_socket_env s' = Some '''' \<and>
       (\<forall>ccs. run_calls env ccs s' = Some (Inr ((), s'))))"
proof -
  from write_stack_spec [OF assms(3-6), of env frames info] obtain s' where
    s': "mi_write_stack env t n frames info s = Some (Inr ((), s'))" "l_seqno s' = l_seqno s + 1"
      "l_initialized s' = l_initialized s" "l_socket_path s' = l_socket_path s"
      "l_tracing s' = l_tracing s \<and>
         sent_on s' (ti_outfd (l_threads s t)) = sent_on s (ti_outfd (l_threads s t)) @ message_bytes
           (info\<lparr>stack_size := word_of_int n, i_pid := le_pid env, i_seqno := l_seqno s\<rparr>, frames) \<or>
       \<not> l_tracing s' \<and> l_conns s' (ti_outfd (l_threads s t)) = None \<and> l_socket_env s' = Some ''''"
    by blast
  from s'(3,4) assms(1,2) have "\<not> l_tracing s' \<Longrightarrow> silent s'" by (simp add: silent_def)
  with s' run_calls_silent show ?thesis by metis
qed

text \<open>An instance: a connection that is reset in the middle of the message.\<close>

definition broken_state :: lib_state where
  "broken_state = \<lparr>l_initialized = 1, l_tracing = True, l_socket_path = Some ''/tmp/memprof.a'', l_seqno = 3,
     l_threads = (\<lambda>t. \<lparr>ti_pid = 7, ti_outfd = 4, ti_clone_pid = 0\<rparr>),
     l_conns = [4 \<mapsto> \<lparr>cn_stream = \<lparr>outcomes = [Wrote 20, Failed 104], sent = []\<rparr>, cn_reads = []\<rparr>],
     l_n_calls = 1, l_socket_env = Some ''/tmp/memprof.a'', l_debug = None, l_stderr = None\<rparr>"

definition quiet_env :: "pid \<Rightarrow> conn_result \<Rightarrow> lib_env" where
  "quiet_env pid r = \<lparr>le_pid = pid, le_connect = \<lambda>_ _. r, le_tty = None, le_strerror = \<lambda>_. [], le_bad_fd = 9\<rparr>"

theorem message_or_silence_witness:
  "\<exists>s'. mi_write_stack (quiet_env 7 (Socket_Failed 1)) 0 1 [0x400100] (trace_info MI_MALLOC 0 16 8) broken_state = Some (Inr ((), s')) \<and>
     l_seqno s' = 4"
proof -
  have b: "0 < l_initialized broken_state" "l_socket_path broken_state \<noteq> None" "ti_clone_pid (l_threads broken_state 0) = 0"
    "l_conns broken_state (ti_outfd (l_threads broken_state 0)) \<noteq> None" "l_seqno broken_state = 3"
    by (simp_all add: broken_state_def)
  from message_or_silence [OF b(1-3) _ _ b(4), of 1 "quiet_env 7 (Socket_Failed 1)" "[0x400100]" "trace_info MI_MALLOC 0 16 8"] b(5)
  show ?thesis by auto
qed

text \<open>
  Property C30: the answer of the profiler decides. At the first intercepted call of a process the
  library connects to the socket named in the environment and announces the process by \<open>MI_NEW\<close>
  with its pid; if the byte that comes back is not zero every later call is traced, otherwise the
  connection is closed and every later call passes unseen.
\<close>

theorem first_call_connects:
  assumes "l_initialized s = 0" and "l_tracing s" and "l_socket_path s = None"
    and "l_socket_env s = Some path" and "path \<noteq> ''''" and "length path < 108"
    and "le_connect env (l_n_calls s) path = Connected fd c" and "never_fails (outcomes (cn_stream c))"
    and "read_byte (cn_reads c) = (1, b, rs)"
  shows "\<exists>s'. mi_check_init env t s = Some (Inr (True, s')) \<and> l_seqno s' = l_seqno s \<and>
    (if b \<noteq> 0
     then traced s' t \<and> ti_outfd (l_threads s' t) = fd \<and> sent_on s' fd = sent (cn_stream c) @
       wire_fork (zero_info\<lparr>operation := MI_NEW, new_pid := le_pid env\<rparr>)
     else l_conns s' fd = None \<and> (\<forall>ccs. run_calls env ccs s' = Some (Inr ((), s'))))"
proof -
  let ?s = "s\<lparr>l_initialized := 1, l_socket_path := Some path\<rparr>"
  let ?s1 = "?s\<lparr>l_n_calls := l_n_calls s + 1, l_conns := (l_conns s)(fd \<mapsto> c)\<rparr>"
  let ?ti = "(l_threads s t)\<lparr>ti_pid := le_pid env, ti_clone_pid := 0, ti_outfd := fd\<rparr>"
  let ?s2 = "set_thread t ?ti ?s1"
  let ?msg = "wire_fork (zero_info\<lparr>operation := MI_NEW, new_pid := le_pid env\<rparr>)"
  have z: "zero_info\<lparr>operation := MI_NEW, i_pid := 0, new_pid := le_pid env, i_seqno := 0\<rparr> =
      zero_info\<lparr>operation := MI_NEW, new_pid := le_pid env\<rparr>" by (simp add: zero_info_def)
  from mi_write_all [OF assms(8)] obtain os where
    w: "mi_write (le_pid env) (le_tty env) ?msg (cn_stream c, l_debug s) =
      Some (True, (cn_stream c)\<lparr>outcomes := os, sent := sent (cn_stream c) @ ?msg\<rparr>, l_debug s)" "never_fails os" by blast
  let ?c = "c\<lparr>cn_stream := (cn_stream c)\<lparr>outcomes := os, sent := sent (cn_stream c) @ ?msg\<rparr>\<rparr>"
  let ?s3 = "?s2\<lparr>l_conns := (l_conns ?s2)(fd \<mapsto> ?c\<lparr>cn_reads := rs\<rparr>)\<rparr>"
  have c: "connect_socket env ?s = Some (Inr (fd, ?s1))" using assms(6,7) by (simp add: connect_socket_def)
  have announced: "lib_write env fd ?msg ?s2 = Some (Inr (True, ?s2\<lparr>l_conns := (l_conns ?s2)(fd \<mapsto> ?c)\<rparr>))"
    using w(1) by (simp add: lib_write_def set_thread_def)
  have "lib_read fd (?s2\<lparr>l_conns := (l_conns ?s2)(fd \<mapsto> ?c)\<rparr>) = Some (Inr ((1, b), ?s3))"
    using assms(9) by (simp add: lib_read_def)
  then have "new_process env t False 0 MI_NEW ?s = lwhen (b = 0) (stop_tracing fd) ?s3"
    using announced unfolding new_process_def lbind_Inr [where m = "connect_socket env", OF c]
    by (simp add: allocate_thread_def set_thread_def z Let_def lbind_def del: One_nat_def)
  moreover have "mi_check_init env t s = lbind (new_process env t False 0 MI_NEW) (\<lambda>_. lret True) ?s"
    using assms(1,3,4,5) by (simp add: mi_check_init_def initialize_def memprof_init_def lbind_assoc)
  ultimately have init: "mi_check_init env t s = lbind (lwhen (b = 0) (stop_tracing fd)) (\<lambda>_. lret True) ?s3"
    by (simp add: lbind_def)
  show ?thesis
  proof (cases "b = 0")
    case True
    let ?s4 = "?s3\<lparr>l_tracing := False, l_conns := (l_conns ?s3)(fd := None), l_socket_env := Some ''''\<rparr>"
    have "silent ?s4" by (simp add: silent_def set_thread_def)
    moreover have "mi_check_init env t s = Some (Inr (True, ?s4))" using True by (simp add: init lbind_def stop_tracing_spec)
    ultimately show ?thesis using True run_calls_silent [of ?s4] by (intro exI [of _ ?s4]) (simp add: set_thread_def)
  next
    case False
    then have "mi_check_init env t s = Some (Inr (True, ?s3))" by (simp add: init)
    moreover have "traced ?s3 t" "ti_outfd (l_threads ?s3 t) = fd" "sent_on ?s3 fd = sent (cn_stream c) @ ?msg"
      "l_seqno ?s3 = l_seqno s"
      using assms(2) w(2) by (simp_all add: traced_def works_def set_thread_def sent_on_def)
    ultimately show ?thesis using False by (intro exI [of _ ?s3]) simp
  qed
qed

definition new_state :: "string \<Rightarrow> lib_state" where
  "new_state path = \<lparr>l_initialized = 0, l_tracing = True, l_socket_path = None, l_seqno = 0,
     l_threads = (\<lambda>t. \<lparr>ti_pid = 0, ti_outfd = 0, ti_clone_pid = 0\<rparr>), l_conns = Map.empty,
     l_n_calls = 0, l_socket_env = Some path, l_debug = None, l_stderr = None\<rparr>"

definition answering :: "byte \<Rightarrow> connection" where
  "answering b = \<lparr>cn_stream = \<lparr>outcomes = [Interrupted], sent = []\<rparr>, cn_reads = [Read_Interrupted, Got b]\<rparr>"

theorem first_call_connects_witness:
  "\<exists>s'. mi_check_init (quiet_env 7 (Connected 4 (answering 1))) 0 (new_state ''/tmp/memprof.a'') = Some (Inr (True, s')) \<and>
     traced s' 0 \<and> sent_on s' 4 = wire_fork (zero_info\<lparr>operation := MI_NEW, new_pid := 7\<rparr>)"
proof -
  let ?s = "new_state ''/tmp/memprof.a''" and ?env = "quiet_env 7 (Connected 4 (answering 1))"
  have h: "l_initialized ?s = 0" "l_tracing ?s" "l_socket_path ?s = None" "l_socket_env ?s = Some ''/tmp/memprof.a''"
    "le_connect ?env (l_n_calls ?s) ''/tmp/memprof.a'' = Connected 4 (answering 1)"
    "never_fails (outcomes (cn_stream (answering 1)))" "read_byte (cn_reads (answering 1)) = (1, 1, [])"
    by (simp_all add: new_state_def quiet_env_def answering_def never_fails_def)
  have "le_pid ?env = 7" "sent (cn_stream (answering 1)) = []" by (simp_all add: quiet_env_def answering_def)
  with first_call_connects [OF h(1-4) _ _ h(5-7), of 0] show ?thesis by auto
qed



text \<open>
  Property C32: tracing does not come back. A program that was started by one whose tracing has
  ended finds the rest of its environment as it was, but an empty socket path: its library never
  connects, and none of its calls is traced.
\<close>

theorem exec_stays_untraced:
  assumes "0 < l_initialized s" and "l_socket_path s \<noteq> None" and "\<not> l_tracing s"
    and "getenv ''_MEMPROF_SOCKET'' envp \<noteq> None"
    and "l_initialized new = 0" and "l_socket_path new = None" and "CHR ''='' \<notin> set name"
  shows "\<exists>envp'. lib_execve env t envp s = Some (Inr (envp', s)) \<and>
    (name \<noteq> ''_MEMPROF_SOCKET'' \<longrightarrow> getenv name envp' = getenv name envp) \<and>
    (l_socket_env new = getenv ''_MEMPROF_SOCKET'' envp' \<longrightarrow>
       (\<exists>new'. mi_check_init env' u new = Some (Inr (True, new')) \<and> l_conns new' = l_conns new \<and>
          (\<forall>ccs. run_calls env' ccs new' = Some (Inr ((), new')))))"
proof -
  have s: "silent s" using assms(1-3) by (simp add: silent_def)
  then have ex: "lib_execve env t envp s = Some (Inr (cut_socket envp, s))"
    using assms(3) by (simp add: lib_execve_def checked_def lbind_assoc mi_tracing_def
      lbind_Inr [where m = "mi_check_init env t", OF check_init_silent [OF s]])
  have g: "getenv ''_MEMPROF_SOCKET'' (cut_socket envp) = Some ''''" using assms(4) by (auto simp: getenv_cut_socket)
  have off: "\<exists>new'. mi_check_init env' u new = Some (Inr (True, new')) \<and> l_conns new' = l_conns new \<and>
      (\<forall>ccs. run_calls env' ccs new' = Some (Inr ((), new')))" if "l_socket_env new = Some ''''"
  proof -
    let ?new = "new\<lparr>l_initialized := 1, l_socket_path := Some '''', l_tracing := False\<rparr>"
    have "mi_check_init env' u new = Some (Inr (True, ?new))"
      using that assms(5,6) by (simp add: mi_check_init_def initialize_def memprof_init_def lbind_assoc)
    moreover have "silent ?new" by (simp add: silent_def)
    ultimately show ?thesis using run_calls_silent by (intro exI [of _ ?new]) simp
  qed
  show ?thesis using ex off g getenv_cut_other [OF assms(7)]
    by (intro exI [of _ "cut_socket envp"]) simp
qed

theorem exec_stays_untraced_witness:
  "\<exists>envp'. lib_execve (quiet_env 7 (Socket_Failed 1)) 0 [''A=b'', ''_MEMPROF_SOCKET=/tmp/memprof.a''] (broken_state\<lparr>l_tracing := False\<rparr>)
      = Some (Inr (envp', broken_state\<lparr>l_tracing := False\<rparr>)) \<and> getenv ''A'' envp' = Some ''b''"
proof -
  let ?s = "broken_state\<lparr>l_tracing := False\<rparr>" and ?envp = "[''A=b'', ''_MEMPROF_SOCKET=/tmp/memprof.a'']"
  have h: "0 < l_initialized ?s" "l_socket_path ?s \<noteq> None" "\<not> l_tracing ?s" by (simp_all add: broken_state_def)
  have e: "getenv ''_MEMPROF_SOCKET'' ?envp \<noteq> None" "getenv ''A'' ?envp = Some ''b''" by simp_all
  have n: "l_initialized (new_state []) = 0" "l_socket_path (new_state []) = None" by (simp_all add: new_state_def)
  have a: "CHR ''='' \<notin> set ''A''" "''A'' \<noteq> ''_MEMPROF_SOCKET''" by simp_all
  from exec_stays_untraced [OF h e(1) n a(1), of "quiet_env 7 (Socket_Failed 1)" 0] a(2) e(2) show ?thesis by metis
qed

section \<open>A product in an \<open>int\<close>\<close>

text \<open>The size of a \<open>calloc\<close>: the product keeps its low 32 bits, as a signed number.\<close>

lemma calloc_total_uint:
  "sint (calloc_total k n) = signed_take_bit 31 (int (unat k * unat n))"
proof -
  have "sint (calloc_total k n) = sint (ucast (k * n) :: u32)"
    by (simp add: calloc_total_def sint_up_scast is_up)
  also have "\<dots> = signed_take_bit 31 (uint (ucast (k * n) :: u32))" by (simp add: sint_uint)
  also have "uint (ucast (k * n) :: u32) = take_bit 32 (uint (k * n))" by (simp add: unsigned_ucast_eq)
  also have "uint (k * n) = take_bit 64 (int (unat k * unat n))" by (simp add: uint_word_arith_bintrs of_nat_mult)
  finally show ?thesis by (simp add: signed_take_bit_take_bit)
qed

lemma take_bit_small: "(0 :: int) \<le> k \<Longrightarrow> k < 2 ^ n \<Longrightarrow> take_bit n k = k"
  by (simp add: take_bit_int_eq_self)

lemma unat_calloc_total:
  "int (unat (calloc_total k n)) = take_bit 64 (signed_take_bit 31 (int (unat k * unat n)))"
proof -
  have "int (unat (calloc_total k n)) = uint (calloc_total k n)" by simp
  also have "\<dots> = take_bit 64 (sint (calloc_total k n))" 
    using uint_lt2p [of "calloc_total k n"]
    by (simp add: sint_uint take_bit_signed_take_bit take_bit_int_eq_self)
  finally show ?thesis by (simp only: calloc_total_uint)
qed

text \<open>The request is right exactly if the product fits.\<close>

lemma calloc_total_exact:
  "unat (calloc_total k n) = unat k * unat n \<longleftrightarrow>
     unat k * unat n < 2 ^ 31 \<or> 2 ^ 64 - 2 ^ 31 \<le> unat k * unat n \<and> unat k * unat n < 2 ^ 64"
proof -
  have conv: "int x < 2 ^ 31 \<longleftrightarrow> x < 2 ^ 31" "int x < 2 ^ 64 \<longleftrightarrow> x < 2 ^ 64"
    "2 ^ 64 - 2 ^ 31 \<le> int x \<longleftrightarrow> 2 ^ 64 - 2 ^ 31 \<le> x" for x by auto
  define p where "p = int (unat k * unat n)"
  have p0: "0 \<le> p" unfolding p_def by (rule of_nat_0_le_iff)
  define q where "q = signed_take_bit 31 p"
  have t: "- (2 ^ 31) \<le> q" "q < 2 ^ 31" unfolding q_def using signed_take_bit_int_greater_eq_minus_exp [of 31 p] signed_take_bit_int_less_exp [of 31 p] by simp_all
  have low: "q = p" if "p < 2 ^ 31" unfolding q_def using that p0 by (simp add: signed_take_bit_int_eq_self)
  have high: "q = p - 2 ^ 64" if "2 ^ 64 - 2 ^ 31 \<le> p" "p < 2 ^ 64"
  proof -
    have "q = signed_take_bit 31 (p - 2 ^ 64)" unfolding q_def
    proof (rule signed_take_bit_eq_iff_take_bit_eq [THEN iffD2])
      have "p - 2 ^ 64 = p + (- (2 ^ 32)) * 2 ^ 32" by simp
      then have "(p - 2 ^ 64) mod 2 ^ 32 = p mod 2 ^ 32" by (simp only: mod_mult_self1)
      then show "take_bit (Suc 31) p = take_bit (Suc 31) (p - 2 ^ 64)" by (simp add: take_bit_eq_mod)
    qed
    with that show ?thesis by (simp add: signed_take_bit_int_eq_self)
  qed
  have u: "take_bit 64 q = (if 0 \<le> q then q else q + 2 ^ 64)"
  proof (cases "0 \<le> q")
    case True
    with t show ?thesis by (simp add: take_bit_int_eq_self)
  next
    case False
    have "take_bit 64 q = take_bit 64 (q + 2 ^ 64)" by (simp add: take_bit_eq_mod)
    also have "\<dots> = q + 2 ^ 64" using False t by (intro take_bit_small) simp_all
    finally show ?thesis using False by simp
  qed
  have "unat (calloc_total k n) = unat k * unat n \<longleftrightarrow> take_bit 64 q = p"
    unfolding q_def p_def unat_calloc_total [symmetric] by (rule of_nat_eq_iff [symmetric])
  also have "\<dots> \<longleftrightarrow> p < 2 ^ 31 \<or> 2 ^ 64 - 2 ^ 31 \<le> p \<and> p < 2 ^ 64"
  proof
    assume "take_bit 64 q = p"
    then have "p = (if 0 \<le> q then q else q + 2 ^ 64)" by (simp only: u)
    then show "p < 2 ^ 31 \<or> 2 ^ 64 - 2 ^ 31 \<le> p \<and> p < 2 ^ 64" using t by (auto split: if_splits)
  next
    assume "p < 2 ^ 31 \<or> 2 ^ 64 - 2 ^ 31 \<le> p \<and> p < 2 ^ 64"
    then show "take_bit 64 q = p" unfolding u using low high p0 by (auto split: if_splits)
  qed
  finally show ?thesis 
    unfolding p_def by (simp only: conv)
qed

lemma lib_calloc_result:
  assumes "lib_calloc env cl old k n s = Some (Inr ((r, z), s'))"
    and "0 < l_initialized s" and "l_socket_path s \<noteq> None"
  shows "r = old (calloc_total k n) \<and> z = (if r = 0 then 0 else calloc_total k n)"
proof -
  have "mi_check_init env (ca_thread cl) s = Some (Inr (True, s))" using assms(2,3) by (auto simp: mi_check_init_def)
  note ci = lbind_Inr [where m = "mi_check_init env (ca_thread cl)", OF this]
  from assms(1) obtain s1 where "do_malloc env cl old (calloc_total k n) 2 s = Some (Inr (r, s1))"
    "z = (if r = 0 then 0 else calloc_total k n)"
    by (auto simp: lib_calloc_def do_calloc_def calloc_total_def Let_def lbind_def lret_def split: option.splits sum.splits prod.splits)
  then show ?thesis unfolding do_malloc_def ci
    by (auto simp: Let_def lbind_def lret_def split: option.splits sum.splits prod.splits)
qed

text \<open>
  Property C33: \<open>calloc\<close> asks for the number of bytes the program wants exactly if that fits an
  \<open>int\<close>. The product is kept in an \<open>int\<close>, so a larger one is cut to its low 32 bits with their
  sign: for 65536 objects of 65536 bytes it asks for none, and the program takes the empty block
  for four gigabytes. (Only products in the last two gigabytes below \<open>2 ^ 64\<close> come out right again.)
\<close>

theorem calloc_request:
  assumes "lib_calloc env cl old_malloc nmemb sz s = Some (Inr ((r, cleared), s'))"
    and "0 < l_initialized s" and "l_socket_path s \<noteq> None"
  shows "\<exists>total. r = old_malloc total \<and> cleared = (if r = 0 then 0 else total) \<and>
    total = scast (ucast (nmemb * sz) :: u32) \<and>
    (unat total = unat nmemb * unat sz \<longleftrightarrow> unat nmemb * unat sz < 2 ^ 31 \<or>
       2 ^ 64 - 2 ^ 31 \<le> unat nmemb * unat sz \<and> unat nmemb * unat sz < 2 ^ 64)"
  using lib_calloc_result [OF assms] calloc_total_exact [of nmemb sz]
  by (intro exI [of _ "calloc_total nmemb sz"]) (auto simp: calloc_total_def)

definition off_state :: lib_state where
  "off_state = \<lparr>l_initialized = 1, l_tracing = False, l_socket_path = Some '''', l_seqno = 0,
     l_threads = (\<lambda>t. \<lparr>ti_pid = 0, ti_outfd = 0, ti_clone_pid = 0\<rparr>), l_conns = Map.empty,
     l_n_calls = 0, l_socket_env = Some '''', l_debug = None, l_stderr = None\<rparr>"

theorem calloc_request_witness:
  "lib_calloc (quiet_env 7 (Socket_Failed 1)) \<lparr>ca_thread = 0, ca_guard = 0, ca_frames = [1]\<rparr> (\<lambda>n. if n = 0 then 16 else 0) 65536 65536 off_state =
     Some (Inr ((16, 0), off_state)) \<and> (\<exists>total :: 64 word. unat total \<noteq> 65536 * 65536 \<and> total = 0)"
proof -
  let ?cl = "\<lparr>ca_thread = 0, ca_guard = 0, ca_frames = [1]\<rparr>" and ?old = "\<lambda>n. if n = 0 then 16 else 0 :: ptr"
  have run: "lib_calloc (quiet_env 7 (Socket_Failed 1)) ?cl ?old 65536 65536 off_state = Some (Inr ((16, 0), off_state))"
    by (simp add: lib_calloc_def do_calloc_def do_malloc_def report_def mi_tracing_def mi_check_init_def off_state_def
        lbind_def Let_def)
  have "0 < l_initialized off_state" "l_socket_path off_state \<noteq> None" by (simp_all add: off_state_def)
  from calloc_request [OF run this] run show ?thesis by auto
qed

end
