(* ===== verification/Speedintercept.thy ===== *)
theory Speedintercept
  imports Intercept Stack_Frame
begin

text \<open>
  The sampling variant of the library (lib/speedintercept.c): a timer whose signal sends an
  \<open>MI_TIME\<close> message. The results of the system calls are the record \<open>speed_env\<close>: \<open>None\<close> for
  success, the error number otherwise. The cycle counters (lib/mi-perfctr.c) are one of them.
\<close>

datatype speed_type = SPEED_PROF_RTC | SPEED_PROF_PERFCTR | SPEED_PROF_ITIMER

datatype itimer = ITIMER_REAL | ITIMER_PROF

datatype prof_signal = SIGPROF | SIGALRM

record speed_env =
  se_pid :: pid
  se_interval :: "string option"
  se_type :: "string option"
  se_tty :: "char stream option"
  se_strerror :: "u32 \<Rightarrow> string"
  se_open_rtc :: "u32 + nat"
  se_setfl :: "u32 option"
  se_setown :: "u32 option"
  se_setsig :: "u32 option"
  se_irqp_set :: "int \<Rightarrow> u32 option"
  se_pie_on :: "u32 option"
  se_pie_off :: "u32 option"
  se_close :: "u32 option"
  se_setitimer :: "u32 option"
  se_sigaction :: "u32 option"
  se_perfctr :: "int \<Rightarrow> bool"

text \<open>\<open>sp_armed\<close>: the seconds and microseconds the interval timer was last set to.\<close>

record speed_state =
  sp_timer_fd :: "nat option"
  sp_interval :: int
  sp_type :: speed_type
  sp_itimer_type :: itimer
  sp_armed :: "(int \<times> int) option"
  sp_handler :: "prof_signal option"
  sp_debug :: "char stream option"

definition speed_start :: speed_state where
  "speed_start = \<lparr>sp_timer_fd = None, sp_interval = 10000, sp_type = SPEED_PROF_RTC, sp_itimer_type = ITIMER_REAL,
     sp_armed = None, sp_handler = None, sp_debug = None\<rparr>"

definition speed_perror :: "speed_env \<Rightarrow> u32 \<Rightarrow> string \<Rightarrow> speed_state \<Rightarrow> speed_state option" where
  "speed_perror env e message s = map_option (\<lambda>d. s\<lparr>sp_debug := d\<rparr>)
     (mi_perror (se_pid env) (se_tty env) (se_strerror env) e (Some message) (sp_debug s))"

definition speed_debug :: "speed_env \<Rightarrow> string \<Rightarrow> va_arg list \<Rightarrow> speed_state \<Rightarrow> speed_state option" where
  "speed_debug env format va s = map_option (\<lambda>d. s\<lparr>sp_debug := d\<rparr>)
     (mi_debug (se_pid env) (se_tty env) format va (sp_debug s))"

definition init_sighandler :: "speed_env \<Rightarrow> prof_signal \<Rightarrow> speed_state \<Rightarrow> speed_state option" where
  "init_sighandler env sig s = (case se_sigaction env of
       None \<Rightarrow> Some (s\<lparr>sp_handler := Some sig\<rparr>)
     | Some e \<Rightarrow> speed_perror env e ''Error setting up signal handler'' s)"

section \<open>The real time clock\<close>

partial_function (option) irq_rate_loop :: "int \<Rightarrow> int \<Rightarrow> int option" where
  "irq_rate_loop interval irq_rate =
     (if 1000000 div irq_rate > interval \<and> irq_rate < 8192 then irq_rate_loop interval (irq_rate * 2)
      else Some irq_rate)"

text \<open>\<open>bail\<close>: the clock is closed, \<open>timer_fd\<close> keeps its number.\<close>

definition start_rtc_timer :: "speed_env \<Rightarrow> speed_state \<Rightarrow> (bool \<times> speed_state) option" where
  "start_rtc_timer env s = (case se_open_rtc env of
       Inl e \<Rightarrow> map_option (\<lambda>s. (False, s)) (speed_perror env e ''Error opening /dev/rtc'' (s\<lparr>sp_timer_fd := None\<rparr>))
     | Inr fd \<Rightarrow>
         let s = s\<lparr>sp_timer_fd := Some fd\<rparr>;
             bail = (\<lambda>e message. map_option (\<lambda>s. (False, s)) (speed_perror env e message s))
         in (case se_setfl env of Some e \<Rightarrow> bail e ''Error setting FASYNC'' | None \<Rightarrow>
            (case se_setown env of Some e \<Rightarrow> bail e ''Error setting owner for SIGIO'' | None \<Rightarrow>
            (case se_setsig env of Some e \<Rightarrow> bail e ''Error setting signal for /dev/rtc'' | None \<Rightarrow>
            do {
              rate \<leftarrow> irq_rate_loop (sp_interval s) 1;
              (case se_irqp_set env rate of Some e \<Rightarrow> bail e ''Error setting interrupt rate'' | None \<Rightarrow>
              (case se_pie_on env of Some e \<Rightarrow> bail e ''Error turning on interrupts'' | None \<Rightarrow>
                 map_option (\<lambda>s. (True, s)) (init_sighandler env SIGPROF s)))
            }))))"

definition stop_rtc_timer :: "speed_env \<Rightarrow> speed_state \<Rightarrow> speed_state option" where
  "stop_rtc_timer env s =
     (if sp_timer_fd s = None then Some s
      else do {
        s \<leftarrow> (case se_pie_off env of None \<Rightarrow> Some s | Some e \<Rightarrow> speed_perror env e ''Error turning off interrupts'' s);
        (case se_close env of None \<Rightarrow> Some s | Some e \<Rightarrow> speed_perror env e ''Error closing /dev/rtc'' s)
      })"

section \<open>The interval timer\<close>

definition reset_itimer_timer :: "speed_env \<Rightarrow> speed_state \<Rightarrow> (bool \<times> speed_state) option" where
  "reset_itimer_timer env s = (case se_setitimer env of
       None \<Rightarrow> Some (True, s\<lparr>sp_armed := Some (sp_interval s div 1000000, sp_interval s mod 1000000)\<rparr>)
     | Some e \<Rightarrow> map_option (\<lambda>s. (False, s)) (speed_perror env e ''Error setting up itimer'' s))"

definition start_itimer_timer :: "speed_env \<Rightarrow> itimer \<Rightarrow> speed_state \<Rightarrow> (bool \<times> speed_state) option" where
  "start_itimer_timer env timer_type s = do {
     (ok, s) \<leftarrow> reset_itimer_timer env (s\<lparr>sp_itimer_type := timer_type\<rparr>);
     if \<not> ok then Some (False, s)
     else map_option (\<lambda>s. (True, s)) (init_sighandler env (if timer_type = ITIMER_PROF then SIGPROF else SIGALRM) s)
   }"

section \<open>Sampling\<close>

definition time_message :: mi_info where
  "time_message = zero_info\<lparr>operation := MI_TIME, i_size := 1\<rparr>"

text \<open>
  The handler: \<open>eip\<close>, \<open>ebp\<close> and \<open>esp\<close> are the registers of the interrupted thread, \<open>mem\<close>
  reads its stack. The timer is armed once; the handler arms it again.
\<close>

definition sigprof_handler ::
    "lib_env \<Rightarrow> speed_env \<Rightarrow> nat \<Rightarrow> (ptr \<Rightarrow> (ptr \<times> ptr) option) \<Rightarrow> ptr \<Rightarrow> ptr \<Rightarrow> ptr \<Rightarrow> speed_state \<Rightarrow> speed_state lib" where
  "sigprof_handler env senv t mem eip ebp esp sp =
     (case mi_call_with_signal_backtrace mem eip ebp esp of
        None \<Rightarrow> (\<lambda>s. None)
      | Some (n, frames) \<Rightarrow>
          lbind (mi_write_stack env t n frames time_message) (\<lambda>_.
          if sp_type sp = SPEED_PROF_ITIMER
          then (case reset_itimer_timer senv sp of None \<Rightarrow> (\<lambda>s. None) | Some (_, sp) \<Rightarrow> lret sp)
          else lret sp))"

section \<open>Starting and stopping\<close>

text \<open>
  \<open>strtol\<close> to base 10: the number and what follows it; a text without a number is followed by
  itself. A number that does not fit a \<open>long\<close> is the nearest that does; the assignment to an
  \<open>int\<close> keeps its low 32 bits.
\<close>

definition strtol :: "string \<Rightarrow> 64 word \<times> string" where
  "strtol t = (case scan_signed t of
       None \<Rightarrow> (0, t)
     | Some (n, rest) \<Rightarrow> (of_int (max (- (2 ^ 63)) (min n (2 ^ 63 - 1))), rest))"

definition read_interval :: "string \<Rightarrow> int option" where
  "read_interval t =
     (let (n, rest) = strtol t; interval = sint (ucast n :: u32)
      in if t = '''' \<or> rest \<noteq> '''' \<or> interval \<le> 0 then None else Some interval)"

definition set_interval :: "speed_env \<Rightarrow> speed_state \<Rightarrow> speed_state option" where
  "set_interval env s =
     (let t = (case se_interval env of None \<Rightarrow> ''10000'' | Some t \<Rightarrow> t)
      in case read_interval t of
           Some n \<Rightarrow> Some (s\<lparr>sp_interval := n\<rparr>)
         | None \<Rightarrow> map_option (\<lambda>s. s\<lparr>sp_interval := 10000\<rparr>)
             (speed_debug env (''Invalid interval %s'' @ [CHR 0x0A]) [Text_Arg (Some t)] s))"

text \<open>The timers tried in turn; the first that starts decides the type.\<close>

fun first_timer :: "((speed_state \<Rightarrow> (bool \<times> speed_state) option) \<times> speed_type) list \<Rightarrow> speed_state \<Rightarrow> (bool \<times> speed_state) option" where
  "first_timer [] s = Some (False, s)"
| "first_timer ((start, ty) # ts) s = do {
     (ok, s) \<leftarrow> start s;
     if ok then Some (True, s\<lparr>sp_type := ty\<rparr>) else first_timer ts s
   }"

definition mi_start :: "speed_env \<Rightarrow> speed_state \<Rightarrow> (ended option \<times> speed_state) option" where
  "mi_start env s = do {
     s \<leftarrow> set_interval env s;
     let ty = (case se_type env of None \<Rightarrow> ''cycles'' | Some t \<Rightarrow> t);
     (ok, s) \<leftarrow>
       (if ty = ''time'' then
          first_timer [(start_rtc_timer env, SPEED_PROF_RTC), (start_itimer_timer env ITIMER_REAL, SPEED_PROF_ITIMER)] s
        else if ty = ''cycles'' then
          first_timer [(\<lambda>s. Some (se_perfctr env (sp_interval s), s), SPEED_PROF_PERFCTR),
            (start_itimer_timer env ITIMER_PROF, SPEED_PROF_ITIMER)] s
        else map_option (\<lambda>s. (False, s))
          (speed_debug env (''Unknown value for _MEMPROF_SPEED_TYPE: %s'' @ [CHR 0x0A]) [] s));
     if ok then Some (None, s)
     else if ty \<noteq> ''time'' \<and> ty \<noteq> ''cycles'' then Some (Some (Exited 1), s)
     else map_option (\<lambda>s. (Some (Exited 1), s)) (speed_debug env (''Couldn'' @ [CHR 0x27] @ ''t start timer'' @ [CHR 0x0A]) [] s)
   }"

definition mi_stop :: "speed_env \<Rightarrow> speed_state \<Rightarrow> speed_state option" where
  "mi_stop env s = (case sp_type s of
       SPEED_PROF_RTC \<Rightarrow> stop_rtc_timer env s
     | SPEED_PROF_PERFCTR \<Rightarrow> Some s
     | SPEED_PROF_ITIMER \<Rightarrow> Some s)"

end
