(* ===== verification/Speedintercept_Inv.thy ===== *)
theory Speedintercept_Inv
  imports Speedintercept Mi_Utils_Inv
begin

text \<open>
  The sampling library starts: the interval it takes from its environment, the rate it gives the
  real time clock, and the order in which it tries its timers.
\<close>

section \<open>The rate of the real time clock\<close>

lemma irq_rate_loop_spec:
  "k \<le> 13 \<Longrightarrow> \<exists>j. k \<le> j \<and> j \<le> 13 \<and> irq_rate_loop interval (2 ^ k) = Some (2 ^ j) \<and>
     (1000000 div 2 ^ j \<le> interval \<or> j = 13) \<and> (\<forall>i. k \<le> i \<and> i < j \<longrightarrow> interval < 1000000 div 2 ^ i)"
proof (induction "13 - k" arbitrary: k)
  case 0
  then have "k = 13" by simp
  then show ?case by (subst irq_rate_loop.simps) auto
next
  case (Suc n)
  then have "k < 13" by simp
  then have k: "k < 13" "(2 :: int) ^ k < 2 ^ 13" by (simp_all only: power_strict_increasing)
  show ?case
  proof (cases "interval < 1000000 div 2 ^ k")
    case True
    have "n = 13 - (k + 1)" "k + 1 \<le> 13" using Suc.hyps(2) k(1) by simp_all
    from Suc.hyps(1) [OF this] obtain j where j: "k + 1 \<le> j" "j \<le> 13"
      "irq_rate_loop interval (2 ^ (k + 1)) = Some (2 ^ j)" "1000000 div 2 ^ j \<le> interval \<or> j = 13"
      "\<forall>i. k + 1 \<le> i \<and> i < j \<longrightarrow> interval < 1000000 div 2 ^ i" by auto
    have "irq_rate_loop interval (2 ^ k) = irq_rate_loop interval (2 ^ k * 2)"
      using True k(2) by (subst irq_rate_loop.simps) simp
    then have "irq_rate_loop interval (2 ^ k) = Some (2 ^ j)" using j(3) by (simp add: mult.commute)
    moreover have "\<forall>i. k \<le> i \<and> i < j \<longrightarrow> interval < 1000000 div 2 ^ i"
      using j(5) True by (metis Suc_eq_plus1 le_neq_implies_less Suc_leI)
    ultimately show ?thesis using j by (intro exI [of _ j]) auto
  next
    case False
    then have "irq_rate_loop interval (2 ^ k) = Some (2 ^ k)" by (subst irq_rate_loop.simps) simp
    with False k(1) show ?thesis by (intro exI [of _ k]) auto
  qed
qed

section \<open>Every step that reports an error returns\<close>

lemma speed_perror_total: "\<exists>d. speed_perror env e msg s = Some (s\<lparr>sp_debug := d\<rparr>)"
  using mi_perror_total [of "se_pid env" "se_tty env" "se_strerror env" e "Some msg" "sp_debug s"]
  by (auto simp: speed_perror_def)

text \<open>Same settings; only the timer, the handler and the terminal may have changed.\<close>

definition same_settings :: "speed_state \<Rightarrow> speed_state \<Rightarrow> bool" where
  "same_settings s s' \<longleftrightarrow> sp_interval s' = sp_interval s \<and> sp_type s' = sp_type s"

lemma bail_total: "\<exists>s'. map_option (\<lambda>s. (b, s)) (speed_perror env e msg s) = Some (b, s') \<and> same_settings s s'"
  using speed_perror_total [of env e msg s] by (auto simp: same_settings_def)

lemma init_sighandler_total: "\<exists>s'. init_sighandler env sig s = Some s' \<and> same_settings s s'"
proof (cases "se_sigaction env")
  case (Some e)
  with speed_perror_total [of env e "''Error setting up signal handler''" s] show ?thesis
    by (auto simp: init_sighandler_def same_settings_def)
qed (simp add: init_sighandler_def same_settings_def)

lemma start_rtc_total: "\<exists>ok s'. start_rtc_timer env s = Some (ok, s') \<and> same_settings s s'"
proof (cases "se_open_rtc env")
  case (Inl e)
  then show ?thesis using bail_total [of False env e "''Error opening /dev/rtc''" "s\<lparr>sp_timer_fd := None\<rparr>"]
    by (auto simp: start_rtc_timer_def same_settings_def)
next
  case (Inr fd)
  let ?s = "s\<lparr>sp_timer_fd := Some fd\<rparr>"
  obtain rate where "irq_rate_loop (sp_interval ?s) 1 = Some rate" using irq_rate_loop_spec [of 0 "sp_interval ?s"] by auto
  moreover have "\<exists>s'. map_option (\<lambda>s. (False, s)) (speed_perror env e msg ?s) = Some (False, s') \<and> same_settings s s'" for e msg
    using bail_total [of False env e msg ?s] by (auto simp: same_settings_def)
  moreover have "\<exists>s'. map_option (\<lambda>s. (True, s)) (init_sighandler env SIGPROF ?s) = Some (True, s') \<and> same_settings s s'"
    using init_sighandler_total [of env SIGPROF ?s] by (auto simp: same_settings_def)
  ultimately show ?thesis using Inr
    by (simp add: start_rtc_timer_def Let_def split: option.splits) blast
qed

lemma start_itimer_total: "\<exists>ok s'. start_itimer_timer env ty s = Some (ok, s') \<and> same_settings s s'"
proof (cases "se_setitimer env")
  case None
  let ?s = "s\<lparr>sp_itimer_type := ty, sp_armed := Some (sp_interval s div 1000000, sp_interval s mod 1000000)\<rparr>"
  obtain s' where "init_sighandler env (if ty = ITIMER_PROF then SIGPROF else SIGALRM) ?s = Some s'" "same_settings ?s s'"
    using init_sighandler_total by blast
  with None show ?thesis by (intro exI [of _ True] exI [of _ s']) (simp add: start_itimer_timer_def reset_itimer_timer_def same_settings_def)
next
  case (Some e)
  then show ?thesis using bail_total [of False env e "''Error setting up itimer''" "s\<lparr>sp_itimer_type := ty\<rparr>"]
    by (auto simp: start_itimer_timer_def reset_itimer_timer_def same_settings_def)
qed

lemma first_timer_total:
  "(\<And>t s. t \<in> set ts \<Longrightarrow> \<exists>ok s'. fst t s = Some (ok, s') \<and> same_settings s s') \<Longrightarrow>
   \<exists>ok s'. first_timer ts s = Some (ok, s') \<and> sp_interval s' = sp_interval s \<and> (ok \<longrightarrow> sp_type s' \<in> snd ` set ts)"
proof (induction ts arbitrary: s)
  case Nil
  then show ?case by (intro exI [of _ False] exI [of _ s]) simp
next
  case (Cons t ts)
  obtain st ty where t: "t = (st, ty)" by (cases t)
  from Cons.prems [of t s] t obtain ok s1 where s1: "st s = Some (ok, s1)" "same_settings s s1" by auto
  show ?case
  proof (cases ok)
    case True
    with s1 t show ?thesis by (intro exI [of _ True] exI [of _ "s1\<lparr>sp_type := ty\<rparr>"]) (simp add: same_settings_def)
  next
    case False
    from Cons.IH [of s1] Cons.prems obtain ok' s' where "first_timer ts s1 = Some (ok', s')"
      "sp_interval s' = sp_interval s1" "ok' \<longrightarrow> sp_type s' \<in> snd ` set ts" by auto
    with s1 t False show ?thesis by (auto simp: same_settings_def)
  qed
qed

lemma speed_debug_text:
  assumes "list_all (\<lambda>c. c \<noteq> CHR ''%'') t"
  shows "\<exists>d. speed_debug env t [] s = Some (s\<lparr>sp_debug := d\<rparr>)"
  by (auto simp: speed_debug_def mi_debug_prefix vprintf_text [OF assms] split del: if_split)

lemma speed_debug_invalid: "\<exists>d. speed_debug env (''Invalid interval %s'' @ [CHR 0x0A]) [Text_Arg (Some t)] s = Some (s\<lparr>sp_debug := d\<rparr>)"
proof -
  have "\<exists>d. mi_vprintf pid (''Invalid interval %s'' @ [CHR 0x0A]) [Text_Arg (Some t)] fd = Some d" for pid fd
  proof -
    obtain fd1 where d: "directive pid False CHR ''s'' [Text_Arg (Some t)] (put_text ''Invalid interval '' fd) = Some ([], fd1)"
      using directive_s by blast
    from vprintf_step [OF _ _ d, where cs = "[CHR 0x0A]"] vprintf_text [of "[CHR 0x0A]" pid "[]" fd1] show ?thesis by simp
  qed
  then obtain d where "mi_debug (se_pid env) (se_tty env) (''Invalid interval %s'' @ [CHR 0x0A]) [Text_Arg (Some t)] (sp_debug s) = Some d"
    unfolding mi_debug_prefix by blast
  then show ?thesis by (auto simp: speed_debug_def)
qed

text \<open>The format of the third message has a conversion without an argument.\<close>

lemma speed_debug_unknown:
  "speed_debug env (''Unknown value for _MEMPROF_SPEED_TYPE: %s'' @ [CHR 0x0A]) [] s = None"
proof -
  have "mi_vprintf pid (''Unknown value for _MEMPROF_SPEED_TYPE: %s'' @ [CHR 0x0A]) [] fd = None" for pid fd
    by (subst mi_vprintf.simps) (simp add: directive_def Let_def)
  then show ?thesis by (simp add: speed_debug_def mi_debug_prefix)
qed

section \<open>The interval\<close>

lemma scan_numeral_end: "scan_number 10 (numeral_of 10 n) = Some (int n, [])"
proof -
  obtain d ds where d: "numeral_of 10 n = d # ds" using numeral_of_Cons by blast
  have all: "list_all (is_digit 10) (numeral_of 10 n)" using numeral_of_digits [of 10 n] by simp
  then have "takeWhile (is_digit 10) (numeral_of 10 n) = numeral_of 10 n" "dropWhile (is_digit 10) (numeral_of 10 n) = []"
    by (simp_all only: list_all_iff takeWhile_eq_all_conv dropWhile_eq_Nil_conv)
  moreover have "is_digit 10 d" using all d by simp
  then have "\<not> is_space d" by (rule digit_not_space)
  then have "dropWhile is_space (numeral_of 10 n) = numeral_of 10 n" by (simp add: d)
  ultimately show ?thesis using number_of_numeral [of 10 n] by (simp add: scan_number_def Let_def takeWhile_eq_all_conv [THEN iffD2])
qed

lemma scan_signed_end: "scan_signed (numeral_of 10 n) = Some (int n, [])"
proof -
  obtain d ds where d: "numeral_of 10 n = d # ds" using numeral_of_Cons by blast
  then have dig: "is_digit 10 d" using numeral_of_digits [of 10 n] by simp
  then have "\<not> is_space d" "d \<noteq> CHR ''-''" "d \<noteq> CHR ''+''" by (auto simp: digit_not_space is_digit_def digit_of_def)
  then show ?thesis using scan_numeral_end [of n] by (simp add: scan_signed_def d)
qed

text \<open>\<open>strtol\<close> keeps a number that fits a \<open>long\<close>; the assignment to an \<open>int\<close> keeps one that fits an \<open>int\<close>.\<close>

lemma read_interval_numeral:
  assumes "0 < n" "n < 2 ^ 31"
  shows "read_interval (numeral_of 10 n) = Some (int n)"
proof -
  have "strtol (numeral_of 10 n) = (of_int (int n), [])"
    using assms by (simp add: strtol_def scan_signed_end max_def min_def)
  moreover have "sint (ucast (of_int (int n) :: 64 word) :: u32) = int n" using assms by (intro sint_low) simp_all
  ultimately show ?thesis using assms by (simp add: read_interval_def)
qed

lemma read_interval_range: "read_interval t = Some n \<Longrightarrow> 0 < n \<and> n < 2 ^ 31"
  using sint_less [of "ucast (fst (strtol t)) :: u32"]
  by (auto simp: read_interval_def Let_def split: prod.splits if_splits)

text \<open>An interval of \<open>2 ^ 32 + 1\<close> microseconds becomes one of one microsecond.\<close>

lemma read_interval_cut: "read_interval ''4294967297'' = Some 1"
proof -
  have "scan_signed ''4294967297'' = Some (4294967297, [])" by code_simp
  then show ?thesis by (simp add: read_interval_def strtol_def)
qed

lemma set_interval_total:
  "\<exists>s'. set_interval env s = Some s' \<and> 0 < sp_interval s' \<and> sp_interval s' < 2 ^ 31 \<and>
     (\<forall>n. se_interval env = Some (numeral_of 10 n) \<and> 0 < n \<and> n < 2 ^ 31 \<longrightarrow> sp_interval s' = int n)"
proof -
  let ?t = "case se_interval env of None \<Rightarrow> ''10000'' | Some t \<Rightarrow> t"
  show ?thesis
  proof (cases "read_interval ?t")
    case None
    then show ?thesis using speed_debug_invalid [of env ?t s] by (auto simp: set_interval_def Let_def read_interval_numeral)
  next
    case (Some n)
    then show ?thesis using read_interval_range [OF Some] by (auto simp: set_interval_def Let_def read_interval_numeral)
  qed
qed

section \<open>Properties\<close>

text \<open>An unknown type is reported with a format that reads an argument that was not passed.\<close>

lemma mi_start_unknown:
  assumes "se_type env = Some t" "t \<noteq> ''time''" "t \<noteq> ''cycles''"
  shows "mi_start env s = None"
  using assms set_interval_total [of env s] by (auto simp: mi_start_def speed_debug_unknown [simplified])

text \<open>
  Property C40: \<open>mi_start\<close> of the sampling library, for the two types the profiler asks for. It takes
  an interval of at least one microsecond that fits an \<open>int\<close>, the one the profiler printed into the
  environment if that does; it tries the timers of the type in turn and either one has started, and
  the handler knows which, or the program is told so and ends. Whatever system calls fail, it returns.
\<close>

theorem mi_start_outcome:
  assumes "se_type env \<in> {None, Some ''time'', Some ''cycles''}"
  shows "\<exists>r s'. mi_start env s = Some (r, s') \<and> 0 < sp_interval s' \<and> sp_interval s' < 2 ^ 31 \<and>
    (\<forall>n. se_interval env = Some (numeral_of 10 n) \<and> 0 < n \<and> n < 2 ^ 31 \<longrightarrow> sp_interval s' = int n) \<and>
    (r = Some (Exited 1) \<or> r = None \<and>
       sp_type s' \<in> (if se_type env = Some ''time'' then {SPEED_PROF_RTC, SPEED_PROF_ITIMER}
         else {SPEED_PROF_PERFCTR, SPEED_PROF_ITIMER}))"
proof -
  obtain s1 where s1: "set_interval env s = Some s1" "0 < sp_interval s1" "sp_interval s1 < 2 ^ 31"
    "\<forall>n. se_interval env = Some (numeral_of 10 n) \<and> 0 < n \<and> n < 2 ^ 31 \<longrightarrow> sp_interval s1 = int n"
    using set_interval_total by blast
  let ?rtc = "[(start_rtc_timer env, SPEED_PROF_RTC), (start_itimer_timer env ITIMER_REAL, SPEED_PROF_ITIMER)]"
  let ?ctr = "[(\<lambda>s. Some (se_perfctr env (sp_interval s), s), SPEED_PROF_PERFCTR),
    (start_itimer_timer env ITIMER_PROF, SPEED_PROF_ITIMER)]"
  let ?ts = "if se_type env = Some ''time'' then ?rtc else ?ctr"
  have "\<exists>ok s'. first_timer ?ts s1 = Some (ok, s') \<and> sp_interval s' = sp_interval s1 \<and>
      (ok \<longrightarrow> sp_type s' \<in> snd ` set ?ts)"
    by (rule first_timer_total)
      (auto simp: start_rtc_total start_itimer_total same_settings_def [of s s for s] split: if_splits)
  then obtain ok s2 where s2: "first_timer ?ts s1 = Some (ok, s2)" "sp_interval s2 = sp_interval s1"
    "ok \<longrightarrow> sp_type s2 \<in> snd ` set ?ts" by blast
  obtain d where d: "speed_debug env (''Couldn'' @ [CHR 0x27] @ ''t start timer'' @ [CHR 0x0A]) [] s2 = Some (s2\<lparr>sp_debug := d\<rparr>)"
    using speed_debug_text [of "''Couldn'' @ [CHR 0x27] @ ''t start timer'' @ [CHR 0x0A]" env s2] by auto
  have "mi_start env s = (if ok then Some (None, s2) else Some (Some (Exited 1), s2\<lparr>sp_debug := d\<rparr>))"
    using assms s1(1) s2(1) d by (auto simp: mi_start_def split: if_splits)
  then show ?thesis using s1 s2 by (cases ok) (auto split: if_splits)
qed

definition demo_speed_env :: "string option \<Rightarrow> string option \<Rightarrow> speed_env" where
  "demo_speed_env ty interval = \<lparr>se_pid = 7, se_interval = interval, se_type = ty, se_tty = None, se_strerror = \<lambda>_. [],
     se_open_rtc = Inl 2, se_setfl = None, se_setown = None, se_setsig = None, se_irqp_set = \<lambda>_. None,
     se_pie_on = None, se_pie_off = None, se_close = None, se_setitimer = None, se_sigaction = None, se_perfctr = \<lambda>_. False\<rparr>"

theorem mi_start_outcome_witness:
  "\<exists>r s'. mi_start (demo_speed_env (Some ''time'') (Some (numeral_of 10 500))) speed_start = Some (r, s') \<and> sp_interval s' = 500"
proof -
  let ?env = "demo_speed_env (Some ''time'') (Some (numeral_of 10 500))"
  have "se_type ?env \<in> {None, Some ''time'', Some ''cycles''}" "se_interval ?env = Some (numeral_of 10 500)"
    by (simp_all add: demo_speed_env_def)
  with mi_start_outcome [of ?env speed_start] show ?thesis by fastforce
qed

end
