(* ===== verification/Status_Page.thy ===== *)
theory Status_Page
  imports Profile_Output Numerals "HOL-Library.Signed_Division"
begin

text \<open>
  A process window (src/gui.h) and the meters that follow its process: \<open>update_status\<close>, the
  usage bars and \<open>process_window_reset\<close> of src/main.c, the history of \<open>dw_update\<close>
  (src/detailwin.c). The widgets are what the program puts into them; drawing is left out.
\<close>

section \<open>The window\<close>

definition MEMSTATS :: nat where "MEMSTATS = 4096"

text \<open>
  \<open>pw_timeout\<close>: a timeout calls \<open>update_status\<close>; \<open>pw_page\<close>: the page of the notebook;
  \<open>pw_visible\<close>: whether the main window is shown.
\<close>

record process_window =
  pw_process :: "pref option"
  pw_profile :: "profile option"
  pw_leaks :: "bref list"
  pw_usage_max :: u32
  pw_usage_high :: u32
  pw_usage_leaked :: u32
  pw_timeout :: bool
  pw_memstats :: "(u32 \<times> u32) list"
  pw_draw_memmap :: bool
  pw_title :: string
  pw_page :: nat
  pw_visible :: bool

definition process_window_new :: process_window where
  "process_window_new = \<lparr>pw_process = None, pw_profile = None, pw_leaks = [], pw_usage_max = 32 * 1024,
     pw_usage_high = 0, pw_usage_leaked = 0, pw_timeout = False, pw_memstats = replicate MEMSTATS (0, 0),
     pw_draw_memmap = False, pw_title = ''window1'', pw_page = 0, pw_visible = False\<rparr>"

section \<open>The history\<close>

text \<open>The loop moves the entries up, the last one first.\<close>

fun shift_up :: "nat \<Rightarrow> 'a list \<Rightarrow> 'a list" where
  "shift_up 0 xs = xs"
| "shift_up (Suc i) xs = shift_up i (xs[Suc i := xs ! i])"

definition dw_update :: "mp_process option \<Rightarrow> process_window \<Rightarrow> process_window" where
  "dw_update process pw = (case process of None \<Rightarrow> pw
     | Some p \<Rightarrow> pw\<lparr>pw_memstats := (shift_up (MEMSTATS - 1) (pw_memstats pw))[0 := (p_bytes_used p, pw_usage_high pw)]\<rparr>)"

section \<open>The status line\<close>

partial_function (option) usage_loop :: "u32 \<Rightarrow> u32 \<Rightarrow> u32 option" where
  "usage_loop bytes usage_max = (if bytes > usage_max then usage_loop bytes (usage_max * 2) else Some usage_max)"

text \<open>
  The texts of the labels; the bytes per allocation are kept as the two numbers the quotient is
  made of. \<open>%d\<close> prints an unsigned number as a signed one.
\<close>

datatype per_allocation = No_Allocations | Quotient u32 u32

record labels =
  lb_total_bytes :: string
  lb_n_allocations :: string
  lb_profile_status :: string
  lb_bytes_per :: per_allocation
  lb_usage_max :: "string option"

definition decimal :: "u32 \<Rightarrow> string" where
  "decimal n = signed_numeral (sint n)"

definition update_status :: "mp_process \<Rightarrow> process_window \<Rightarrow> (process_window \<times> labels) option" where
  "update_status p pw = do {
     usage_max \<leftarrow> usage_loop (p_bytes_used p) (pw_usage_max pw);
     let texts = \<lparr>lb_total_bytes = decimal (p_bytes_used p), lb_n_allocations = decimal (p_n_allocations p),
       lb_profile_status = decimal (p_bytes_used p) @ '' samples'',
       lb_bytes_per = (if p_n_allocations p = 0 then No_Allocations else Quotient (p_bytes_used p) (p_n_allocations p)),
       lb_usage_max = (if p_bytes_used p > pw_usage_max pw then Some (decimal (usage_max div 1024) @ ''k'') else None)\<rparr>;
     let pw = pw\<lparr>pw_usage_max := usage_max, pw_usage_high := max (p_bytes_used p) (pw_usage_high pw)\<rparr>;
     Some (dw_update (Some p) pw, texts)
   }"

section \<open>The bars\<close>

text \<open>
  The width of a bar: the quotient is taken as a \<open>double\<close>, which is exact since \<open>usage_max\<close> is a
  power of two, and the product is cut to an \<open>int\<close>. The current size goes through an \<open>int\<close>.
\<close>

datatype bar_color = White | Blue | Yellow | Red

definition bar_size :: "int \<Rightarrow> int \<Rightarrow> u32 \<Rightarrow> int" where
  "bar_size width used usage_max = (width * used) sdiv uint usage_max"

definition on_usage_area_expose :: "int \<Rightarrow> mp_process option \<Rightarrow> process_window \<Rightarrow> (bar_color \<times> int) list" where
  "on_usage_area_expose width process pw =
     (let bytes_used = (case process of None \<Rightarrow> 0 | Some p \<Rightarrow> sint (p_bytes_used p))
      in [(White, width),
          (Blue, bar_size width (uint (pw_usage_high pw)) (pw_usage_max pw)),
          (Yellow, bar_size width bytes_used (pw_usage_max pw)),
          (Red, bar_size width (uint (pw_usage_leaked pw)) (pw_usage_max pw))])"

section \<open>Reset\<close>

text \<open>\<open>process\<close> is the process of the window. The list of leaks is freed, the references its blocks hold are not.\<close>

definition process_window_reset :: "mp_process option \<Rightarrow> process_window \<Rightarrow> process_window option" where
  "process_window_reset process pw = do {
     pw \<leftarrow> (case pw_profile pw of None \<Rightarrow> Some pw
       | Some pr \<Rightarrow> map_option (\<lambda>h. pw\<lparr>pw_profile := None\<rparr>) (profile_free (pr_roots pr) (pr_nodes pr)));
     let pw = pw\<lparr>pw_leaks := [], pw_usage_max := 32 * 1024, pw_usage_high := 0, pw_usage_leaked := 0,
       pw_title := ''MemProf''\<rparr>;
     Some (dw_update process pw)
   }"

section \<open>The lists of a profile\<close>

text \<open>
  A number of a profile in a row: as it is, or (when time is profiled) in percent of all samples,
  kept as the two numbers it is made of.
\<close>

datatype sample = Bytes u32 | Percent u32 int

definition node_sample :: "profile_type \<Rightarrow> u32 \<Rightarrow> int \<Rightarrow> sample" where
  "node_sample ty value n_samples = (if ty = MP_PROFILE_MEMORY then Bytes value else Percent value n_samples)"

text \<open>\<open>set_sample\<close> takes the number of samples as an unsigned one, \<open>add_node\<close> as a signed one.\<close>

definition set_sample :: "profile_type \<Rightarrow> u32 \<Rightarrow> int \<Rightarrow> sample" where
  "set_sample ty value n_samples = node_sample ty value (n_samples mod 2 ^ 32)"

datatype func_row = Func_Row cstr sample sample profile_func

fun func_rows :: "profile_type \<Rightarrow> int \<Rightarrow> (pnref \<rightharpoonup> profile_node) \<Rightarrow> profile_func list \<Rightarrow> func_row list option" where
  "func_rows ty n_samples h [] = Some []"
| "func_rows ty n_samples h (f # fs) = do {
     r \<leftarrow> pf_node f;
     n \<leftarrow> h r;
     rows \<leftarrow> func_rows ty n_samples h fs;
     Some (Func_Row (pn_symbol n) (set_sample ty (pf_self f) n_samples) (set_sample ty (pf_total f) n_samples) f # rows)
   }"

definition profile_fill :: "profile_type \<Rightarrow> profile \<Rightarrow> func_row list option" where
  "profile_fill ty pr = func_rows ty (sint (pr_n_bytes pr)) (pr_nodes pr) (pr_functions pr)"

text \<open>The rows of the callers and, with each node in front of its siblings so far, of the descendants.\<close>

datatype caller_row = Caller_Row line_name sample sample "cstr option"

fun caller_rows :: "profile_type \<Rightarrow> int \<Rightarrow> (pnref \<rightharpoonup> profile_node) \<Rightarrow> profile_func list \<Rightarrow> caller_row list option" where
  "caller_rows ty n_samples h [] = Some []"
| "caller_rows ty n_samples h (f # fs) = do {
     name \<leftarrow> (case pf_node f of None \<Rightarrow> Some None | Some r \<Rightarrow> map_option (\<lambda>n. Some (pn_symbol n)) (h r));
     rows \<leftarrow> caller_rows ty n_samples h fs;
     Some (Caller_Row (case name of None \<Rightarrow> Spontaneous | Some s \<Rightarrow> Symbol_Name s)
       (set_sample ty (pf_self f) n_samples) (set_sample ty (pf_total f) n_samples) name # rows)
   }"

datatype descendant_row = Descendant_Row cstr sample sample "descendant_row list"

partial_function (option) add_nodes ::
    "profile_type \<Rightarrow> int \<Rightarrow> (pnref \<rightharpoonup> descendant_node) \<Rightarrow> pnref list \<Rightarrow> descendant_row list \<Rightarrow> descendant_row list option" where
  "add_nodes ty n_samples h rs rows =
     (case rs of [] \<Rightarrow> Some rows
      | r # rs \<Rightarrow> Option.bind (h r) (\<lambda>n.
          Option.bind (add_nodes ty n_samples h (dn_children n) []) (\<lambda>below.
          add_nodes ty n_samples h rs
            (Descendant_Row (dn_symbol n) (node_sample ty (dn_self n) n_samples)
               (node_sample ty (dn_non_recursion n) n_samples) below # rows))))"

definition profile_selection_changed ::
    "profile_type \<Rightarrow> profile \<Rightarrow> profile_func \<Rightarrow> (descendant_row list \<times> caller_row list) option" where
  "profile_selection_changed ty pr f = do {
     let n_samples = sint (pr_n_bytes pr);
     tree \<leftarrow> profile_func_create_descendant_tree (pr_nodes pr) f;
     r \<leftarrow> (case dt_roots tree of [] \<Rightarrow> None | r # rs \<Rightarrow> Some r);
     ds \<leftarrow> add_nodes ty n_samples (dt_nodes tree) [r] [];
     profile_descendant_tree_free (dt_roots tree) (dt_nodes tree);
     gs \<leftarrow> profile_func_create_caller_list (pr_nodes pr) f;
     cs \<leftarrow> caller_rows ty n_samples (pr_nodes pr) gs;
     Some (ds, cs)
   }"

text \<open>Where a double click on a caller or a descendant leads: the first row with its symbol.\<close>

fun profile_func_list_goto_symbol :: "(pnref \<rightharpoonup> profile_node) \<Rightarrow> cstr \<Rightarrow> nat \<Rightarrow> func_row list \<Rightarrow> nat option option" where
  "profile_func_list_goto_symbol h target i [] = Some None"
| "profile_func_list_goto_symbol h target i (Func_Row name a b f # rows) = do {
     r \<leftarrow> pf_node f;
     n \<leftarrow> h r;
     if symbol_equal (Some (pn_symbol n)) (Some target) then Some (Some i)
     else profile_func_list_goto_symbol h target (i + 1) rows
   }"

definition profile_caller_row_activated ::
    "(pnref \<rightharpoonup> profile_node) \<Rightarrow> func_row list \<Rightarrow> caller_row \<Rightarrow> nat option option" where
  "profile_caller_row_activated h rows row = (case row of Caller_Row _ _ _ symb \<Rightarrow>
     (case symb of None \<Rightarrow> Some None | Some s \<Rightarrow> profile_func_list_goto_symbol h s 0 rows))"

definition profile_descendants_row_activated ::
    "(pnref \<rightharpoonup> profile_node) \<Rightarrow> func_row list \<Rightarrow> descendant_row \<Rightarrow> nat option option" where
  "profile_descendants_row_activated h rows row = (case row of Descendant_Row symb _ _ _ \<Rightarrow>
     profile_func_list_goto_symbol h symb 0 rows)"

end
