(* ===== verification/Leak_View.thy ===== *)
theory Leak_View
  imports Leakdetect Numerals
begin

text \<open>
  The page of the leaks in src/main.c: the list of leaked blocks with the function that called
  for each, the stack of a block, and the command that shows a line of a stack in an editor.
\<close>

section \<open>The function to blame\<close>

text \<open>
  The loop over the stack of a block: the innermost frame whose function is known and is neither
  in \<open>skip_funcs\<close> nor matched by one of \<open>skip_regexes\<close>. \<open>regex_match\<close> is \<open>regcomp\<close> and
  \<open>regexec\<close> of the C library.
\<close>

definition skipped_function :: "string list \<Rightarrow> string list \<Rightarrow> (string \<Rightarrow> string \<Rightarrow> bool) \<Rightarrow> string \<Rightarrow> bool" where
  "skipped_function skip_funcs skip_regexes regex_match f \<longleftrightarrow>
     f \<in> set skip_funcs \<or> list_ex (\<lambda>r. regex_match r f) skip_regexes"

partial_function (option) leak_caller ::
    "env \<Rightarrow> (nref \<rightharpoonup> stack_node) \<Rightarrow> (string \<Rightarrow> bool) \<Rightarrow> nref option \<Rightarrow> mp_process \<times> inode_state \<Rightarrow>
     (mp_process \<times> inode_state \<times> string option) option" where
  "leak_caller env m skip stack ps =
     (case stack of None \<Rightarrow> Some (fst ps, snd ps, None)
      | Some r \<Rightarrow> Option.bind (m r) (\<lambda>nd.
          Option.bind (process_find_line env (sn_address nd) ps) (\<lambda>psr.
          (case snd (snd psr) of
             None \<Rightarrow> leak_caller env m skip (sn_parent nd) (fst psr, fst (snd psr))
           | Some (file, f, line) \<Rightarrow>
               if skip f then leak_caller env m skip (sn_parent nd) (fst psr, fst (snd psr))
               else Some (fst psr, fst (snd psr), Some f)))))"

datatype leak_row = Leak_Row ptr u32 string bref

fun leaks_fill ::
    "env \<Rightarrow> (string \<Rightarrow> bool) \<Rightarrow> pref \<Rightarrow> bref list \<Rightarrow> world \<Rightarrow> (world \<times> leak_row list) option" where
  "leaks_fill env skip i [] w = Some (w, [])"
| "leaks_fill env skip i (r # rs) w = do {
     b \<leftarrow> blocks (w_blocks w) r;
     p \<leftarrow> w_procs w i;
     (p, s, f) \<leftarrow> leak_caller env (nodes (w_nodes w)) skip (b_stack b) (p, w_inodes w);
     (w, rows) \<leftarrow> leaks_fill env skip i rs (put i p (w\<lparr>w_inodes := s\<rparr>));
     Some (w, Leak_Row (b_addr b) (b_size b) (case f of None \<Rightarrow> ''(???)'' | Some f \<Rightarrow> f) r # rows)
   }"

text \<open>How the rows are sorted by address.\<close>

definition pointer_sort_func :: "ptr \<Rightarrow> ptr \<Rightarrow> int" where
  "pointer_sort_func p1 p2 = (if p1 < p2 then - 1 else if p1 > p2 then 1 else 0)"

text \<open>\<open>leak_block_selection_changed\<close>: a row for each frame of the stack of the selected block.\<close>

datatype stack_row = Stack_Row string u32 "string option"

partial_function (option) stack_rows ::
    "env \<Rightarrow> (nref \<rightharpoonup> stack_node) \<Rightarrow> nref option \<Rightarrow> mp_process \<times> inode_state \<Rightarrow>
     (mp_process \<times> inode_state \<times> stack_row list) option" where
  "stack_rows env m stack ps =
     (case stack of None \<Rightarrow> Some (fst ps, snd ps, [])
      | Some r \<Rightarrow> Option.bind (m r) (\<lambda>nd.
          Option.bind (process_find_line env (sn_address nd) ps) (\<lambda>psr.
          Option.bind (stack_rows env m (sn_parent nd) (fst psr, fst (snd psr))) (\<lambda>rest.
          Some (fst rest, fst (snd rest),
            (case snd (snd psr) of
               None \<Rightarrow> Stack_Row ''(???)'' 0 (Some ''(???)'')
             | Some (file, f, line) \<Rightarrow> Stack_Row f line file) # snd (snd rest))))))"

definition leak_block_selection_changed ::
    "env \<Rightarrow> pref \<Rightarrow> bref option \<Rightarrow> world \<Rightarrow> (world \<times> stack_row list) option" where
  "leak_block_selection_changed env i selected w = (case selected of None \<Rightarrow> Some (w, [])
     | Some r \<Rightarrow> do {
         b \<leftarrow> blocks (w_blocks w) r;
         p \<leftarrow> w_procs w i;
         (p, s, rows) \<leftarrow> stack_rows env (nodes (w_nodes w)) (b_stack b) (p, w_inodes w);
         Some (put i p (w\<lparr>w_inodes := s\<rparr>), rows)
       })"

section \<open>The command for a frame\<close>

text \<open>
  The loop over \<open>stack_command\<close>. After a percent sign at the end the loop steps over the end of
  the string. A missing file name appends nothing.
\<close>

fun expand_command :: "string option \<Rightarrow> u32 \<Rightarrow> string \<Rightarrow> string option" where
  "expand_command file line [] = Some []"
| "expand_command file line [c] = (if c = CHR ''%'' then None else Some [c])"
| "expand_command file line (c # d # cs) =
     (if c = CHR ''%''
      then do {
        rest \<leftarrow> expand_command file line cs;
        Some ((if d = CHR ''f'' then (case file of None \<Rightarrow> [] | Some f \<Rightarrow> f)
               else if d = CHR ''l'' then signed_numeral (sint line)
               else if d = CHR ''%'' then ''%''
               else [CHR ''%'', d]) @ rest)
      }
      else map_option (\<lambda>rest. c # rest) (expand_command file line (d # cs)))"

fun nth_parent :: "(nref \<rightharpoonup> stack_node) \<Rightarrow> nref option \<Rightarrow> nat \<Rightarrow> nref option option" where
  "nth_parent m stack 0 = Some stack"
| "nth_parent m stack (Suc n) = do { r \<leftarrow> stack; nd \<leftarrow> m r; nth_parent m (sn_parent nd) n }"

text \<open>The command line that is executed, if the frame has a line at all.\<close>

definition leak_stack_run_command ::
    "env \<Rightarrow> (nref \<rightharpoonup> stack_node) \<Rightarrow> string option \<Rightarrow> nref option \<Rightarrow> nat \<Rightarrow> mp_process \<times> inode_state \<Rightarrow>
     (mp_process \<times> inode_state \<times> string option) option" where
  "leak_stack_run_command env m stack_command stack frame ps = do {
     stack \<leftarrow> nth_parent m stack frame;
     r \<leftarrow> stack;
     nd \<leftarrow> m r;
     (p, s, res) \<leftarrow> process_find_line env (sn_address nd) ps;
     (case res of None \<Rightarrow> Some (p, s, None)
      | Some (file, f, line) \<Rightarrow> do {
          format \<leftarrow> stack_command;
          command \<leftarrow> expand_command file line format;
          Some (p, s, Some (''/bin/sh -c '' @ command))
        })
   }"

section \<open>Saving\<close>

text \<open>
  The strings a save function has allocated and its static variable \<open>suggestion\<close>, a pointer to
  one of them. The dialog gets the suggestion and returns a new string or nothing.
\<close>

record save_state =
  sv_suggestion :: "nat option"
  sv_strings :: "nat \<rightharpoonup> string"
  sv_next :: nat

definition g_free :: "nat \<Rightarrow> save_state \<Rightarrow> save_state option" where
  "g_free r s = (if sv_strings s r = None then None else Some (s\<lparr>sv_strings := (sv_strings s)(r := None)\<rparr>))"

text \<open>The part that \<open>save_leak_cb\<close> and \<open>save_profile_cb\<close> share; the result is the text suggested and the file to write.\<close>

definition save_file :: "string \<Rightarrow> string option \<Rightarrow> save_state \<Rightarrow> (save_state \<times> string \<times> string option) option" where
  "save_file proposal answer s = do {
     suggested \<leftarrow> (case sv_suggestion s of None \<Rightarrow> Some proposal | Some r \<Rightarrow> sv_strings s r);
     (case answer of None \<Rightarrow> Some (s, suggested, None)
      | Some name \<Rightarrow> do {
          let r = sv_next s;
          let s = s\<lparr>sv_strings := (sv_strings s)(r \<mapsto> name), sv_next := r + 1\<rparr>;
          s \<leftarrow> (case sv_suggestion s of None \<Rightarrow> Some s | Some old \<Rightarrow> g_free old s);
          let s = s\<lparr>sv_suggestion := Some r\<rparr>;
          s \<leftarrow> g_free r s;
          Some (s, suggested, Some name)
        })
   }"

definition save_leak_cb :: "string option \<Rightarrow> bref list \<Rightarrow> save_state \<Rightarrow> (save_state \<times> string option) option" where
  "save_leak_cb answer leaks s =
     (if leaks = [] then Some (s, None)
      else map_option (\<lambda>(s, _, file). (s, file)) (save_file ''memprof.leak'' answer s))"

definition save_profile_cb :: "string option \<Rightarrow> bool \<Rightarrow> save_state \<Rightarrow> (save_state \<times> string option) option" where
  "save_profile_cb answer has_profile s =
     (if \<not> has_profile then Some (s, None)
      else map_option (\<lambda>(s, _, file). (s, file)) (save_file ''memprof.out'' answer s))"

end
