(* ===== verification/Windows.thy ===== *)
theory Windows
  imports Server Status_Page Leak_View
begin

text \<open>
  The windows of the profiler (src/main.c) and the window with the tree of processes (src/tree.c):
  how they come, follow their process and go, and what their buttons do to it.

  A window is named by a reference; a freed one is gone from \<open>g_windows\<close>. The rows of the tree
  are those of the \<open>GtkTreeStore\<close>: each holds a window and has its children in order.
\<close>

section \<open>State\<close>

type_synonym wref = nat

datatype tree_row = Tree_Row (row_window: wref) (row_children: "tree_row list")

record gui =
  g_world :: world
  g_windows :: "wref \<rightharpoonup> process_window"
  g_list :: "wref list"
  g_next :: nat
  g_rows :: "tree_row list"
  g_tree_visible :: bool
  g_quit :: bool
  g_default_follow_fork :: bool
  g_default_follow_exec :: bool

definition put_window :: "wref \<Rightarrow> process_window \<Rightarrow> gui \<Rightarrow> gui" where
  "put_window r pw g = g\<lparr>g_windows := (g_windows g)(r \<mapsto> pw)\<rparr>"

text \<open>The process of a window that exists; an invalid pointer is undefined.\<close>

definition process_of :: "world \<Rightarrow> process_window \<Rightarrow> mp_process option option" where
  "process_of w pw = (case pw_process pw of None \<Rightarrow> Some None | Some i \<Rightarrow> map_option Some (w_procs w i))"

section \<open>The tree of processes\<close>

text \<open>\<open>find_by_process_recurse\<close>: a row before its children, the children in order; a row is named by its path.\<close>

definition row_process :: "(wref \<rightharpoonup> process_window) \<Rightarrow> tree_row \<Rightarrow> pref option option" where
  "row_process m row = map_option pw_process (m (row_window row))"

fun find_row :: "(wref \<rightharpoonup> process_window) \<Rightarrow> pref option \<Rightarrow> tree_row \<Rightarrow> nat list option option"
  and find_rows :: "(wref \<rightharpoonup> process_window) \<Rightarrow> pref option \<Rightarrow> nat \<Rightarrow> tree_row list \<Rightarrow> nat list option option" where
  "find_row m process (Tree_Row r rows) = do {
     q \<leftarrow> row_process m (Tree_Row r rows);
     if q = process then Some (Some []) else find_rows m process 0 rows
   }"
| "find_rows m process n [] = Some None"
| "find_rows m process n (row # rows) = do {
     found \<leftarrow> find_row m process row;
     (case found of Some path \<Rightarrow> Some (Some (n # path)) | None \<Rightarrow> find_rows m process (n + 1) rows)
   }"

definition find_by_process :: "(wref \<rightharpoonup> process_window) \<Rightarrow> pref option \<Rightarrow> tree_row list \<Rightarrow> nat list option option" where
  "find_by_process m process rows = find_rows m process 0 rows"

text \<open>Appending below a row, the children of a row, and removing a row with all below it.\<close>

fun append_at :: "nat list \<Rightarrow> tree_row list \<Rightarrow> tree_row list \<Rightarrow> tree_row list" where
  "append_at [] new rows = rows @ new"
| "append_at (i # path) new rows =
     (if i < length rows
      then rows[i := Tree_Row (row_window (rows ! i)) (append_at path new (row_children (rows ! i)))]
      else rows)"

fun children_at :: "nat list \<Rightarrow> tree_row list \<Rightarrow> tree_row list" where
  "children_at [] rows = rows"
| "children_at (i # path) rows = (if i < length rows then children_at path (row_children (rows ! i)) else [])"

fun remove_at :: "nat list \<Rightarrow> tree_row list \<Rightarrow> tree_row list" where
  "remove_at [] rows = rows"
| "remove_at [i] rows = take i rows @ drop (Suc i) rows"
| "remove_at (i # path) rows =
     (if i < length rows
      then rows[i := Tree_Row (row_window (rows ! i)) (remove_at path (row_children (rows ! i)))]
      else rows)"

text \<open>The row is looked for by the process itself, not by its parent.\<close>

definition tree_window_add :: "wref \<Rightarrow> gui \<Rightarrow> gui option" where
  "tree_window_add r g = do {
     pw \<leftarrow> g_windows g r;
     i \<leftarrow> pw_process pw;
     p \<leftarrow> w_procs (g_world g) i;
     parent \<leftarrow> (if p_parent p \<noteq> None then find_by_process (g_windows g) (pw_process pw) (g_rows g) else Some None);
     Some (g\<lparr>g_rows := append_at (case parent of None \<Rightarrow> [] | Some path \<Rightarrow> path) [Tree_Row r []] (g_rows g)\<rparr>)
   }"

text \<open>What a row says about its process, and when it is brought up to date.\<close>

definition update_process :: "string \<Rightarrow> wref \<Rightarrow> gui \<Rightarrow> (int \<times> string \<times> string) option" where
  "update_process cmdline r g = do {
     pw \<leftarrow> g_windows g r;
     i \<leftarrow> pw_process pw;
     p \<leftarrow> w_procs (g_world g) i;
     Some (sint (p_pid p), cmdline, process_get_status_text (p_status p))
   }"

fun row_at :: "nat list \<Rightarrow> tree_row list \<Rightarrow> tree_row option" where
  "row_at [] rows = None"
| "row_at [i] rows = (if i < length rows then Some (rows ! i) else None)"
| "row_at (i # path) rows = (if i < length rows then row_at path (row_children (rows ! i)) else None)"

definition tree_status_changed_cb :: "string \<Rightarrow> pref \<Rightarrow> gui \<Rightarrow> (nat list \<times> int \<times> string \<times> string) option option" where
  "tree_status_changed_cb cmdline i g = do {
     found \<leftarrow> find_by_process (g_windows g) (Some i) (g_rows g);
     (case found of None \<Rightarrow> Some None
      | Some path \<Rightarrow> do {
          row \<leftarrow> row_at path (g_rows g);
          texts \<leftarrow> update_process cmdline (row_window row) g;
          Some (Some (path, texts))
        })
   }"

text \<open>
  \<open>copy_children_to_grandparent\<close>: the subtrees below the row are copied behind the children of
  its parent. If no row has the process the iterator is used without a value.
\<close>

definition copy_children_to_grandparent :: "nat list \<Rightarrow> tree_row list \<Rightarrow> tree_row list" where
  "copy_children_to_grandparent path rows = append_at (butlast path) (children_at path rows) rows"

definition tree_window_remove :: "wref \<Rightarrow> gui \<Rightarrow> gui option" where
  "tree_window_remove r g = do {
     pw \<leftarrow> g_windows g r;
     found \<leftarrow> find_by_process (g_windows g) (pw_process pw) (g_rows g);
     path \<leftarrow> found;
     Some (g\<lparr>g_rows := remove_at path (copy_children_to_grandparent path (g_rows g))\<rparr>)
   }"

definition tree_window_show :: "gui \<Rightarrow> gui" where
  "tree_window_show g = g\<lparr>g_tree_visible := True\<rparr>"

section \<open>Showing and hiding\<close>

text \<open>
  \<open>tops\<close> is \<open>gtk_window_list_toplevels\<close>: the windows of the toolkit, in its order, which is not that
  of \<open>g_list\<close>; there may be others, as the dialogs. The loop of \<open>check_quit\<close> goes over the list, but asks
  the first of it every time: either the first turn returns or all of them run for nothing.
\<close>

datatype toplevel = Tree_Window | Process_Toplevel wref | Other_Toplevel bool

fun toplevel_visible :: "gui \<Rightarrow> toplevel \<Rightarrow> bool" where
  "toplevel_visible g Tree_Window = g_tree_visible g"
| "toplevel_visible g (Process_Toplevel r) = (case g_windows g r of None \<Rightarrow> False | Some pw \<Rightarrow> pw_visible pw)"
| "toplevel_visible g (Other_Toplevel visible) = visible"

fun some_visible :: "gui \<Rightarrow> toplevel list \<Rightarrow> toplevel list \<Rightarrow> bool" where
  "some_visible g toplevels [] = False"
| "some_visible g toplevels (t # ts) = (toplevel_visible g (hd toplevels) \<or> some_visible g toplevels ts)"

definition check_quit :: "(gui \<Rightarrow> toplevel list) \<Rightarrow> gui \<Rightarrow> gui" where
  "check_quit tops g =
     (let toplevels = tops g in if some_visible g toplevels toplevels then g else g\<lparr>g_quit := True\<rparr>)"

definition process_window_visible :: "wref \<Rightarrow> gui \<Rightarrow> bool option" where
  "process_window_visible r g = map_option pw_visible (g_windows g r)"

definition process_window_show :: "wref \<Rightarrow> gui \<Rightarrow> gui option" where
  "process_window_show r g = map_option (\<lambda>pw. put_window r (pw\<lparr>pw_visible := True\<rparr>) g) (g_windows g r)"

definition hide_and_check_quit :: "(gui \<Rightarrow> toplevel list) \<Rightarrow> wref \<Rightarrow> gui \<Rightarrow> gui option" where
  "hide_and_check_quit tops r g = map_option (\<lambda>pw. check_quit tops (put_window r (pw\<lparr>pw_visible := False\<rparr>) g)) (g_windows g r)"

definition process_window_hide :: "(gui \<Rightarrow> toplevel list) \<Rightarrow> wref \<Rightarrow> gui \<Rightarrow> gui option" where
  "process_window_hide tops r g = do {
     visible \<leftarrow> process_window_visible r g;
     if visible then hide_and_check_quit tops r g else Some g
   }"

text \<open>The tree window is hidden when it is closed.\<close>

definition tree_window_hide :: "(gui \<Rightarrow> toplevel list) \<Rightarrow> gui \<Rightarrow> gui" where
  "tree_window_hide tops g = check_quit tops (g\<lparr>g_tree_visible := False\<rparr>)"

section \<open>Coming and going\<close>

definition new_window :: "gui \<Rightarrow> gui \<times> wref" where
  "new_window g = (let r = g_next g
     in (g\<lparr>g_windows := (g_windows g)(r \<mapsto> process_window_new), g_list := r # g_list g, g_next := r + 1\<rparr>, r))"

definition init_process_window :: "wref \<Rightarrow> pref \<Rightarrow> gui \<Rightarrow> gui option" where
  "init_process_window r i g = do {
     pw \<leftarrow> g_windows g r;
     let g = put_window r (pw\<lparr>pw_process := Some i, pw_draw_memmap := True, pw_timeout := True\<rparr>) g;
     w \<leftarrow> modify i (process_set_follow_exec (g_default_follow_exec g) \<circ> process_set_follow_fork (g_default_follow_fork g)) (g_world g);
     tree_window_add r (g\<lparr>g_world := w\<rparr>)
   }"

text \<open>\<open>process_created_cb\<close>: the server has made a process that follows from another.\<close>

definition process_created_cb :: "pref \<Rightarrow> gui \<Rightarrow> gui option" where
  "process_created_cb i g = do {
     let (g, r) = new_window g;
     g \<leftarrow> init_process_window r i g;
     Some (tree_window_show g)
   }"

text \<open>
  \<open>process_window_free\<close> runs when the main window is destroyed. The process is not released,
  and its signals stay connected.
\<close>

definition process_window_free :: "wref \<Rightarrow> gui \<Rightarrow> gui option" where
  "process_window_free r g = do {
     pw \<leftarrow> g_windows g r;
     (case pw_profile pw of None \<Rightarrow> Some Map.empty | Some pr \<Rightarrow> profile_free (pr_roots pr) (pr_nodes pr));
     let g = g\<lparr>g_list := remove1 r (g_list g), g_windows := (g_windows g)(r := None)\<rparr>;
     Some (if g_list g = [] then g\<lparr>g_quit := True\<rparr> else g)
   }"

definition process_window_destroy :: "(gui \<Rightarrow> toplevel list) \<Rightarrow> wref \<Rightarrow> gui \<Rightarrow> gui option" where
  "process_window_destroy tops r g = map_option (check_quit tops) (process_window_free r g)"

text \<open>\<open>cmdline\<close> is what \<open>process_get_cmdline\<close> reads from \<open>/proc\<close>.\<close>

definition status_changed_cb :: "(gui \<Rightarrow> toplevel list) \<Rightarrow> string \<Rightarrow> pref \<Rightarrow> wref \<Rightarrow> gui \<Rightarrow> gui option" where
  "status_changed_cb tops cmdline i r g = do {
     p \<leftarrow> w_procs (g_world g) i;
     if p_status p = MP_PROCESS_DEFUNCT \<or> p_status p = MP_PROCESS_DETACHED
     then do {
       g \<leftarrow> tree_window_remove r g;
       if 1 < length (g_list g) then process_window_destroy tops r g
       else do {
         pw \<leftarrow> g_windows g r;
         pw \<leftarrow> process_window_reset None (pw\<lparr>pw_process := None, pw_timeout := False\<rparr>);
         Some (put_window r pw g)
       }
     }
     else do {
       pw \<leftarrow> g_windows g r;
       Some (put_window r (pw\<lparr>pw_title := ''MemProf - '' @ cmdline @ '' ('' @ signed_numeral (sint (p_pid p)) @ '') - '' @
         process_get_status_text (p_status p)\<rparr>) g)
     }
   }"

definition reset_cb :: "wref \<Rightarrow> gui \<Rightarrow> gui option" where
  "reset_cb r g = do {
     pw \<leftarrow> g_windows g r;
     process \<leftarrow> process_of (g_world g) pw;
     pw \<leftarrow> process_window_reset process pw;
     Some (put_window r pw g)
   }"

section \<open>Running a program\<close>

text \<open>
  \<open>process_find_exec\<close>: \<open>file_exists\<close> is \<open>g_file_test\<close>, \<open>build\<close> is \<open>g_build_filename\<close>, \<open>path\<close> the
  variable \<open>PATH\<close>; \<open>g_strsplit\<close>
  cuts a string at a delimiter of one character.
\<close>

fun g_strsplit :: "char \<Rightarrow> string \<Rightarrow> string list" where
  "g_strsplit d [] = []"
| "g_strsplit d (c # cs) =
     (if c = d then [] # (case g_strsplit d cs of [] \<Rightarrow> [[]] | p # ps \<Rightarrow> p # ps)
      else (case g_strsplit d cs of [] \<Rightarrow> [[c]] | p # ps \<Rightarrow> (c # p) # ps))"

fun first_existing :: "(string \<Rightarrow> bool) \<Rightarrow> (string \<Rightarrow> string \<Rightarrow> string) \<Rightarrow> string \<Rightarrow> string list \<Rightarrow> string option" where
  "first_existing file_exists build name [] = None"
| "first_existing file_exists build name (d # ds) =
     (let path = build d name in
      if file_exists path then Some path else first_existing file_exists build name ds)"

definition process_find_exec ::
    "(string \<Rightarrow> bool) \<Rightarrow> (string \<Rightarrow> string \<Rightarrow> string) \<Rightarrow> string option \<Rightarrow> string \<Rightarrow> string option" where
  "process_find_exec file_exists build path name =
     (if file_exists name then (if take 1 name \<noteq> ''/'' then Some (''./'' @ name) else Some name)
      else (case path of None \<Rightarrow> None | Some path \<Rightarrow> first_existing file_exists build name (g_strsplit CHR '':'' path)))"

definition process_parse_exec :: "string \<Rightarrow> string list" where
  "process_parse_exec text = g_strsplit CHR '' '' text"

text \<open>
  \<open>find_exec\<close> is \<open>process_find_exec\<close>; \<open>instrumented\<close> is the result of \<open>mp_server_instrument\<close> for the process.
\<close>

definition run_file ::
    "env \<Rightarrow> (string \<Rightarrow> string option) \<Rightarrow> (pid \<times> string list) option \<Rightarrow> wref \<Rightarrow> string list \<Rightarrow> gui \<Rightarrow>
     (gui \<times> bool) option" where
  "run_file env find_exec instrumented r args g =
     (case args of [] \<Rightarrow> Some (g, False)
      | name # rest \<Rightarrow> (case find_exec name of
          None \<Rightarrow> Some (g, False)
        | Some file \<Rightarrow> do {
            let (w, i) = process_new (g_world g);
            w \<leftarrow> process_run env file instrumented i w;
            let g = g\<lparr>g_world := w\<rparr>;
            pw \<leftarrow> g_windows g r;
            let (g, r) = (if pw_process pw \<noteq> None then apfst tree_window_show (new_window g) else (g, r));
            g \<leftarrow> init_process_window r i g;
            g \<leftarrow> process_window_show r g;
            Some (g, True)
          }))"

text \<open>
  The dialog that asks for a program is shown again until one is run; an answer is the text the user
  has entered, or \<open>None\<close> if the dialog is left or has no text.
\<close>

fun run_cb ::
    "env \<Rightarrow> (string \<Rightarrow> string option) \<Rightarrow> (pid \<times> string list) option \<Rightarrow> wref \<Rightarrow> string option list \<Rightarrow> gui \<Rightarrow> gui option" where
  "run_cb env find_exec instrumented r [] g = Some g"
| "run_cb env find_exec instrumented r (answer # answers) g =
     (case answer of None \<Rightarrow> Some g
      | Some t \<Rightarrow> do {
          (g, result) \<leftarrow> run_file env find_exec instrumented r (process_parse_exec t) g;
          if result then Some g else run_cb env find_exec instrumented r answers g
        })"

text \<open>A new window takes three quarters of its monitor.\<close>

definition default_size :: "nat \<Rightarrow> nat \<Rightarrow> nat \<times> nat" where
  "default_size width height = (width * 3 div 4, height * 3 div 4)"

section \<open>The buttons\<close>

definition close_cb :: "(gui \<Rightarrow> toplevel list) \<Rightarrow> wref \<Rightarrow> gui \<Rightarrow> gui option" where
  "close_cb tops r g = hide_and_check_quit tops r g"

definition process_tree_cb :: "gui \<Rightarrow> gui" where
  "process_tree_cb g = tree_window_show g"

definition g_lift :: "(world \<Rightarrow> world option) \<Rightarrow> gui \<Rightarrow> gui option" where
  "g_lift f g = map_option (\<lambda>w. g\<lparr>g_world := w\<rparr>) (f (g_world g))"

fun unref_leaks :: "bref list \<Rightarrow> world \<Rightarrow> world option" where
  "unref_leaks [] w = Some w"
| "unref_leaks (r # rs) w = do { h \<leftarrow> block_unref r (w_blocks w); unref_leaks rs (w\<lparr>w_blocks := h\<rparr>) }"

fun sum_leaks :: "block_heap \<Rightarrow> bref list \<Rightarrow> u32 \<Rightarrow> u32 option" where
  "sum_leaks h [] n = Some n"
| "sum_leaks h (r # rs) n = do { b \<leftarrow> blocks h r; sum_leaks h rs (n + b_size b) }"

text \<open>\<open>search\<close> is \<open>leaks_find\<close> and \<open>fill\<close> is \<open>leaks_fill\<close>, with what they take from the environment.\<close>

definition generate_leak_cb ::
    "(pref \<Rightarrow> world \<Rightarrow> (world \<times> bref list) option) \<Rightarrow> (pref \<Rightarrow> bref list \<Rightarrow> world \<Rightarrow> (world \<times> leak_row list) option) \<Rightarrow>
     wref \<Rightarrow> gui \<Rightarrow> (gui \<times> leak_row list) option" where
  "generate_leak_cb search fill r g = do {
     pw \<leftarrow> g_windows g r;
     (case pw_process pw of None \<Rightarrow> Some (g, [])
      | Some i \<Rightarrow> do {
          w \<leftarrow> process_stop_input i (g_world g);
          w \<leftarrow> unref_leaks (pw_leaks pw) w;
          (w, leaks) \<leftarrow> search i w;
          leaked \<leftarrow> sum_leaks (w_blocks w) leaks 0;
          (w, rows) \<leftarrow> fill i leaks w;
          w \<leftarrow> process_start_input i w;
          Some (put_window r (pw\<lparr>pw_leaks := leaks, pw_usage_leaked := leaked, pw_page := 1\<rparr>) (g\<lparr>g_world := w\<rparr>), rows)
        })
   }"

text \<open>\<open>create\<close> is \<open>profile_create\<close>.\<close>

definition generate_profile_cb ::
    "profile_type \<Rightarrow> (pref \<Rightarrow> world \<Rightarrow> (world \<times> profile) option) \<Rightarrow> wref \<Rightarrow> gui \<Rightarrow> (gui \<times> func_row list) option" where
  "generate_profile_cb ty create r g = do {
     pw \<leftarrow> g_windows g r;
     (case pw_process pw of None \<Rightarrow> Some (g, [])
      | Some i \<Rightarrow> do {
          p \<leftarrow> w_procs (g_world g) i;
          let was_recording = process_is_recording p;
          w \<leftarrow> process_stop_input i (g_world g);
          (case pw_profile pw of None \<Rightarrow> Some Map.empty | Some pr \<Rightarrow> profile_free (pr_roots pr) (pr_nodes pr));
          (w, pr) \<leftarrow> create i w;
          w \<leftarrow> (if was_recording then process_start_input i w else Some w);
          rows \<leftarrow> profile_fill ty pr;
          Some (put_window r (pw\<lparr>pw_profile := Some pr, pw_page := 0\<rparr>) (g\<lparr>g_world := w\<rparr>), rows)
        })
   }"

definition reset_profile_cb :: "((ptr \<rightharpoonup> bref) \<Rightarrow> ptr list) \<Rightarrow> wref \<Rightarrow> gui \<Rightarrow> gui option" where
  "reset_profile_cb enum r g = do {
     g \<leftarrow> reset_cb r g;
     pw \<leftarrow> g_windows g r;
     (case pw_process pw of None \<Rightarrow> Some g | Some i \<Rightarrow> g_lift (process_clear_input enum i) g)
   }"

text \<open>The button does not ask whether the window has a process.\<close>

definition record_button_toggled_cb :: "bool \<Rightarrow> wref \<Rightarrow> gui \<Rightarrow> gui option" where
  "record_button_toggled_cb active r g = do {
     pw \<leftarrow> g_windows g r;
     i \<leftarrow> pw_process pw;
     g_lift (if active then process_start_input i else process_stop_input i) g
   }"

definition draw_memmap_toggled_cb :: "bool \<Rightarrow> wref \<Rightarrow> gui \<Rightarrow> gui option" where
  "draw_memmap_toggled_cb active r g = do {
     pw \<leftarrow> g_windows g r;
     process \<leftarrow> process_of (g_world g) pw;
     Some (put_window r (dw_update process (pw\<lparr>pw_draw_memmap := active\<rparr>)) g)
   }"

text \<open>\<open>yes\<close> is the answer to the question the program asks.\<close>

definition process_window_maybe_detach :: "bool \<Rightarrow> wref \<Rightarrow> gui \<Rightarrow> gui option" where
  "process_window_maybe_detach yes r g = do {
     pw \<leftarrow> g_windows g r;
     i \<leftarrow> pw_process pw;
     p \<leftarrow> w_procs (g_world g) i;
     if yes then g_lift (process_detach i) g else Some g
   }"

definition process_window_maybe_kill :: "bool \<Rightarrow> wref \<Rightarrow> gui \<Rightarrow> gui option" where
  "process_window_maybe_kill yes r g = do {
     pw \<leftarrow> g_windows g r;
     i \<leftarrow> pw_process pw;
     p \<leftarrow> w_procs (g_world g) i;
     if p_status p = MP_PROCESS_EXITING then process_window_maybe_detach yes r g
     else if yes then g_lift (process_kill i) g else Some g
   }"

definition kill_cb :: "bool \<Rightarrow> wref \<Rightarrow> gui \<Rightarrow> gui option" where
  "kill_cb yes r g = do {
     pw \<leftarrow> g_windows g r;
     if pw_process pw \<noteq> None then process_window_maybe_kill yes r g else Some g
   }"

definition detach_cb :: "bool \<Rightarrow> wref \<Rightarrow> gui \<Rightarrow> gui option" where
  "detach_cb yes r g = do {
     pw \<leftarrow> g_windows g r;
     if pw_process pw \<noteq> None then process_window_maybe_detach yes r g else Some g
   }"

text \<open>Saving goes by the page that is shown.\<close>

definition save_current_cb ::
    "string option \<Rightarrow> wref \<Rightarrow> gui \<Rightarrow> save_state \<times> save_state \<Rightarrow> ((save_state \<times> save_state) \<times> string option) option" where
  "save_current_cb answer r g s = do {
     pw \<leftarrow> g_windows g r;
     (if pw_page pw = 0
      then map_option (\<lambda>(s', file). ((s', snd s), file)) (save_profile_cb answer (pw_profile pw \<noteq> None) (fst s))
      else if pw_page pw = 1
      then map_option (\<lambda>(s', file). ((fst s, s'), file)) (save_leak_cb answer (pw_leaks pw) (snd s))
      else Some (s, None))
   }"

section \<open>The menu of the tree\<close>

definition show_cb :: "wref \<Rightarrow> gui \<Rightarrow> gui option" where
  "show_cb r g = process_window_show r g"

definition hide_cb :: "(gui \<Rightarrow> toplevel list) \<Rightarrow> wref \<Rightarrow> gui \<Rightarrow> gui option" where
  "hide_cb tops r g = process_window_hide tops r g"

text \<open>Unlike the menus of a window, those of the tree do not ask whether there is a process.\<close>

definition tree_detach_cb :: "bool \<Rightarrow> wref \<Rightarrow> gui \<Rightarrow> gui option" where
  "tree_detach_cb yes r g = process_window_maybe_detach yes r g"

definition tree_kill_cb :: "bool \<Rightarrow> wref \<Rightarrow> gui \<Rightarrow> gui option" where
  "tree_kill_cb yes r g = process_window_maybe_kill yes r g"

text \<open>
  Which of the items Show and Hide can be chosen, for the row under the pointer (\<open>path\<close>, if there
  is one); a row that is activated is shown.
\<close>

definition popup_menu :: "wref \<Rightarrow> gui \<Rightarrow> (bool \<times> bool) option" where
  "popup_menu r g = map_option (\<lambda>visible. (\<not> visible, visible)) (process_window_visible r g)"

definition button_press_cb :: "nat \<Rightarrow> nat list option \<Rightarrow> gui \<Rightarrow> (wref \<times> bool \<times> bool) option option" where
  "button_press_cb button path g =
     (if button = 3
      then (case path of None \<Rightarrow> Some None
        | Some path \<Rightarrow> do {
            row \<leftarrow> row_at path (g_rows g);
            items \<leftarrow> popup_menu (row_window row) g;
            Some (Some (row_window row, items))
          })
      else Some None)"

definition row_activated_cb :: "nat list \<Rightarrow> gui \<Rightarrow> gui option" where
  "row_activated_cb path g = do { row \<leftarrow> row_at path (g_rows g); process_window_show (row_window row) g }"

section \<open>Command lines\<close>

text \<open>
  \<open>process_get_cmdline\<close>: \<open>read_line\<close> is the first line of the file, \<open>None\<close> if it cannot be
  opened, \<open>Some None\<close> if it has no line. The arguments in it are separated by null bytes, and
  the copy ends at the first.
\<close>

definition process_get_cmdline :: "(pid \<Rightarrow> string option option) \<Rightarrow> mp_process \<Rightarrow> string" where
  "process_get_cmdline read_line p =
     (if p_status p = MP_PROCESS_DEFUNCT then []
      else (case read_line (p_pid p) of None \<Rightarrow> [] | Some None \<Rightarrow> []
        | Some (Some l) \<Rightarrow> takeWhile (\<lambda>c. c \<noteq> CHR 0x00) l))"

end
