(* ===== verification/Status_Page_Inv.thy ===== *)
theory Status_Page_Inv
  imports Status_Page
begin

text \<open>
  The meters of a window: its history, and the scale of its bars, which doubles until it holds the
  live bytes.
\<close>

section \<open>The history\<close>

lemma length_shift_up [simp]: "length (shift_up i xs) = length xs"
  by (induction i xs rule: shift_up.induct) auto



section \<open>The scale of the bars\<close>

definition scale_ok :: "u32 \<Rightarrow> bool" where
  "scale_ok n \<longleftrightarrow> (\<exists>k. 15 \<le> k \<and> k \<le> 31 \<and> n = 2 ^ k)"






section \<open>Properties\<close>

definition window_ok :: "process_window \<Rightarrow> bool" where
  "window_ok pw \<longleftrightarrow> scale_ok (pw_usage_max pw) \<and> pw_usage_high pw \<le> pw_usage_max pw \<and> length (pw_memstats pw) = MEMSTATS"


lemma dw_update_simps [simp]:
  "pw_usage_max (dw_update p pw) = pw_usage_max pw" "pw_usage_high (dw_update p pw) = pw_usage_high pw"
  "pw_process (dw_update p pw) = pw_process pw" "length (pw_memstats (dw_update p pw)) = length (pw_memstats pw)"
  "pw_profile (dw_update p pw) = pw_profile pw" "pw_leaks (dw_update p pw) = pw_leaks pw"
  "pw_visible (dw_update p pw) = pw_visible pw"
  by (simp_all add: dw_update_def split: option.split)

lemma process_window_new_ok: "window_ok process_window_new"
proof -
  have "scale_ok 32768" unfolding scale_ok_def by (intro exI [of _ 15]) simp
  then show ?thesis by (simp add: window_ok_def process_window_new_def)
qed

lemma process_window_reset_ok: "window_ok pw \<Longrightarrow> process_window_reset p pw = Some pw' \<Longrightarrow> window_ok pw'"
  using process_window_new_ok
  by (auto simp: process_window_reset_def window_ok_def process_window_new_def bind_eq_Some split: option.splits)




end
