(* ===== verification/Windows_Inv.thy ===== *)
theory Windows_Inv
  imports Windows Status_Page_Inv World_Inv
begin

text \<open>
  The windows and the tree of processes agree: an invariant of everything the user interface does
  (the buttons, the signals of the processes, new processes), by induction over its steps.
\<close>

section \<open>Finding and removing rows\<close>

definition flat_rows :: "(wref \<rightharpoonup> process_window) \<Rightarrow> tree_row list \<Rightarrow> bool" where
  "flat_rows m rows \<longleftrightarrow> list_all (\<lambda>row. row_children row = [] \<and> m (row_window row) \<noteq> None) rows"

lemma find_rows_flat:
  assumes "flat_rows m rows"
  shows "\<exists>found. find_rows m q n rows = Some found \<and>
    (case found of None \<Rightarrow> \<forall>row \<in> set rows. row_process m row \<noteq> Some q
     | Some path \<Rightarrow> \<exists>k < length rows. path = [n + k] \<and> row_process m (rows ! k) = Some q)"
  using assms
proof (induction rows arbitrary: n)
  case Nil
  then show ?case by simp
next
  case (Cons row rows)
  obtain r cs where row: "row = Tree_Row r cs" by (cases row)
  then have cs: "cs = []" and ex: "m r \<noteq> None" using Cons.prems by (simp_all add: flat_rows_def)
  obtain p where p: "row_process m row = Some p" using ex by (auto simp: row_process_def row)
  have flat: "flat_rows m rows" using Cons.prems by (simp add: flat_rows_def)
  show ?case
  proof (cases "p = q")
    case True
    then show ?thesis using p by (intro exI [of _ "Some [n]"]) (auto simp: row cs intro!: exI [of _ 0])
  next
    case False
    then have f: "find_row m q row = Some None" using p by (simp add: row cs)
    from Cons.IH [OF flat, of "Suc n"] obtain found where found: "find_rows m q (Suc n) rows = Some found"
      "case found of None \<Rightarrow> \<forall>row \<in> set rows. row_process m row \<noteq> Some q
       | Some path \<Rightarrow> \<exists>k < length rows. path = [Suc n + k] \<and> row_process m (rows ! k) = Some q" by blast
    have "find_rows m q n (row # rows) = Some found" using f found(1) by simp
    moreover have "case found of None \<Rightarrow> \<forall>row \<in> set (row # rows). row_process m row \<noteq> Some q
       | Some path \<Rightarrow> \<exists>k < length (row # rows). path = [n + k] \<and> row_process m ((row # rows) ! k) = Some q"
    proof (cases found)
      case None
      then show ?thesis using found(2) p False by simp
    next
      case (Some path)
      then obtain k where "k < length rows" "path = [Suc n + k]" "row_process m (rows ! k) = Some q" using found(2) by auto
      then show ?thesis using Some by (auto intro!: exI [of _ "Suc k"])
    qed
    ultimately show ?thesis by blast
  qed
qed

section \<open>The invariant\<close>

text \<open>
  Every window is in the list of windows; the rows of the tree, none below another, are those of
  the windows that have a process; no two windows have the same one.
\<close>

definition gui_ok :: "gui \<Rightarrow> bool" where
  "gui_ok g \<longleftrightarrow> flat_rows (g_windows g) (g_rows g) \<and> distinct (map row_window (g_rows g)) \<and>
     (\<forall>r. r \<in> row_window ` set (g_rows g) \<longleftrightarrow> (\<exists>pw i. g_windows g r = Some pw \<and> pw_process pw = Some i)) \<and>
     distinct (g_list g) \<and> dom (g_windows g) = set (g_list g) \<and> (\<forall>r \<in> set (g_list g). r < g_next g) \<and>
     (\<forall>r s pw qw i. g_windows g r = Some pw \<and> g_windows g s = Some qw \<and> pw_process pw = Some i \<and> pw_process qw = Some i \<longrightarrow> r = s) \<and>
     (\<forall>r pw i. g_windows g r = Some pw \<and> pw_process pw = Some i \<longrightarrow> i < w_next_proc (g_world g))"

lemma gui_okD:
  assumes "gui_ok g"
  shows "flat_rows (g_windows g) (g_rows g)" "distinct (map row_window (g_rows g))"
    "r \<in> row_window ` set (g_rows g) \<longleftrightarrow> (\<exists>pw i. g_windows g r = Some pw \<and> pw_process pw = Some i)"
    "distinct (g_list g)" "dom (g_windows g) = set (g_list g)" "s \<in> set (g_list g) \<Longrightarrow> s < g_next g"
    "g_windows g r = Some pw \<Longrightarrow> g_windows g s = Some qw \<Longrightarrow> pw_process pw = Some i \<Longrightarrow> pw_process qw = Some i \<Longrightarrow> r = s"
    "g_windows g r = Some pw \<Longrightarrow> pw_process pw = Some i \<Longrightarrow> i < w_next_proc (g_world g)"
  using assms unfolding gui_ok_def by blast+

lemma gui_okI:
  assumes "g_windows g = m" "g_rows g = rows" "g_list g = rs" "g_next g = n" "w_next_proc (g_world g) = np"
    "flat_rows m rows" "distinct (map row_window rows)"
    "\<And>r. r \<in> row_window ` set rows \<longleftrightarrow> (\<exists>pw i. m r = Some pw \<and> pw_process pw = Some i)"
    "distinct rs" "dom m = set rs" "\<And>s. s \<in> set rs \<Longrightarrow> s < n"
    "\<And>r s pw qw i. m r = Some pw \<Longrightarrow> m s = Some qw \<Longrightarrow> pw_process pw = Some i \<Longrightarrow> pw_process qw = Some i \<Longrightarrow> r = s"
    "\<And>r pw i. m r = Some pw \<Longrightarrow> pw_process pw = Some i \<Longrightarrow> i < np"
  shows "gui_ok g"
  unfolding gui_ok_def assms(1-5) using assms(6-13) by (intro conjI allI ballI impI) (elim conjE, assumption | simp only: | blast)+

text \<open>What does not touch the processes of the windows.\<close>

definition same_windows :: "gui \<Rightarrow> gui \<Rightarrow> bool" where
  "same_windows g g' \<longleftrightarrow> g_rows g' = g_rows g \<and> g_list g' = g_list g \<and> g_next g' = g_next g \<and>
     (\<forall>r. map_option pw_process (g_windows g' r) = map_option pw_process (g_windows g r)) \<and>
     w_next_proc (g_world g) \<le> w_next_proc (g_world g')"

lemma same_windows_Some:
  assumes "same_windows g g'"
  shows "(\<exists>pw. g_windows g' r = Some pw \<and> pw_process pw = x) \<longleftrightarrow> (\<exists>pw. g_windows g r = Some pw \<and> pw_process pw = x)"
proof -
  have e: "map_option pw_process (g_windows g' r) = map_option pw_process (g_windows g r)" using assms by (simp add: same_windows_def)
  show ?thesis using e by (cases "g_windows g r"; cases "g_windows g' r") auto
qed

lemma same_windows_ok:
  assumes s: "same_windows g g'" and ok: "gui_ok g"
  shows "gui_ok g'"
proof -
  note e = same_windows_Some [OF s]
  have N: "g_windows g' r = None \<longleftrightarrow> g_windows g r = None" for r
    using s by (metis same_windows_def option.map_disc_iff)
  have next_proc: "w_next_proc (g_world g) \<le> w_next_proc (g_world g')" using s by (simp add: same_windows_def)
  have "flat_rows (g_windows g') (g_rows g')" using gui_okD(1) [OF ok] s N by (simp add: flat_rows_def same_windows_def)
  moreover have "dom (g_windows g') = set (g_list g')" using gui_okD(5) [OF ok] s N by (auto simp: same_windows_def dom_def)
  moreover have "r \<in> row_window ` set (g_rows g') \<longleftrightarrow> (\<exists>pw i. g_windows g' r = Some pw \<and> pw_process pw = Some i)" for r
    using gui_okD(3) [OF ok, of r] s e [of r "Some _"] unfolding same_windows_def by metis
  moreover have "r = s" if "g_windows g' r = Some pw" "g_windows g' s = Some qw" "pw_process pw = Some i" "pw_process qw = Some i"
    for r s pw qw i
    using gui_okD(7) [OF ok] e [of r "Some i"] e [of s "Some i"] that by metis
  moreover have "i < w_next_proc (g_world g')" if "g_windows g' r = Some pw" "pw_process pw = Some i" for r pw i
    using gui_okD(8) [OF ok] e [of r "Some i"] that next_proc by (metis less_le_trans)
  ultimately show ?thesis using gui_okD(2,4,6) [OF ok] s unfolding gui_ok_def same_windows_def by (auto; metis)
qed

lemma put_window_same:
  "g_windows g r = Some pw \<Longrightarrow> pw_process pw' = pw_process pw \<Longrightarrow> same_windows g (put_window r pw' g)"
  by (auto simp: same_windows_def put_window_def)

section \<open>Coming\<close>

lemma modify_next: "modify i f w = Some w' \<Longrightarrow> w_next_proc w' = w_next_proc w"
  by (auto simp: modify_def put_def)

lemma new_window_ok:
  assumes ok: "gui_ok g" and n: "new_window g = (g', r)"
  shows "gui_ok g'" "g_windows g' r = Some process_window_new" "g_world g' = g_world g"
    "g_windows g' s = Some pw \<Longrightarrow> s = r \<or> g_windows g s = Some pw"
proof -
  have fresh: "g_windows g (g_next g) = None"
    using gui_okD(5,6) [OF ok] by (metis domIff less_irrefl)
  have g': "g' = g\<lparr>g_windows := (g_windows g)(g_next g \<mapsto> process_window_new), g_list := g_next g # g_list g, g_next := g_next g + 1\<rparr>"
    "r = g_next g" using n by (auto simp: new_window_def Let_def)
  have none: "pw_process process_window_new = None" by (simp add: process_window_new_def)
  show "g_windows g' r = Some process_window_new" "g_world g' = g_world g"
    "g_windows g' s = Some pw \<Longrightarrow> s = r \<or> g_windows g s = Some pw" by (auto simp: g' split: if_splits)
  have "g_next g \<notin> set (g_list g)" using gui_okD(6) [OF ok] by blast
  moreover have "flat_rows ((g_windows g)(g_next g \<mapsto> process_window_new)) (g_rows g)"
    using gui_okD(1) [OF ok] by (auto simp: flat_rows_def list_all_iff)
  moreover have "r \<in> row_window ` set (g_rows g) \<longleftrightarrow>
      (\<exists>pw i. ((g_windows g)(g_next g \<mapsto> process_window_new)) r = Some pw \<and> pw_process pw = Some i)" for r
    using gui_okD(3) [OF ok, of r] fresh none by auto
  ultimately show "gui_ok g'"
    using gui_okD(2,4) [OF ok] gui_okD(5,6) [OF ok] gui_okD(7,8) [OF ok] none
    unfolding gui_ok_def g' by (auto simp: less_Suc_eq split: if_splits)
qed

lemma flat_rows_upd: "flat_rows m rows \<Longrightarrow> flat_rows (m(r \<mapsto> pw)) rows"
  by (auto simp: flat_rows_def list_all_iff)

lemma init_process_window_ok:
  assumes ok: "gui_ok g" and r: "g_windows g r = Some pw" "pw_process pw = None"
    and fresh: "\<And>s qw. g_windows g s = Some qw \<Longrightarrow> pw_process qw \<noteq> Some i" and i: "i < w_next_proc (g_world g)"
    and init: "init_process_window r i g = Some g'"
  shows "gui_ok g'"
proof -
  let ?pw = "pw\<lparr>pw_process := Some i, pw_draw_memmap := True, pw_timeout := True\<rparr>"
  let ?m = "(g_windows g)(r \<mapsto> ?pw)"
  from init r(1) obtain w where w: "modify i (process_set_follow_exec (g_default_follow_exec g) \<circ>
      process_set_follow_fork (g_default_follow_fork g)) (g_world g) = Some w"
    "tree_window_add r (put_window r ?pw g\<lparr>g_world := w\<rparr>) = Some g'"
    by (auto simp: init_process_window_def Let_def bind_eq_Some put_window_def)
  have flat: "flat_rows ?m (g_rows g)" using flat_rows_upd [OF gui_okD(1) [OF ok]] .
  have not_shown: "r \<notin> row_window ` set (g_rows g)" using gui_okD(3) [OF ok, of r] r by auto
  have others: "row_process ?m row \<noteq> Some (Some i)" if "row \<in> set (g_rows g)" for row
    using that not_shown fresh [of "row_window row"] by (auto simp: row_process_def)
  from find_rows_flat [OF flat, of "Some i" 0] obtain found where found: "find_rows ?m (Some i) 0 (g_rows g) = Some found"
    "case found of None \<Rightarrow> \<forall>row \<in> set (g_rows g). row_process ?m row \<noteq> Some (Some i)
     | Some path \<Rightarrow> \<exists>k < length (g_rows g). path = [0 + k] \<and> row_process ?m (g_rows g ! k) = Some (Some i)" by blast
  then have "found = None" using others by (cases found) (auto dest: nth_mem)
  then have g': "g' = (put_window r ?pw g)\<lparr>g_world := w, g_rows := g_rows g @ [Tree_Row r []]\<rparr>"
    using w(2) found(1) by (auto simp: tree_window_add_def put_window_def find_by_process_def bind_eq_Some split: if_splits)
  show ?thesis unfolding g' put_window_def
  proof (rule gui_okI, simp, simp, simp, simp, simp)
    show "flat_rows ?m (g_rows g @ [Tree_Row r []])" using flat by (simp add: flat_rows_def)
    show "distinct (map row_window (g_rows g @ [Tree_Row r []]))" using gui_okD(2) [OF ok] not_shown by simp
    show "s \<in> row_window ` set (g_rows g @ [Tree_Row r []]) \<longleftrightarrow> (\<exists>pw i. ?m s = Some pw \<and> pw_process pw = Some i)" for s
      using gui_okD(3) [OF ok, of s] by auto
    show "distinct (g_list g)" "s \<in> set (g_list g) \<Longrightarrow> s < g_next g" for s using gui_okD(4,6) [OF ok] by blast+
    show "dom ?m = set (g_list g)" using gui_okD(5) [OF ok] r(1) by auto
    show "s = t" if "?m s = Some pw" "?m t = Some qw" "pw_process pw = Some j" "pw_process qw = Some j" for s t pw qw j
      using that fresh gui_okD(7) [OF ok] by (auto split: if_splits)
    show "j < w_next_proc w" if "?m s = Some pw" "pw_process pw = Some j" for s pw j
      using that i gui_okD(8) [OF ok] modify_next [OF w(1)] by (auto split: if_splits)
  qed
qed

section \<open>Going\<close>

lemma remove_row_set:
  assumes "distinct (map row_window rows)" and "k < length rows"
  shows "row_window ` set (take k rows @ drop (Suc k) rows) = row_window ` set rows - {row_window (rows ! k)}"
proof -
  have d: "rows = take k rows @ rows ! k # drop (Suc k) rows" using assms(2) by (rule id_take_nth_drop)
  then have "distinct (map row_window (take k rows @ rows ! k # drop (Suc k) rows))" using assms(1) by simp
  then have "row_window (rows ! k) \<notin> row_window ` set (take k rows @ drop (Suc k) rows)" by auto
  moreover have "row_window ` set rows = insert (row_window (rows ! k)) (row_window ` set (take k rows @ drop (Suc k) rows))"
    by (subst d) (simp add: image_Un)
  ultimately show ?thesis by auto
qed

text \<open>The row of a window goes, the others stay as they are.\<close>

lemma tree_window_remove_ok:
  assumes ok: "gui_ok g" and r: "g_windows g r = Some pw" "pw_process pw = Some i" and rm: "tree_window_remove r g = Some g'"
  shows "\<exists>rows. g' = g\<lparr>g_rows := rows\<rparr> \<and> flat_rows (g_windows g) rows \<and> distinct (map row_window rows) \<and>
    row_window ` set rows = row_window ` set (g_rows g) - {r}"
proof -
  note flat = gui_okD(1) [OF ok]
  from find_rows_flat [OF flat, of "Some i" 0] rm r obtain k where k: "k < length (g_rows g)"
    "find_rows (g_windows g) (Some i) 0 (g_rows g) = Some (Some [k])" "row_process (g_windows g) (g_rows g ! k) = Some (Some i)"
    by (auto simp: tree_window_remove_def find_by_process_def bind_eq_Some)
  then have w: "row_window (g_rows g ! k) = r"
    using gui_okD(7) [OF ok, of "row_window (g_rows g ! k)" _ r pw i] r by (auto simp: row_process_def)
  have "row_children (g_rows g ! k) = []" using flat k(1) by (simp add: flat_rows_def list_all_length)
  then have g': "g' = g\<lparr>g_rows := take k (g_rows g) @ drop (Suc k) (g_rows g)\<rparr>"
    using rm r k(1,2) by (auto simp: tree_window_remove_def find_by_process_def copy_children_to_grandparent_def)
  let ?rows = "take k (g_rows g) @ drop (Suc k) (g_rows g)"
  have "flat_rows (g_windows g) ?rows" using flat by (auto simp: flat_rows_def list_all_iff dest: in_set_takeD in_set_dropD)
  moreover have "distinct (map row_window ?rows)"
  proof -
    have "distinct (map row_window (take k (g_rows g) @ g_rows g ! k # drop (Suc k) (g_rows g)))"
      using gui_okD(2) [OF ok] id_take_nth_drop [OF k(1)] by metis
    then show ?thesis by auto
  qed
  moreover have "row_window ` set ?rows = row_window ` set (g_rows g) - {r}"
    using remove_row_set [OF gui_okD(2) [OF ok] k(1)] w by simp
  ultimately show ?thesis using g' by blast
qed

lemma tree_window_remove_has:
  assumes ok: "gui_ok g" and rm: "tree_window_remove r g = Some g'"
  shows "\<exists>pw i. g_windows g r = Some pw \<and> pw_process pw = Some i"
proof -
  from rm obtain pw path where pw: "g_windows g r = Some pw" "find_rows (g_windows g) (pw_process pw) 0 (g_rows g) = Some (Some path)"
    by (auto simp: tree_window_remove_def find_by_process_def bind_eq_Some)
  with find_rows_flat [OF gui_okD(1) [OF ok], of "pw_process pw" 0] obtain row where row: "row \<in> set (g_rows g)"
    "row_process (g_windows g) row = Some (pw_process pw)" by (auto dest: nth_mem)
  then have "row_window row \<in> row_window ` set (g_rows g)" by blast
  with gui_okD(3) [OF ok, of "row_window row"] row(2) have "pw_process pw \<noteq> None" by (auto simp: row_process_def)
  with pw(1) show ?thesis by auto
qed

lemma reset_process: "process_window_reset p pw = Some pw' \<Longrightarrow> pw_process pw' = pw_process pw"
  by (auto simp: process_window_reset_def bind_eq_Some split: option.splits)

lemma destroy_cases:
  assumes "process_window_destroy tops r g = Some g'"
  defines "h \<equiv> g\<lparr>g_list := remove1 r (g_list g), g_windows := (g_windows g)(r := None)\<rparr>"
  shows "g' = h \<or> g' = h\<lparr>g_quit := True\<rparr>"
proof -
  from assms(1) obtain k where k: "process_window_free r g = Some k" "g' = check_quit tops k"
    by (auto simp: process_window_destroy_def)
  then have "k = h \<or> k = h\<lparr>g_quit := True\<rparr>"
    unfolding h_def process_window_free_def Let_def by (auto simp: bind_eq_Some split: if_splits)
  moreover have "g' = k \<or> g' = k\<lparr>g_quit := True\<rparr>" using k(2) by (simp add: check_quit_def Let_def)
  ultimately show ?thesis by auto
qed

text \<open>The window of a process that is gone loses its row and either goes or is empty.\<close>

lemma status_changed_ok:
  assumes ok: "gui_ok g" and st: "status_changed_cb tops cmdline j r g = Some g'"
  shows "gui_ok g'"
proof -
  obtain p where p: "w_procs (g_world g) j = Some p" using st by (auto simp: status_changed_cb_def bind_eq_Some)
  show ?thesis
  proof (cases "p_status p = MP_PROCESS_DEFUNCT \<or> p_status p = MP_PROCESS_DETACHED")
    case False
    with st p obtain pw title where "g_windows g r = Some pw" "g' = put_window r (pw\<lparr>pw_title := title\<rparr>) g"
      by (auto simp: status_changed_cb_def bind_eq_Some)
    then show ?thesis using same_windows_ok [OF put_window_same ok] by simp
  next
    case True
    with st p obtain g1 where g1: "tree_window_remove r g = Some g1"
      "(if 1 < length (g_list g1) then process_window_destroy tops r g1
        else do { pw \<leftarrow> g_windows g1 r;
          pw \<leftarrow> process_window_reset None (pw\<lparr>pw_process := None, pw_timeout := False\<rparr>);
          Some (put_window r pw g1) }) = Some g'"
      by (auto simp: status_changed_cb_def bind_eq_Some)
    from tree_window_remove_has [OF ok g1(1)] obtain pw i where r: "g_windows g r = Some pw" "pw_process pw = Some i" by blast
    from tree_window_remove_ok [OF ok r g1(1)] obtain rows where rows: "g1 = g\<lparr>g_rows := rows\<rparr>" "flat_rows (g_windows g) rows"
      "distinct (map row_window rows)" "row_window ` set rows = row_window ` set (g_rows g) - {r}" by blast
    have sel: "g_list g1 = g_list g" "g_windows g1 = g_windows g" unfolding rows(1) by simp_all
    show ?thesis
    proof (cases "1 < length (g_list g1)")
      case True
      let ?g = "g\<lparr>g_rows := rows, g_list := remove1 r (g_list g), g_windows := (g_windows g)(r := None)\<rparr>"
      have "gui_ok ?g"
      proof (rule gui_okI, simp, simp, simp, simp, simp)
        show "flat_rows ((g_windows g)(r := None)) rows"
          using rows(2,4) by (auto simp: flat_rows_def list_all_iff)
        show "distinct (map row_window rows)" by (rule rows(3))
        show "s \<in> row_window ` set rows \<longleftrightarrow> (\<exists>pw i. ((g_windows g)(r := None)) s = Some pw \<and> pw_process pw = Some i)" for s
          using gui_okD(3) [OF ok, of s] rows(4) by auto
        show "distinct (remove1 r (g_list g))" using gui_okD(4) [OF ok] by simp
        show "dom ((g_windows g)(r := None)) = set (remove1 r (g_list g))"
          using gui_okD(4,5) [OF ok] by auto
        show "s \<in> set (remove1 r (g_list g)) \<Longrightarrow> s < g_next g" for s using gui_okD(6) [OF ok] notin_set_remove1 by metis
        show "s = t" if "((g_windows g)(r := None)) s = Some pw" "((g_windows g)(r := None)) t = Some qw"
          "pw_process pw = Some j" "pw_process qw = Some j" for s t pw qw j
          using that gui_okD(7) [OF ok] by (auto split: if_splits)
        show "j < w_next_proc (g_world g)" if "((g_windows g)(r := None)) s = Some pw" "pw_process pw = Some j" for s pw j
          using that gui_okD(8) [OF ok] by (auto split: if_splits)
      qed
      then have "gui_ok (?g\<lparr>g_quit := True\<rparr>)" unfolding gui_ok_def by simp
      moreover have "process_window_destroy tops r g1 = Some g'" using g1(2) by (simp only: True if_True)
      from destroy_cases [OF this] have "g' = ?g \<or> g' = ?g\<lparr>g_quit := True\<rparr>" unfolding sel by (simp only: rows(1))
      ultimately show ?thesis using \<open>gui_ok ?g\<close> by blast
    next
      case False
      then obtain pw' where pw': "process_window_reset None (pw\<lparr>pw_process := None, pw_timeout := False\<rparr>) = Some pw'"
        "g' = put_window r pw' g1" using g1(2) r rows(1) by (auto simp: bind_eq_Some)
      have none: "pw_process pw' = None" using reset_process [OF pw'(1)] by simp
      let ?m = "(g_windows g)(r \<mapsto> pw')"
      show ?thesis unfolding pw'(2) rows(1) put_window_def
      proof (rule gui_okI, simp, simp, simp, simp, simp)
        show "flat_rows ?m rows" using rows(2) by (rule flat_rows_upd)
        show "distinct (map row_window rows)" by (rule rows(3))
        show "s \<in> row_window ` set rows \<longleftrightarrow> (\<exists>pw i. ?m s = Some pw \<and> pw_process pw = Some i)" for s
          using gui_okD(3) [OF ok, of s] rows(4) none by auto
        show "distinct (g_list g)" "s \<in> set (g_list g) \<Longrightarrow> s < g_next g" for s using gui_okD(4,6) [OF ok] by blast+
        show "dom ?m = set (g_list g)" using gui_okD(5) [OF ok] r by auto
        show "s = t" if "?m s = Some pw" "?m t = Some qw" "pw_process pw = Some j" "pw_process qw = Some j" for s t pw qw j
          using that none gui_okD(7) [OF ok] by (auto split: if_splits)
        show "j < w_next_proc (g_world g)" if "?m s = Some pw" "pw_process pw = Some j" for s pw j
          using that none gui_okD(8) [OF ok] by (auto split: if_splits)
      qed
    qed
  qed
qed

section \<open>The buttons\<close>

definition keeps_processes :: "(world \<Rightarrow> (world \<times> 'a) option) \<Rightarrow> bool" where
  "keeps_processes f \<longleftrightarrow> (\<forall>w w' x. f w = Some (w', x) \<longrightarrow> w_next_proc w \<le> w_next_proc w')"

lemma keeps_processesD: "keeps_processes f \<Longrightarrow> f w = Some (w', x) \<Longrightarrow> w_next_proc w \<le> w_next_proc w'"
  by (auto simp: keeps_processes_def)

lemma next_proc_eqs:
  "process_start_input i w = Some w' \<Longrightarrow> w_next_proc w' = w_next_proc w"
  "process_stop_input i w = Some w' \<Longrightarrow> w_next_proc w' = w_next_proc w"
  "process_set_status i s w = Some w' \<Longrightarrow> w_next_proc w' = w_next_proc w"
  "mp_server_add_process i w = Some w' \<Longrightarrow> w_next_proc w' = w_next_proc w"
  "release_stash p w = Some w' \<Longrightarrow> w_next_proc w' = w_next_proc w"
  by (auto simp: process_start_input_def process_stop_input_def process_set_status_def mp_server_add_process_def
    release_stash_def put_def emit_def bind_eq_Some Let_def dest!: modify_next split: option.splits prod.splits if_splits)

lemma detach_next: "process_detach i w = Some w' \<Longrightarrow> w_next_proc w' = w_next_proc w"
  by (auto simp: process_detach_def bind_eq_Some emit_def dest!: next_proc_eqs split: if_splits)

lemma kill_next: "process_kill i w = Some w' \<Longrightarrow> w_next_proc w' = w_next_proc w"
  by (auto simp: process_kill_def bind_eq_Some emit_def dest!: detach_next split: if_splits)

lemma clear_next: "process_clear_input enum i w = Some w' \<Longrightarrow> w_next_proc w' = w_next_proc w"
  by (auto simp: process_clear_input_def bind_eq_Some put_def dest!: next_proc_eqs)

lemma process_run_next: "process_run env path instrumented i w = Some w' \<Longrightarrow> w_next_proc w' = w_next_proc w"
  by (auto simp: process_run_def bind_eq_Some Let_def dest!: next_proc_eqs modify_next)

lemma unref_leaks_next: "unref_leaks rs w = Some w' \<Longrightarrow> w_next_proc w' = w_next_proc w"
proof (induction rs arbitrary: w)
  case (Cons r rs)
  then obtain h where "unref_leaks rs (w\<lparr>w_blocks := h\<rparr>) = Some w'" by (auto simp: bind_eq_Some)
  with Cons.IH show ?case by fastforce
qed simp

lemma same_windows_refl: "same_windows g g"
  by (simp add: same_windows_def)

lemma same_windows_trans: "same_windows g g' \<Longrightarrow> same_windows g' g'' \<Longrightarrow> same_windows g g''"
  by (auto simp: same_windows_def)

lemma world_same: "w_next_proc (g_world g) \<le> w_next_proc w \<Longrightarrow> same_windows g (g\<lparr>g_world := w\<rparr>)"
  by (simp add: same_windows_def)

lemma put_world_same:
  "g_windows g r = Some pw \<Longrightarrow> pw_process pw' = pw_process pw \<Longrightarrow> w_next_proc (g_world g) \<le> w_next_proc w \<Longrightarrow>
   same_windows g (put_window r pw' (g\<lparr>g_world := w\<rparr>))"
  by (auto simp: same_windows_def put_window_def)

lemma check_quit_same: "same_windows g (check_quit tops g)"
  by (simp add: check_quit_def Let_def same_windows_def)

lemma g_lift_same:
  "g_lift f g = Some g' \<Longrightarrow> (\<And>w'. f (g_world g) = Some w' \<Longrightarrow> w_next_proc (g_world g) \<le> w_next_proc w') \<Longrightarrow> same_windows g g'"
  by (auto simp: g_lift_def intro: world_same)

lemma reset_cb_same: "reset_cb r g = Some g' \<Longrightarrow> same_windows g g'"
  by (auto simp: reset_cb_def bind_eq_Some reset_process intro: put_window_same)

lemma reset_profile_same: "reset_profile_cb enum r g = Some g' \<Longrightarrow> same_windows g g'"
  by (auto simp: reset_profile_cb_def bind_eq_Some clear_next split: option.splits
    intro: reset_cb_same same_windows_trans [OF reset_cb_same g_lift_same])

lemma record_same: "record_button_toggled_cb active r g = Some g' \<Longrightarrow> same_windows g g'"
  by (auto simp: record_button_toggled_cb_def bind_eq_Some next_proc_eqs split: if_splits elim!: g_lift_same)

lemma draw_same: "draw_memmap_toggled_cb active r g = Some g' \<Longrightarrow> same_windows g g'"
  by (auto simp: draw_memmap_toggled_cb_def bind_eq_Some intro: put_window_same)

lemma maybe_detach_same: "process_window_maybe_detach yes r g = Some g' \<Longrightarrow> same_windows g g'"
  by (auto simp: process_window_maybe_detach_def bind_eq_Some detach_next same_windows_refl split: if_splits elim!: g_lift_same)

lemma maybe_kill_same: "process_window_maybe_kill yes r g = Some g' \<Longrightarrow> same_windows g g'"
  by (auto simp: process_window_maybe_kill_def bind_eq_Some kill_next same_windows_refl split: if_splits
    elim!: g_lift_same maybe_detach_same)

lemma kill_same: "kill_cb yes r g = Some g' \<Longrightarrow> same_windows g g'"
  by (auto simp: kill_cb_def bind_eq_Some same_windows_refl split: if_splits elim!: maybe_kill_same)

lemma detach_same: "detach_cb yes r g = Some g' \<Longrightarrow> same_windows g g'"
  by (auto simp: detach_cb_def bind_eq_Some same_windows_refl split: if_splits elim!: maybe_detach_same)

lemma show_same: "process_window_show r g = Some g' \<Longrightarrow> same_windows g g'"
  by (auto simp: process_window_show_def intro: put_window_same)

lemma close_same: "close_cb tops r g = Some g' \<Longrightarrow> same_windows g g'"
  by (auto simp: close_cb_def hide_and_check_quit_def intro!: same_windows_trans [OF put_window_same check_quit_same])

lemma tree_same: "same_windows g (process_tree_cb g)"
  by (simp add: process_tree_cb_def tree_window_show_def same_windows_def)

lemma tree_hide_same: "same_windows g (tree_window_hide tops g)"
  unfolding tree_window_hide_def by (rule same_windows_trans [OF _ check_quit_same]) (simp add: same_windows_def)

lemma hide_same: "process_window_hide tops r g = Some g' \<Longrightarrow> same_windows g g'"
  by (auto simp: process_window_hide_def hide_and_check_quit_def bind_eq_Some same_windows_refl split: if_splits
    intro!: same_windows_trans [OF put_window_same check_quit_same])

lemma menu_same:
  "show_cb r g = Some g' \<Longrightarrow> same_windows g g'" "hide_cb tops r g = Some g' \<Longrightarrow> same_windows g g'"
  "tree_detach_cb yes r g = Some g' \<Longrightarrow> same_windows g g'" "tree_kill_cb yes r g = Some g' \<Longrightarrow> same_windows g g'"
  "row_activated_cb path g = Some g' \<Longrightarrow> same_windows g g'"
  by (auto simp: show_cb_def hide_cb_def tree_detach_cb_def tree_kill_cb_def row_activated_cb_def bind_eq_Some
    intro: show_same hide_same maybe_detach_same maybe_kill_same)

lemma leaks_same:
  assumes "generate_leak_cb search fill r g = Some (g', rows)" and "\<And>i. keeps_processes (search i)"
    and "\<And>i ls. keeps_processes (fill i ls)"
  shows "same_windows g g'"
proof (cases "g_windows g r")
  case (Some pw)
  show ?thesis
  proof (cases "pw_process pw")
    case None
    then show ?thesis using assms(1) Some by (auto simp: generate_leak_cb_def same_windows_refl)
  next
    case P: (Some i)
    from assms(1) Some P obtain w1 w2 w3 ls leaked w4 w5 where w: "process_stop_input i (g_world g) = Some w1"
      "unref_leaks (pw_leaks pw) w1 = Some w2" "search i w2 = Some (w3, ls)" "fill i ls w3 = Some (w4, rows)"
      "process_start_input i w4 = Some w5"
      "g' = put_window r (pw\<lparr>pw_leaks := ls, pw_usage_leaked := leaked, pw_page := 1\<rparr>) (g\<lparr>g_world := w5\<rparr>)"
      by (auto simp: generate_leak_cb_def bind_eq_Some)
    have "w_next_proc (g_world g) = w_next_proc w1" "w_next_proc w1 = w_next_proc w2" "w_next_proc w4 = w_next_proc w5"
      using next_proc_eqs(1,2) unref_leaks_next w(1,2,5) by metis+
    moreover have "w_next_proc w2 \<le> w_next_proc w3" "w_next_proc w3 \<le> w_next_proc w4"
      using keeps_processesD [OF assms(2) w(3)] keeps_processesD [OF assms(3) w(4)] .
    ultimately have "w_next_proc (g_world g) \<le> w_next_proc w5" by linarith
    then show ?thesis unfolding w(6) using put_world_same [OF Some] by simp
  qed
qed (use assms(1) in \<open>simp add: generate_leak_cb_def\<close>)

lemma profile_same:
  assumes "generate_profile_cb ty create r g = Some (g', rows)" and "\<And>i. keeps_processes (create i)"
  shows "same_windows g g'"
proof (cases "g_windows g r")
  case (Some pw)
  show ?thesis
  proof (cases "pw_process pw")
    case None
    then show ?thesis using assms(1) Some by (auto simp: generate_profile_cb_def same_windows_refl)
  next
    case P: (Some i)
    from assms(1) Some P obtain p w1 w2 pr w3 where w: "process_stop_input i (g_world g) = Some w1"
      "create i w1 = Some (w2, pr)" "(if process_is_recording p then process_start_input i w2 else Some w2) = Some w3"
      "g' = put_window r (pw\<lparr>pw_profile := Some pr, pw_page := 0\<rparr>) (g\<lparr>g_world := w3\<rparr>)"
      by (auto simp: generate_profile_cb_def Let_def bind_eq_Some)
    have "w_next_proc (g_world g) = w_next_proc w1" "w_next_proc w2 = w_next_proc w3"
      using next_proc_eqs(1,2) w(1,3) by (metis, metis option.inject)
    then have "w_next_proc (g_world g) \<le> w_next_proc w3" using keeps_processesD [OF assms(2) w(2)] by linarith
    then show ?thesis unfolding w(4) using put_world_same [OF Some] by simp
  qed
qed (use assms(1) in \<open>simp add: generate_profile_cb_def\<close>)


text \<open>The reports only read the processes, or change one that is there.\<close>

lemma leaks_fill_keeps: "keeps_processes (leaks_fill env skip i ls)"
proof -
  have "leaks_fill env skip i ls w = Some (w', rows) \<Longrightarrow> w_next_proc w' = w_next_proc w" for w w' rows
  proof (induction ls arbitrary: w rows)
    case (Cons l ls)
    then obtain p s rows' where "leaks_fill env skip i ls (put i p (w\<lparr>w_inodes := s\<rparr>)) = Some (w', rows')"
      by (auto simp: bind_eq_Some)
    with Cons.IH show ?case by (fastforce simp: put_def)
  qed simp
  then show ?thesis by (simp add: keeps_processes_def)
qed

lemma foreach_next: "process_block_foreach enum i w = Some (w', rs) \<Longrightarrow> w_next_proc w' = w_next_proc w"
  by (auto simp: process_block_foreach_def bind_eq_Some put_def Let_def case_prod_unfold)

lemma profile_create_keeps: "keeps_processes (profile_create env enumb enums skip i)"
  unfolding keeps_processes_def profile_create_def
  by (auto simp: bind_eq_Some put_def Let_def dest!: foreach_next split: prod.splits)

lemma stop_clones_next: "stop_clones polls pids w = Some w' \<Longrightarrow> w_next_proc w' = w_next_proc w"
  by (induction pids arbitrary: w) (auto simp: emit_def split: if_splits)

lemma continue_clones_next: "w_next_proc (continue_clones pids w) = w_next_proc w"
  by (induction pids arbitrary: w) (simp_all add: emit_def)

lemma leaks_find_keeps: "keeps_processes (leaks_find env enumb enump polls mem_opens peek i)"
  unfolding keeps_processes_def
proof (intro allI impI)
  fix w w' ls
  assume a: "leaks_find env enumb enump polls mem_opens peek i w = Some (w', ls)"
  have "w_next_proc w' = w_next_proc w"
  proof (cases mem_opens)
    case False
    with a show ?thesis by (auto simp: leaks_find_def bind_eq_Some emit_def dest!: stop_clones_next)
  next
    case True
    with a show ?thesis
      by (auto simp: leaks_find_def bind_eq_Some Let_def emit_def put_def continue_clones_next case_prod_unfold
        dest!: stop_clones_next foreach_next)
  qed
  then show "w_next_proc w \<le> w_next_proc w'" by simp
qed

section \<open>Steps of the user interface\<close>

lemma created_ok:
  assumes ok: "gui_ok g" and fresh: "\<And>s qw. g_windows g s = Some qw \<Longrightarrow> pw_process qw \<noteq> Some i"
    and i: "i < w_next_proc (g_world g)" and cr: "process_created_cb i g = Some g'"
  shows "gui_ok g'"
proof -
  obtain g1 r where n: "new_window g = (g1, r)" by fastforce
  from cr n obtain g2 where g2: "init_process_window r i g1 = Some g2" "g' = tree_window_show g2"
    by (auto simp: process_created_cb_def bind_eq_Some)
  note N = new_window_ok [OF ok n]
  have none: "pw_process process_window_new = None" by (simp add: process_window_new_def)
  have "pw_process qw \<noteq> Some i" if "g_windows g1 s = Some qw" for s qw
    using N(4) [OF that] N(2) that fresh none by auto
  from init_process_window_ok [OF N(1,2) none this _ g2(1)] i N(3) have "gui_ok g2" by simp
  then show ?thesis unfolding g2(2) gui_ok_def tree_window_show_def by simp
qed

lemma run_file_ok:
  assumes ok: "gui_ok g" and run: "run_file env find_exec instrumented r args g = Some (g', res)"
  shows "gui_ok g'"
proof (cases "g' = g")
  case False
  from run False obtain name rest path where "args = name # rest" "find_exec name = Some path"
    by (auto simp: run_file_def split: list.splits option.splits)
  moreover obtain w i where w: "process_new (g_world g) = (w, i)" by fastforce
  ultimately obtain w' pw where g0: "process_run env path instrumented i w = Some w'" "g_windows g r = Some pw"
    "(case if pw_process pw \<noteq> None then apfst tree_window_show (new_window (g\<lparr>g_world := w'\<rparr>)) else (g\<lparr>g_world := w'\<rparr>, r) of
       (g, r) \<Rightarrow> do { g \<leftarrow> init_process_window r i g; g \<leftarrow> process_window_show r g; Some (g, True) }) = Some (g', res)"
    using run by (auto simp: run_file_def Let_def bind_eq_Some)
  obtain g1 s where s: "(if pw_process pw \<noteq> None then apfst tree_window_show (new_window (g\<lparr>g_world := w'\<rparr>))
      else (g\<lparr>g_world := w'\<rparr>, r)) = (g1, s)" by fastforce
  with g0 obtain g2 where g1: "process_run env path instrumented i w = Some w'" "g_windows g r = Some pw"
    "(if pw_process pw \<noteq> None then apfst tree_window_show (new_window (g\<lparr>g_world := w'\<rparr>)) else (g\<lparr>g_world := w'\<rparr>, r)) = (g1, s)"
    "init_process_window s i g1 = Some g2" "process_window_show s g2 = Some g'"
    by (simp only: s prod.case) (auto simp: bind_eq_Some)
  have i: "i = w_next_proc (g_world g)" "w_next_proc w = Suc i" using w by (auto simp: process_new_def put_def Let_def)
  then have nxt: "w_next_proc w' = Suc i" using process_run_next [OF g1(1)] by simp
  let ?g = "g\<lparr>g_world := w'\<rparr>"
  have ok': "gui_ok ?g" using same_windows_ok [OF world_same ok] nxt i by simp
  have fresh: "pw_process qw \<noteq> Some i" if "g_windows g t = Some qw" for t qw
    using gui_okD(8) [OF ok that] i by auto
  have "gui_ok g1 \<and> (\<exists>qw. g_windows g1 s = Some qw \<and> pw_process qw = None) \<and> g_world g1 = w' \<and>
      (\<forall>t qw. g_windows g1 t = Some qw \<longrightarrow> pw_process qw \<noteq> Some i)"
  proof (cases "pw_process pw = None")
    case True
    then have "g1 = ?g" "s = r" using g1(3) by auto
    then show ?thesis using ok' g1(2) True fresh by auto
  next
    case False
    obtain g3 s' where n: "new_window ?g = (g3, s')" by fastforce
    then have e: "g1 = tree_window_show g3" "s = s'" using g1(3) False by (auto simp: apfst_def)
    note N = new_window_ok [OF ok' n]
    have none: "pw_process process_window_new = None" by (simp add: process_window_new_def)
    have "pw_process qw \<noteq> Some i" if "g_windows g3 t = Some qw" for t qw
      using N(4) [OF that] N(2) that fresh none by auto
    moreover have "gui_ok g1" using N(1) unfolding e gui_ok_def tree_window_show_def by simp
    ultimately show ?thesis using N(2,3) none by (auto simp: e tree_window_show_def)
  qed
  then obtain qw where q: "gui_ok g1" "g_windows g1 s = Some qw" "pw_process qw = None" "g_world g1 = w'"
    "\<And>t qw. g_windows g1 t = Some qw \<Longrightarrow> pw_process qw \<noteq> Some i" by blast
  from init_process_window_ok [OF q(1,2,3,5) _ g1(4)] nxt q(4) have "gui_ok g2" by simp
  then show ?thesis using same_windows_ok [OF show_same [OF g1(5)]] by blast
qed (use ok in simp)

lemma run_cb_ok: "gui_ok g \<Longrightarrow> run_cb env find_exec instrumented r answers g = Some g' \<Longrightarrow> gui_ok g'"
proof (induction answers arbitrary: g)
  case (Cons answer answers)
  show ?case
  proof (cases answer)
    case (Some t)
    with Cons.prems(2) obtain h res where h: "run_file env find_exec instrumented r (process_parse_exec t) g = Some (h, res)"
      "(if res then Some h else run_cb env find_exec instrumented r answers h) = Some g'" by (auto simp: bind_eq_Some)
    from run_file_ok [OF Cons.prems(1) h(1)] have "gui_ok h" .
    with h(2) Cons.IH show ?thesis by (cases res) auto
  qed (use Cons.prems in simp)
qed simp

text \<open>
  The events the windows handle, in any order. \<open>Others\<close> is what the rest of the profiler does to the
  processes in between; it only ever makes new ones.
\<close>

inductive gui_step :: "env \<Rightarrow> ((ptr \<rightharpoonup> bref) \<Rightarrow> ptr list) \<Rightarrow> gui \<Rightarrow> gui \<Rightarrow> bool"
  for env :: env and enum :: "(ptr \<rightharpoonup> bref) \<Rightarrow> ptr list" where
  Others: "w_next_proc (g_world g) \<le> w_next_proc w \<Longrightarrow> gui_step env enum g (g\<lparr>g_world := w\<rparr>)"
| Created: "i < w_next_proc (g_world g) \<Longrightarrow> \<forall>s qw. g_windows g s = Some qw \<longrightarrow> pw_process qw \<noteq> Some i \<Longrightarrow>
    process_created_cb i g = Some g' \<Longrightarrow> gui_step env enum g g'"
| Ran: "run_file env find_exec instrumented r args g = Some (g', res) \<Longrightarrow> gui_step env enum g g'"
| Status: "status_changed_cb tops cmdline i r g = Some g' \<Longrightarrow> gui_step env enum g g'"
| Reset: "reset_cb r g = Some g' \<Longrightarrow> gui_step env enum g g'"
| Reset_Profile: "reset_profile_cb enum r g = Some g' \<Longrightarrow> gui_step env enum g g'"
| Leaks: "generate_leak_cb (leaks_find env enum enump polls mem_opens peek) (leaks_fill env skip) r g = Some (g', rows) \<Longrightarrow>
    gui_step env enum g g'"
| Profile: "generate_profile_cb ty (profile_create env enum enums skip_funcs) r g = Some (g', frows) \<Longrightarrow> gui_step env enum g g'"
| Record: "record_button_toggled_cb active r g = Some g' \<Longrightarrow> gui_step env enum g g'"
| Draw: "draw_memmap_toggled_cb active r g = Some g' \<Longrightarrow> gui_step env enum g g'"
| Kill: "kill_cb yes r g = Some g' \<Longrightarrow> gui_step env enum g g'"
| Detach: "detach_cb yes r g = Some g' \<Longrightarrow> gui_step env enum g g'"
| Show: "process_window_show r g = Some g' \<Longrightarrow> gui_step env enum g g'"
| Hide: "process_window_hide tops r g = Some g' \<Longrightarrow> gui_step env enum g g'"
| Close: "close_cb tops r g = Some g' \<Longrightarrow> gui_step env enum g g'"
| Close_Tree: "gui_step env enum g (tree_window_hide tops g)"
| Show_Tree: "gui_step env enum g (process_tree_cb g)"
| Menu_Show: "show_cb r g = Some g' \<Longrightarrow> gui_step env enum g g'"
| Menu_Hide: "hide_cb tops r g = Some g' \<Longrightarrow> gui_step env enum g g'"
| Menu_Detach: "tree_detach_cb yes r g = Some g' \<Longrightarrow> gui_step env enum g g'"
| Menu_Kill: "tree_kill_cb yes r g = Some g' \<Longrightarrow> gui_step env enum g g'"
| Row_Activated: "row_activated_cb path g = Some g' \<Longrightarrow> gui_step env enum g g'"
| Run_Dialog: "run_cb env find_exec instrumented r answers g = Some g' \<Longrightarrow> gui_step env enum g g'"

lemma gui_step_ok: "gui_step env enum g g' \<Longrightarrow> gui_ok g \<Longrightarrow> gui_ok g'"
proof (induction rule: gui_step.induct)
  case (Created i g g')
  then show ?case using created_ok by blast
next
  case (Ran find_exec instrumented r args g g' res)
  then show ?case using run_file_ok by blast
next
  case (Status tops cmdline i r g g')
  then show ?case using status_changed_ok by blast
next
  case Leaks
  show ?case by (rule same_windows_ok [OF leaks_same [OF Leaks(1)] Leaks(2)]) (rule leaks_find_keeps leaks_fill_keeps)+
next
  case Profile
  show ?case by (rule same_windows_ok [OF profile_same [OF Profile(1)] Profile(2)]) (rule profile_create_keeps)
next
  case Run_Dialog
  then show ?case using run_cb_ok by blast
qed (rule same_windows_ok; auto intro: world_same reset_cb_same reset_profile_same record_same draw_same kill_same detach_same
       show_same hide_same close_same tree_same tree_hide_same menu_same)+

lemma gui_steps_ok: "(gui_step env enum)\<^sup>*\<^sup>* g g' \<Longrightarrow> gui_ok g \<Longrightarrow> gui_ok g'"
  by (induction rule: rtranclp_induct) (auto intro: gui_step_ok)

text \<open>\<open>main\<close> makes one window before it takes any event.\<close>

definition no_windows :: "world \<Rightarrow> bool \<Rightarrow> bool \<Rightarrow> gui" where
  "no_windows w follow_fork follow_exec = \<lparr>g_world = w, g_windows = Map.empty, g_list = [], g_next = 0, g_rows = [],
     g_tree_visible = False, g_quit = False, g_default_follow_fork = follow_fork, g_default_follow_exec = follow_exec\<rparr>"

lemma no_windows_ok: "gui_ok (no_windows w ff fe)"
  by (simp add: gui_ok_def no_windows_def flat_rows_def)

section \<open>The end of the program\<close>

lemma some_visible_first: "some_visible g toplevels ts \<longleftrightarrow> ts \<noteq> [] \<and> toplevel_visible g (hd toplevels)"
  by (induction ts) auto

lemma check_quit_first:
  "check_quit tops g = (if tops g \<noteq> [] \<and> toplevel_visible g (hd (tops g)) then g else g\<lparr>g_quit := True\<rparr>)"
  by (simp add: check_quit_def Let_def some_visible_first)

text \<open>
  Hiding the tree ends the program whenever the tree is the first window of the toolkit, whatever
  other windows are shown.
\<close>

lemma hidden_first_window_quits:
  "(\<And>h. tops h = Tree_Window # ts) \<Longrightarrow> g_quit (tree_window_hide tops g) \<and> g_windows (tree_window_hide tops g) = g_windows g"
  by (simp add: tree_window_hide_def check_quit_first)

section \<open>Properties\<close>

text \<open>
  Property C13: the tree of processes shows what the windows show. From the start of the profiler on
  and after any sequence of events (processes created and run, changes of status and resets, the
  buttons, what the server does in between) the rows of the tree are exactly the windows that have a
  process, each once; no two windows have the same process; no row refers to a window that is gone;
  and, since a new row is attached below the row of its own process, which is not there yet, no
  row is ever below another.
\<close>

theorem tree_shows_windows:
  assumes "(gui_step env enum)\<^sup>*\<^sup>* (fst (new_window (no_windows w follow_fork follow_exec))) g"
  shows "distinct (map row_window (g_rows g)) \<and> (\<forall>row \<in> set (g_rows g). row_children row = []) \<and>
    (\<forall>r. r \<in> row_window ` set (g_rows g) \<longleftrightarrow> (\<exists>pw i. g_windows g r = Some pw \<and> pw_process pw = Some i)) \<and>
    (\<forall>r s pw qw. g_windows g r = Some pw \<and> g_windows g s = Some qw \<and> pw_process pw = pw_process qw \<and> pw_process pw \<noteq> None \<longrightarrow> r = s) \<and>
    distinct (g_list g) \<and> set (g_list g) = dom (g_windows g)"
proof -
  obtain g0 r where n: "new_window (no_windows w follow_fork follow_exec) = (g0, r)" by fastforce
  have ok: "gui_ok g" using gui_steps_ok [OF assms] new_window_ok(1) [OF no_windows_ok n] n by simp
  have "\<forall>row \<in> set (g_rows g). row_children row = []" using gui_okD(1) [OF ok] by (simp add: flat_rows_def list_all_iff)
  moreover have "r = s" if "g_windows g r = Some pw" "g_windows g s = Some qw" "pw_process pw = pw_process qw" "pw_process pw \<noteq> None"
    for r s pw qw using gui_okD(7) [OF ok that(1,2)] that(3,4) by auto
  ultimately show ?thesis using gui_okD(2-5) [OF ok] by blast
qed

theorem tree_shows_windows_witness:
  "\<exists>g. process_created_cb 0 (fst (new_window (no_windows demo_world True False))) = Some g \<and>
     map row_window (g_rows g) = [1] \<and> {r. \<exists>pw i. g_windows g r = Some pw \<and> pw_process pw = Some i} = {1}"
proof -
  let ?g = "fst (new_window (no_windows demo_world True False))"
  have procs: "w_procs demo_world 0 = Some demo_process" "w_next_proc demo_world = 1" by (simp_all add: demo_world_def)
  have g: "g_world ?g = demo_world" "\<forall>s qw. g_windows ?g s = Some qw \<longrightarrow> pw_process qw \<noteq> Some 0"
    by (simp_all add: new_window_def no_windows_def process_window_new_def Let_def)
  obtain g1 where g1: "new_window ?g = (g1, 1)" "g_world g1 = demo_world" "g_rows g1 = []"
      "g_windows g1 1 = Some process_window_new" "g_windows g1 0 = Some process_window_new"
    by (simp add: new_window_def no_windows_def Let_def)
  have "p_parent demo_process = None" by (simp add: demo_process_def running_process_def mp_process_init_def)
  then have "\<exists>w q. modify 0 f demo_world = Some w \<and> w_procs w 0 = Some q \<and> p_parent q = None"
    if "\<And>p. p_parent (f p) = p_parent p" for f using that by (simp add: modify_def put_def procs)
  moreover have "p_parent ((process_set_follow_exec b \<circ> process_set_follow_fork c) p) = p_parent p" for b c p
    by (simp add: process_set_follow_exec_def process_set_follow_fork_def)
  ultimately obtain w q where w: "modify 0 (process_set_follow_exec (g_default_follow_exec g1) \<circ>
      process_set_follow_fork (g_default_follow_fork g1)) demo_world = Some w" "w_procs w 0 = Some q" "p_parent q = None"
    by meson
  let ?g1 = "put_window 1 (process_window_new\<lparr>pw_process := Some 0, pw_draw_memmap := True, pw_timeout := True\<rparr>) g1"
  have init: "init_process_window 1 0 g1 = tree_window_add 1 (?g1\<lparr>g_world := w\<rparr>)"
    unfolding init_process_window_def g1(2,4) Let_def by (simp add: put_window_def w(1) g1(2) del: One_nat_def)
  have "g_windows (?g1\<lparr>g_world := w\<rparr>) 1 =
      Some (process_window_new\<lparr>pw_process := Some 0, pw_draw_memmap := True, pw_timeout := True\<rparr>)"
    "g_rows (?g1\<lparr>g_world := w\<rparr>) = []" "g_world (?g1\<lparr>g_world := w\<rparr>) = w"
    by (simp_all add: put_window_def g1(3))
  then have add: "tree_window_add 1 (?g1\<lparr>g_world := w\<rparr>) = Some (?g1\<lparr>g_world := w, g_rows := [Tree_Row 1 []]\<rparr>)"
    unfolding tree_window_add_def by (simp add: w(2,3) del: One_nat_def)
  define g2 where "g2 = ?g1\<lparr>g_world := w, g_rows := [Tree_Row 1 []]\<rparr>"
  then have g2: "init_process_window 1 0 g1 = Some g2" "map row_window (g_rows g2) = [1]"
    unfolding init add g2_def by simp_all
  define g' where "g' = tree_window_show g2"
  have g': "process_created_cb 0 ?g = Some g'" unfolding process_created_cb_def g1(1) Let_def prod.case g2(1) g'_def by simp
  have rows: "map row_window (g_rows g') = [1]" using g2(2) by (simp add: g'_def tree_window_show_def)
  then have "row_window ` set (g_rows g') = {1}" by (metis list.set(1,2) list.set_map)
  have "gui_step lib_env (\<lambda>_. []) ?g g'" by (rule gui_step.Created [OF _ g(2) g']) (simp only: g(1) procs)
  then have "(gui_step lib_env (\<lambda>_. []))\<^sup>*\<^sup>* ?g g'" by (rule r_into_rtranclp)
  from tree_shows_windows [OF this]
  have "\<forall>r. r \<in> row_window ` set (g_rows g') \<longleftrightarrow> (\<exists>pw i. g_windows g' r = Some pw \<and> pw_process pw = Some i)" by (elim conjE)
  then have "{r. \<exists>pw i. g_windows g' r = Some pw \<and> pw_process pw = Some i} = row_window ` set (g_rows g')" by blast
  then have "{r. \<exists>pw i. g_windows g' r = Some pw \<and> pw_process pw = Some i} = {1}"
    by (simp only: \<open>row_window ` set (g_rows g') = {1}\<close>)
  with g' rows show ?thesis by (intro exI conjI)
qed

end
