(* ===== verification/Leak_View_Inv.thy ===== *)
theory Leak_View_Inv
  imports Leak_View World_Inv Process_Command
begin

text \<open>The rows of the list of leaks, the commands for the lines of a stack, and saving.\<close>

section \<open>Commands\<close>

text \<open>What a command is made of, as it is written and what it becomes.\<close>

datatype command_piece = Text char | File | Line | Percent_Sign | Unknown char

definition piece_ok :: "command_piece \<Rightarrow> bool" where
  "piece_ok p = (case p of Text c \<Rightarrow> c \<noteq> CHR ''%'' | Unknown c \<Rightarrow> c \<notin> {CHR ''f'', CHR ''l'', CHR ''%''} | _ \<Rightarrow> True)"

definition piece_format :: "command_piece \<Rightarrow> string" where
  "piece_format p = (case p of Text c \<Rightarrow> [c] | File \<Rightarrow> ''%f'' | Line \<Rightarrow> ''%l'' | Percent_Sign \<Rightarrow> ''%%'' | Unknown c \<Rightarrow> [CHR ''%'', c])"

definition piece_text :: "string option \<Rightarrow> u32 \<Rightarrow> command_piece \<Rightarrow> string" where
  "piece_text file line p = (case p of Text c \<Rightarrow> [c] | File \<Rightarrow> (case file of None \<Rightarrow> '''' | Some f \<Rightarrow> f)
     | Line \<Rightarrow> signed_numeral (sint line) | Percent_Sign \<Rightarrow> ''%'' | Unknown c \<Rightarrow> [CHR ''%'', c])"

abbreviation formats :: "command_piece list \<Rightarrow> string" where
  "formats ps \<equiv> concat (map piece_format ps)"

lemma piece_of_pair: "\<exists>p. piece_ok p \<and> piece_format p = [CHR ''%'', d] \<and> piece_text file line p =
    (if d = CHR ''f'' then (case file of None \<Rightarrow> [] | Some f \<Rightarrow> f)
     else if d = CHR ''l'' then signed_numeral (sint line) else if d = CHR ''%'' then ''%'' else [CHR ''%'', d])"
proof -
  consider "d = CHR ''f''" | "d = CHR ''l''" | "d = CHR ''%''" | "d \<notin> {CHR ''f'', CHR ''l'', CHR ''%''}" by blast
  then show ?thesis
  proof cases
    case 1 then show ?thesis by (intro exI [of _ File]) (simp add: piece_ok_def piece_format_def piece_text_def)
  next
    case 2 then show ?thesis by (intro exI [of _ Line]) (simp add: piece_ok_def piece_format_def piece_text_def)
  next
    case 3 then show ?thesis by (intro exI [of _ Percent_Sign]) (simp add: piece_ok_def piece_format_def piece_text_def)
  next
    case 4 then show ?thesis by (intro exI [of _ "Unknown d"]) (simp add: piece_ok_def piece_format_def piece_text_def)
  qed
qed

definition expands :: "string option \<Rightarrow> u32 \<Rightarrow> string \<Rightarrow> string option \<Rightarrow> bool" where
  "expands file line t r \<longleftrightarrow> (\<exists>ps. list_all piece_ok ps \<and>
     (t = formats ps \<and> r = Some (concat (map (piece_text file line) ps)) \<or> t = formats ps @ ''%'' \<and> r = None))"

lemma expands_Cons:
  assumes "expands file line t r" and "piece_ok p"
  shows "expands file line (piece_format p @ t) (map_option (\<lambda>s. piece_text file line p @ s) r)"
proof -
  from assms(1) obtain ps where "list_all piece_ok ps"
    "t = formats ps \<and> r = Some (concat (map (piece_text file line) ps)) \<or> t = formats ps @ ''%'' \<and> r = None"
    unfolding expands_def by blast
  with assms(2) show ?thesis unfolding expands_def by (intro exI [of _ "p # ps"]) auto
qed

lemma expand_command_expands: "expands file line t (expand_command file line t)"
proof (induction "file" line t rule: expand_command.induct)
  case (1 "file" line)
  then show ?case unfolding expands_def by (intro exI [of _ "[]"]) simp
next
  case (2 "file" line c)
  show ?case
  proof (cases "c = CHR ''%''")
    case True
    then show ?thesis unfolding expands_def by (intro exI [of _ "[]"]) simp
  next
    case False
    then show ?thesis unfolding expands_def
      by (intro exI [of _ "[Text c]"]) (simp add: piece_ok_def piece_format_def piece_text_def)
  qed
next
  case (3 "file" line c d cs)
  show ?case
  proof (cases "c = CHR ''%''")
    case True
    obtain p where p: "piece_ok p" "piece_format p = [CHR ''%'', d]" "piece_text file line p =
        (if d = CHR ''f'' then (case file of None \<Rightarrow> [] | Some f \<Rightarrow> f)
         else if d = CHR ''l'' then signed_numeral (sint line) else if d = CHR ''%'' then ''%'' else [CHR ''%'', d])"
      using piece_of_pair by blast
    have "expand_command file line (c # d # cs) =
        map_option (\<lambda>s. piece_text file line p @ s) (expand_command file line cs)"
      using True by (cases "expand_command file line cs") (simp_all add: p(3))
    then show ?thesis using expands_Cons [OF 3(1) [OF True] p(1)] True p(2) by simp
  next
    case False
    then have "piece_ok (Text c)" by (simp add: piece_ok_def)
    from expands_Cons [OF 3(2) [OF False] this] False show ?thesis by (simp add: piece_format_def piece_text_def)
  qed
qed

section \<open>The function to blame\<close>







section \<open>Properties\<close>




text \<open>
  The command for a line of a stack. Every command is a sequence of pieces, possibly with a percent
  sign left over at its end. Without one the command becomes the texts of its pieces: \<open>%f\<close> the
  name of the file, \<open>%l\<close> the line, \<open>%%\<close> a percent sign, any other percent sign itself with the
  character after it, any other character itself. With one left over the loop runs past the end of the string.
\<close>

lemma command_expansion:
  "\<exists>ps. list_all piece_ok ps \<and>
     (t = formats ps \<and> expand_command file line t = Some (concat (map (piece_text file line) ps)) \<or>
      t = formats ps @ ''%'' \<and> expand_command file line t = None)"
  using expand_command_expands [of "file" line t] by (simp only: expands_def)

text \<open>
  A second report cannot be saved. The first profile and the first list of leaks that are saved
  go to the file the user names. The name is kept as the suggestion for the next time, but
  it is freed: the next time the dialog is opened it reads freed memory, whatever the
  answer.
\<close>

lemma second_save_undefined:
  "\<exists>s' t'. save_profile_cb (Some name) True \<lparr>sv_suggestion = None, sv_strings = m, sv_next = n\<rparr> = Some (s', Some name) \<and>
     save_leak_cb (Some name) (r # rs) \<lparr>sv_suggestion = None, sv_strings = m, sv_next = n\<rparr> = Some (t', Some name) \<and>
     (\<forall>answer r rs. save_profile_cb answer True s' = None \<and> save_leak_cb answer (r # rs) t' = None)"
  by (simp add: save_profile_cb_def save_leak_cb_def save_file_def g_free_def Let_def)

end
