(* ===== verification/Memory_Map.thy ===== *)
theory Memory_Map
  imports Process_Data Numerals
begin

text \<open>
  The picture of a process's memory (\<open>dw_draw_memmap\<close> of src/detailwin.c): the writable
  anonymous maps one below the other, and in them a line for every page that is present or
  swapped and for every block. A picture is the list of its rectangles, whose numbers are 64 bit
  words; drawing cuts them to an \<open>int\<close>.
\<close>

type_synonym w64 = "64 word"

datatype rect_kind = Region_Even | Region_Odd | Divider | Page_Present | Page_Swapped | Block_Even | Block_Odd

datatype rect = Rect rect_kind w64 w64 w64 w64

record mem_reg =
  rg_start :: w64
  rg_size :: w64
  rg_y :: "32 word"
  rg_h :: "32 word"

section \<open>The regions\<close>

text \<open>
  The conversions \<open>%lx-%lx %15s %*x %u:%u %u %255s\<close> of a line of \<open>/proc/PID/maps\<close>. A line counts
  when at least five have been stored (start, end, permissions, major, minor); the inode, the
  sixth, keeps the value of the line before when it is not scanned.
\<close>

definition scan_map_line :: "string \<Rightarrow> (w64 \<times> w64 \<times> string \<times> int \<times> int \<times> int option) option" where
  "scan_map_line line = do {
     (start, s) \<leftarrow> scan_number 16 line;
     s \<leftarrow> (case s of [] \<Rightarrow> None | c # s \<Rightarrow> if c = CHR ''-'' then Some s else None);
     (finish, s) \<leftarrow> scan_number 16 s;
     (perms, s) \<leftarrow> scan_word 15 s;
     (_, s) \<leftarrow> scan_number 16 s;
     (major, s) \<leftarrow> scan_number 10 s;
     s \<leftarrow> (case s of [] \<Rightarrow> None | c # s \<Rightarrow> if c = CHR '':'' then Some s else None);
     (minor, s) \<leftarrow> scan_number 10 s;
     Some (ulong start, ulong finish, perms, major, minor, map_option fst (scan_number 10 s))
   }"

fun read_regions :: "int \<Rightarrow> string list \<Rightarrow> mem_reg list" where
  "read_regions inode [] = []"
| "read_regions inode (l # ls) = (case scan_map_line l of
       None \<Rightarrow> read_regions inode ls
     | Some (start, finish, perms, major, minor, ino) \<Rightarrow>
         (let inode = (case ino of None \<Rightarrow> inode | Some n \<Rightarrow> n mod 2 ^ 32) in
          if perms = ''rw-p'' \<and> inode = 0
          then \<lparr>rg_start = start, rg_size = finish - start, rg_y = 0, rg_h = 0\<rparr> # read_regions inode ls
          else read_regions inode ls))"

definition total_size :: "mem_reg list \<Rightarrow> w64" where
  "total_size rs = sum_list (map rg_size rs)"

text \<open>
  Bytes per line and per pixel. The divisions fail when the window is exactly as high as there are
  regions, or has no width.
\<close>

definition word_div :: "w64 \<Rightarrow> w64 \<Rightarrow> w64 option" where
  "word_div a b = (if b = 0 then None else Some (a div b))"

definition bytes_per_line :: "w64 \<Rightarrow> mem_reg list \<Rightarrow> w64 option" where
  "bytes_per_line h rs = (let lines = h - of_nat (length rs) in word_div (total_size rs + lines - 1) lines)"

definition bytes_per_pixel :: "w64 \<Rightarrow> w64 \<Rightarrow> 32 word option" where
  "bytes_per_pixel w bpl = map_option (\<lambda>b. let bpp = ucast b in if bpp < 1 then 1 else bpp) (word_div (bpl + w - 1) w)"

fun place_regions :: "w64 \<Rightarrow> w64 \<Rightarrow> nat \<Rightarrow> w64 \<Rightarrow> w64 \<Rightarrow> mem_reg list \<Rightarrow> mem_reg list option" where
  "place_regions h bpl regnum mtotal y [] = Some []"
| "place_regions h bpl regnum mtotal y (r # rs) = do {
     reg_h \<leftarrow> word_div (rg_size r * (h - of_nat regnum) + bpl - 1) mtotal;
     let r = r\<lparr>rg_h := ucast reg_h, rg_y := ucast y\<rparr>;
     rest \<leftarrow> place_regions h bpl regnum mtotal (y + scast (rg_h r) + 1) rs;
     Some (r # rest)
   }"

section \<open>Lines\<close>

text \<open>
  The rectangles of \<open>size\<close> bytes at the offset \<open>addr\<close> of a region, as the code computes them: \<open>y\<close>
  counts from the top of the window, and so does what is subtracted from \<open>x\<close>.
\<close>

definition line_rects :: "rect_kind \<Rightarrow> 32 word \<Rightarrow> 32 word \<Rightarrow> 32 word \<Rightarrow> w64 \<Rightarrow> w64 \<Rightarrow> rect list" where
  "line_rects kind bpp32 width reg_y addr len =
     (let bpp = ucast bpp32; memw = ucast width;
          w = (addr + len + bpp div 2) div bpp;
          x = addr div bpp;
          w = w - x;
          y = scast reg_y + x div memw;
          x = x - y * memw
      in Rect kind x y w 1 # (if x + w > memw then [Rect kind 0 (y + 1) (w - (memw - x)) 1] else []))"

definition in_region :: "w64 \<Rightarrow> mem_reg \<Rightarrow> bool" where
  "in_region addr r \<longleftrightarrow> addr \<ge> rg_start r \<and> addr < rg_start r + rg_size r"

fun find_region :: "w64 \<Rightarrow> nat \<Rightarrow> mem_reg list \<Rightarrow> (nat \<times> mem_reg) option" where
  "find_region addr i [] = None"
| "find_region addr i (r # rs) = (if in_region addr r then Some (i, r) else find_region addr (i + 1) rs)"

text \<open>\<open>dw_draw_memmap_foreach\<close>. Without any region the loop leaves the pointer without a value.\<close>

definition block_rects :: "32 word \<Rightarrow> 32 word \<Rightarrow> mem_reg list \<Rightarrow> block \<Rightarrow> rect list option" where
  "block_rects bpp width rs b =
     (if rs = [] then None
      else Some (case find_region (b_addr b) 0 rs of None \<Rightarrow> []
        | Some (i, r) \<Rightarrow> line_rects (if odd i then Block_Odd else Block_Even) bpp width (rg_y r)
            (b_addr b - rg_start r) (ucast (b_size b))))"

text \<open>
  The pages of a region: \<open>infos\<close> are the words of \<open>/proc/PID/pagemap\<close> from the region's first page
  on, \<open>None\<close> where the read fails. The first pass draws the pages that are present, the second
  those that are swapped.
\<close>

definition page_rects :: "bool \<Rightarrow> 32 word \<Rightarrow> 32 word \<Rightarrow> mem_reg \<Rightarrow> nat \<Rightarrow> w64 option \<Rightarrow> rect list" where
  "page_rects swapped_pass bpp width r j info = (case info of None \<Rightarrow> []
     | Some info \<Rightarrow>
         (let swapped = bit info 62; present = bit info 63; addr = push_bit 12 (of_nat j)
          in if swapped_pass
             then (if swapped then line_rects Page_Swapped bpp width (rg_y r) addr 4096 else [])
             else (if \<not> present \<and> \<not> swapped then []
                   else if \<not> swapped then line_rects Page_Present bpp width (rg_y r) addr 4096 else [])))"

definition region_pages :: "(w64 \<Rightarrow> nat \<Rightarrow> w64 option) \<Rightarrow> bool \<Rightarrow> 32 word \<Rightarrow> 32 word \<Rightarrow> mem_reg \<Rightarrow> rect list" where
  "region_pages pagemap swapped_pass bpp width r =
     concat (map (\<lambda>j. page_rects swapped_pass bpp width r j (pagemap (push_bit 3 (drop_bit 12 (rg_start r))) j))
       [0..<unat (drop_bit 12 (rg_size r))])"

definition region_rects :: "w64 \<Rightarrow> nat \<Rightarrow> mem_reg \<Rightarrow> rect list" where
  "region_rects w i r =
     [Rect (if odd i then Region_Odd else Region_Even) 0 (scast (rg_y r)) w (scast (rg_h r)),
      Rect Divider 0 (scast (rg_y r + rg_h r)) w 1]"

fun draw_regions ::
    "(w64 \<Rightarrow> nat \<Rightarrow> w64 option) option \<Rightarrow> 32 word \<Rightarrow> w64 \<Rightarrow> nat \<Rightarrow> mem_reg list \<Rightarrow> rect list" where
  "draw_regions pagemap bpp w i [] = []"
| "draw_regions pagemap bpp w i (r # rs) =
     region_rects w i r @
     (case pagemap of None \<Rightarrow> [] | Some f \<Rightarrow> region_pages f False bpp (ucast w) r) @
     draw_regions pagemap bpp w (i + 1) rs"

fun draw_blocks :: "32 word \<Rightarrow> 32 word \<Rightarrow> mem_reg list \<Rightarrow> block list \<Rightarrow> rect list option" where
  "draw_blocks bpp width rs [] = Some []"
| "draw_blocks bpp width rs (b # bs) = do {
     x \<leftarrow> block_rects bpp width rs b;
     y \<leftarrow> draw_blocks bpp width rs bs;
     Some (x @ y)
   }"

text \<open>
  The whole picture (of a window that shows its map and has a process); \<open>maps\<close> are the lines of the file or \<open>None\<close> if it cannot be opened, \<open>bs\<close> the
  blocks of the table in the order in which it is visited.
\<close>

definition dw_draw_memmap ::
    "w64 \<Rightarrow> w64 \<Rightarrow> string list option \<Rightarrow> (w64 \<Rightarrow> nat \<Rightarrow> w64 option) option \<Rightarrow> int \<Rightarrow> block list \<Rightarrow> rect list option" where
  "dw_draw_memmap w h maps pagemap inode bs = (case maps of None \<Rightarrow> Some []
     | Some ls \<Rightarrow> do {
         let rs = read_regions inode ls;
         bpl \<leftarrow> bytes_per_line h rs;
         bpp \<leftarrow> bytes_per_pixel w bpl;
         rs \<leftarrow> place_regions h bpl (length rs) (total_size rs) 0 rs;
         xs \<leftarrow> draw_blocks bpp (ucast w) rs bs;
         Some (draw_regions pagemap bpp w 0 rs @ xs @
           concat (map (\<lambda>r. case pagemap of None \<Rightarrow> [] | Some f \<Rightarrow> region_pages f True bpp (ucast w) r) rs))
       })"

section \<open>The graph of the usage over time\<close>

text \<open>
  \<open>dw_draw_memstats\<close>: the heights of the two bars at each moment of the history that fits the width,
  and the heights of the lines drawn every 256 kilobytes, each fourth of them solid.
\<close>

definition stat_height :: "int \<Rightarrow> u32 \<Rightarrow> u32 \<Rightarrow> int" where
  "stat_height h n usage_high = (if usage_high > 0 then (h * uint n) div uint usage_high else 0)"

fun memstat_bars :: "int \<Rightarrow> u32 \<Rightarrow> int \<Rightarrow> (u32 \<times> u32) list \<Rightarrow> (int \<times> int \<times> int) list" where
  "memstat_bars h usage_high x [] = []"
| "memstat_bars h usage_high x ((now, high) # rest) =
     (if x < 0 then []
      else (x, stat_height h high usage_high, stat_height h now usage_high) # memstat_bars h usage_high (x - 1) rest)"

definition grid_lines :: "int \<Rightarrow> u32 \<Rightarrow> (int \<times> bool) list" where
  "grid_lines h usage_high =
     map (\<lambda>j. (h - (int j * (256 * 1024) * h) div uint usage_high, j mod 4 = 0))
       [0..<nat ((uint usage_high + (256 * 1024 - 1)) div (256 * 1024))]"

definition dw_draw_memstats ::
    "int \<Rightarrow> int \<Rightarrow> u32 \<Rightarrow> (u32 \<times> u32) list \<Rightarrow> (int \<times> int \<times> int) list \<times> (int \<times> bool) list" where
  "dw_draw_memstats w h usage_high stats = (memstat_bars h usage_high w stats, grid_lines h usage_high)"

end
