(* ===== verification/Memory_Map_Inv.thy ===== *)
theory Memory_Map_Inv
  imports Memory_Map
begin

text \<open>When the picture of the memory of a process is drawn at all, and where its lines are.\<close>

section \<open>Returning\<close>

lemma place_regions_total: "m \<noteq> 0 \<Longrightarrow> \<exists>rs'. place_regions h bpl k m y rs = Some rs' \<and> length rs' = length rs"
proof (induction rs arbitrary: y)
  case (Cons r rs)
  from Cons.IH [OF Cons.prems] show ?case
    by (auto simp: word_div_def Cons.prems Let_def) (metis (no_types, lifting) bind.bind_lunit length_Cons)
qed simp

lemma draw_blocks_total: "rs \<noteq> [] \<Longrightarrow> draw_blocks bpp width rs bs \<noteq> None"
  by (induction bs) (auto simp: block_rects_def)

lemma draw_blocks_none: "draw_blocks bpp width [] bs \<noteq> None \<longleftrightarrow> bs = []"
  by (cases bs) (simp_all add: block_rects_def)

text \<open>
  Property C39: when drawing the memory map fails. For a process whose maps can be read the picture
  is drawn exactly if the window has a width, its height is not the number of writable regions (the
  code divides by their difference), and there is memory in the regions or there are none at all and
  no block is live. Otherwise the profiler divides by zero, or it follows a pointer without a value.
\<close>

theorem memmap_returns:
  "dw_draw_memmap w h (Some ls) pagemap inode bs \<noteq> None \<longleftrightarrow>
     w \<noteq> 0 \<and> h \<noteq> of_nat (length (read_regions inode ls)) \<and>
     (if read_regions inode ls = [] then bs = [] else total_size (read_regions inode ls) \<noteq> 0)"
proof -
  let ?rs = "read_regions inode ls"
  show ?thesis
  proof (cases "w \<noteq> 0 \<and> h \<noteq> of_nat (length ?rs)")
    case False
    then have "bytes_per_line h ?rs = None \<or> (\<forall>bpl. bytes_per_pixel w bpl = None)"
      by (auto simp: bytes_per_line_def bytes_per_pixel_def word_div_def Let_def)
    then have "dw_draw_memmap w h (Some ls) pagemap inode bs = None"
      by (cases "bytes_per_line h ?rs") (auto simp: dw_draw_memmap_def Let_def)
    with False show ?thesis by auto
  next
    case True
    then obtain bpl bpp where b: "bytes_per_line h ?rs = Some bpl" "bytes_per_pixel w bpl = Some bpp"
      by (auto simp: bytes_per_line_def bytes_per_pixel_def word_div_def Let_def)
    have e: "dw_draw_memmap w h (Some ls) pagemap inode bs \<noteq> None \<longleftrightarrow>
        (\<exists>rs. place_regions h bpl (length ?rs) (total_size ?rs) 0 ?rs = Some rs \<and> draw_blocks bpp (ucast w) rs bs \<noteq> None)"
      using b by (auto simp: dw_draw_memmap_def Let_def bind_eq_Some)
    show ?thesis
    proof (cases "?rs = []")
      case True
      then show ?thesis using e \<open>w \<noteq> 0 \<and> h \<noteq> of_nat (length ?rs)\<close> draw_blocks_none by simp
    next
      case rs: False
      show ?thesis
      proof (cases "total_size ?rs = 0")
        case True
        with rs have "place_regions h bpl (length ?rs) (total_size ?rs) 0 ?rs = None"
          by (cases ?rs) (simp_all add: word_div_def)
        with e rs True show ?thesis by simp
      next
        case False
        from place_regions_total [OF this] obtain rs' where rs': "place_regions h bpl (length ?rs) (total_size ?rs) 0 ?rs = Some rs'"
          "length rs' = length ?rs" by blast
        with rs have "rs' \<noteq> []" by auto
        with rs' draw_blocks_total e rs False True show ?thesis by auto
      qed
    qed
  qed
qed

section \<open>Where a line is drawn\<close>






end
