(* ===== verification/Options.thy ===== *)
theory Options
  imports Windows Complex_Main
begin

text \<open>
  The start of the profiler (src/main.c): the profile type and the sampling rate from the command
  line, the functions to skip, the first window and the program to run.
\<close>

definition default_skip_funcs :: "string list" where
  "default_skip_funcs =
     [''malloc'', ''calloc'', ''realloc'', ''strdup'', ''strndup'',
      ''g_malloc'', ''g_malloc0'', ''g_realloc'', ''g_strdup'', ''g_strndup'', ''g_slice_alloc'', ''g_slice_alloc0'',
      ''g_memdup'', ''_Znwj'', ''_ZN3WTF16fastZeroedMallocEj'', ''_ZN3WTF10fastStrDupEPKc'',
      ''_ZN3WTF10fastCallocEjj'', ''_ZN3WTF10fastMallocEj'', ''_ZN3WTF11fastReallocEPvj'',
      ''_Z7qMallocj'', ''_Z8qReallocPvj'', ''_hb_alloc'']"

definition initialize_skip_funcs :: "string list option \<Rightarrow> string list" where
  "initialize_skip_funcs options = default_skip_funcs @ (case options of None \<Rightarrow> [] | Some fs \<Rightarrow> fs)"

definition choose_profile_type :: "string option \<Rightarrow> string \<Rightarrow> profile_type option" where
  "choose_profile_type option base =
     (let t = (case option of Some t \<Rightarrow> t | None \<Rightarrow> if base = ''speedprof'' then ''cycles'' else ''memory'')
      in if t = ''memory'' then Some MP_PROFILE_MEMORY
         else if t = ''cycles'' then Some MP_PROFILE_CYCLES
         else if t = ''time'' then Some MP_PROFILE_TIME
         else None)"

text \<open>
  \<open>strtod\<close> of the C library is an argument (it depends on the locale): the number at the start of
  a text, \<open>None\<close> if it is not a number (the text \<open>nan\<close>), and what follows it; an infinite one counts
  as a number above every rate. The arithmetic on a \<open>double\<close> is that of rational numbers here.
  What is not a number passes both comparisons, and its conversion to an \<open>int\<close> is undefined; the
  inner \<open>None\<close> is a rate that is refused.
\<close>

definition parse_rate :: "(string \<Rightarrow> rat option \<times> string) \<Rightarrow> string \<Rightarrow> int option option" where
  "parse_rate strtod t =
     (let suffix = t \<noteq> [] \<and> last t \<in> {CHR ''k'', CHR ''K''};
          multiplier = (if suffix then 1000 else 1);
          (rate, rest) = strtod (if suffix then butlast t else t)
      in if t = [] \<or> rest \<noteq> [] then Some None
         else (case rate of None \<Rightarrow> None
           | Some rate \<Rightarrow>
               if rate * multiplier \<le> 1 \<or> rate * multiplier > 1000000 then Some None
               else Some (Some (floor (1 / 2 + 1000000 / (rate * multiplier))))))"

definition profile_interval :: "(string \<Rightarrow> rat option \<times> string) \<Rightarrow> string option \<Rightarrow> int option option" where
  "profile_interval strtod rate = (case rate of None \<Rightarrow> Some (Some 1000) | Some t \<Rightarrow> parse_rate strtod t)"

section \<open>Children that have ended\<close>

datatype wait_result = Reaped | None_Ended | No_Children | Wait_Failed

text \<open>The loop of the handler over the results of \<open>waitpid\<close>: how many children it has reaped; an error is fatal.\<close>

fun sigchld_handler :: "wait_result list \<Rightarrow> nat option" where
  "sigchld_handler [] = Some 0"
| "sigchld_handler (r # rs) = (case r of
     Reaped \<Rightarrow> map_option Suc (sigchld_handler rs)
   | Wait_Failed \<Rightarrow> None
   | None_Ended \<Rightarrow> Some 0
   | No_Children \<Rightarrow> Some 0)"

section \<open>Starting\<close>

record options =
  op_profile :: "string option"
  op_rate :: "string option"
  op_skip_funcs :: "string list option"
  op_follow_fork :: bool
  op_follow_exec :: bool
  op_args :: "string list"

datatype start_error = Bad_Profile_Type | Bad_Rate | No_Glade_File

definition skip_dashes :: "string list \<Rightarrow> string list" where
  "skip_dashes args = (case args of [] \<Rightarrow> [] | a # rest \<Rightarrow> if a = ''--'' then rest else args)"

text \<open>
  \<open>main\<close> up to the main loop, for a server that has its socket (the world \<open>w\<close>); \<open>base\<close> is the name
  of the executable. The window is shown before the program is run. After a lone \<open>--\<close> the argument
  vector is empty, and \<open>run_file\<close> refuses it.
\<close>

definition memprof_main ::
    "env \<Rightarrow> (string \<Rightarrow> rat option \<times> string) \<Rightarrow> bool \<Rightarrow> (string \<Rightarrow> string option) \<Rightarrow> (pid \<times> string list) option \<Rightarrow>
     string \<Rightarrow> options \<Rightarrow> world \<Rightarrow> (start_error + gui \<times> string list) option" where
  "memprof_main env strtod glade_exists find_exec instrumented base opts w =
     (case choose_profile_type (op_profile opts) base of None \<Rightarrow> Some (Inl Bad_Profile_Type)
      | Some ty \<Rightarrow> (case profile_interval strtod (op_rate opts) of None \<Rightarrow> None
      | Some None \<Rightarrow> Some (Inl Bad_Rate)
      | Some (Some interval) \<Rightarrow>
          if \<not> glade_exists then Some (Inl No_Glade_File)
          else do {
            let w = mp_server_set_interval (of_int interval) (mp_server_set_profile_type ty w);
            let (g, r) = new_window \<lparr>g_world = w, g_windows = Map.empty, g_list = [], g_next = 0, g_rows = [],
              g_tree_visible = False, g_quit = False, g_default_follow_fork = op_follow_fork opts,
              g_default_follow_exec = op_follow_exec opts\<rparr>;
            g \<leftarrow> process_window_show r g;
            (g, _) \<leftarrow> (if op_args opts = [] then Some (g, False)
              else run_file env find_exec instrumented r (skip_dashes (op_args opts)) g);
            Some (Inr (g, initialize_skip_funcs (op_skip_funcs opts)))
          }))"

end
