(* ===== verification/Options_Inv.thy ===== *)
theory Options_Inv
  imports Options Speedintercept_Inv World_Inv
begin

text \<open>The sampling rate of the command line, from its text to the interval the library takes.\<close>

section \<open>The rate\<close>



section \<open>The way of the interval\<close>

text \<open>\<open>getenv\<close> over the strings of an environment.\<close>

fun env_value :: "string \<Rightarrow> string list \<Rightarrow> string option" where
  "env_value name [] = None"
| "env_value name (e # es) =
     (if take (length name + 1) e = name @ ''='' then Some (drop (length name + 1) e) else env_value name es)"

lemma env_value_found: "env_value name ((name @ ''='' @ v) # es) = Some v"
  by simp


section \<open>Properties\<close>






end
