(* ===== verification/Server_End.thy ===== *)
theory Server_End
  imports Server
begin

text \<open>
  The end of the profiler (src/server.c): the sockets it leaves in the file system, their removal at
  exit, and the signals that end it.
\<close>

text \<open>
  \<open>cs_files\<close>: the socket files of this program that exist; \<open>cs_atexit\<close>: whether \<open>cleanup_socket\<close> is
  run at exit; \<open>cs_pipe\<close>: what is in \<open>terminate_pipe\<close>; \<open>cs_exit\<close>: the status of a program that has ended.
\<close>

record cleanup_state =
  cs_paths :: "string list"
  cs_files :: "string set"
  cs_atexit :: bool
  cs_added :: bool
  cs_terminated :: bool
  cs_pipe :: "int list"
  cs_exit :: "int option"

definition cleanup_start :: cleanup_state where
  "cleanup_start = \<lparr>cs_paths = [], cs_files = {}, cs_atexit = False, cs_added = False, cs_terminated = False,
     cs_pipe = [], cs_exit = None\<rparr>"

definition cleanup_socket :: "cleanup_state \<Rightarrow> cleanup_state" where
  "cleanup_socket s = s\<lparr>cs_files := cs_files s - set (cs_paths s)\<rparr>"

definition exit_program :: "int \<Rightarrow> cleanup_state \<Rightarrow> cleanup_state" where
  "exit_program status s = (if cs_atexit s then cleanup_socket s else s)\<lparr>cs_exit := Some status\<rparr>"

text \<open>\<open>pipe_ok\<close>: \<open>pipe\<close> succeeds; if not, \<open>fatal\<close> ends the program.\<close>

definition ensure_cleanup :: "bool \<Rightarrow> cleanup_state \<Rightarrow> cleanup_state" where
  "ensure_cleanup pipe_ok s =
     (if cs_added s then s
      else let s = s\<lparr>cs_atexit := True\<rparr>
        in if pipe_ok then s\<lparr>cs_added := True\<rparr> else exit_program 1 s)"

text \<open>The end of \<open>create_control_socket\<close>, when the socket has been bound to its path.\<close>

definition socket_bound :: "bool \<Rightarrow> bool \<Rightarrow> string \<Rightarrow> cleanup_state \<Rightarrow> cleanup_state" where
  "socket_bound pipe_ok listen_ok path s =
     (let s = ensure_cleanup pipe_ok (s\<lparr>cs_files := insert path (cs_files s)\<rparr>)
      in if cs_exit s \<noteq> None then s
         else let s = s\<lparr>cs_paths := path # cs_paths s\<rparr>
           in if listen_ok then s else exit_program 1 s)"

text \<open>What \<open>mp_server_finalize\<close> does to the list of sockets: the file stays.\<close>

definition forget_socket :: "string \<Rightarrow> cleanup_state \<Rightarrow> cleanup_state" where
  "forget_socket path s = s\<lparr>cs_paths := remove1 path (cs_paths s)\<rparr>"

definition term_handler :: "int \<Rightarrow> cleanup_state \<Rightarrow> cleanup_state" where
  "term_handler signum s =
     (if cs_terminated s then exit_program 1 s
      else s\<lparr>cs_terminated := True, cs_pipe := cs_pipe s @ [signum]\<rparr>)"

text \<open>The main loop calls it when the pipe has something to read; the result has the signal it reports.\<close>

definition terminate_io_handler :: "cleanup_state \<Rightarrow> (cleanup_state \<times> int) option" where
  "terminate_io_handler s = (case cs_pipe s of [] \<Rightarrow> None
     | c # cs \<Rightarrow> Some (exit_program 1 (s\<lparr>cs_pipe := cs\<rparr>), c))"

section \<open>A signal ends the profiler and no socket is left\<close>

inductive end_step :: "cleanup_state \<Rightarrow> cleanup_state \<Rightarrow> bool" where
  Bound_Socket: "cs_exit s = None \<Longrightarrow> path \<notin> cs_files s \<Longrightarrow> end_step s (socket_bound pipe_ok listen_ok path s)"
| Forgotten: "cs_exit s = None \<Longrightarrow> end_step s (forget_socket path s)"
| Signalled: "cs_exit s = None \<Longrightarrow> cs_added s \<Longrightarrow> end_step s (term_handler signum s)"
| Told: "cs_exit s = None \<Longrightarrow> terminate_io_handler s = Some (s', c) \<Longrightarrow> end_step s s'"
| Quit: "cs_exit s = None \<Longrightarrow> end_step s (exit_program 0 s)"

definition end_ok :: "cleanup_state \<Rightarrow> bool" where
  "end_ok s \<longleftrightarrow> (cs_paths s \<noteq> [] \<or> cs_added s \<longrightarrow> cs_atexit s) \<and> (cs_exit s \<noteq> None \<longrightarrow> set (cs_paths s) \<inter> cs_files s = {}) \<and>
     (cs_exit s = None \<longrightarrow> cs_terminated s \<longrightarrow> cs_pipe s \<noteq> [])"

lemma exit_program_ok: "(cs_paths s \<noteq> [] \<or> cs_added s \<longrightarrow> cs_atexit s) \<Longrightarrow> end_ok (exit_program status s) \<and> cs_exit (exit_program status s) = Some status"
  by (auto simp: end_ok_def exit_program_def cleanup_socket_def)

lemma socket_bound_ok: "end_ok s \<Longrightarrow> cs_exit s = None \<Longrightarrow> path \<notin> cs_files s \<Longrightarrow> end_ok (socket_bound pipe_ok listen_ok path s)"
  by (auto simp: socket_bound_def ensure_cleanup_def end_ok_def exit_program_def cleanup_socket_def Let_def)

lemma end_step_ok: "end_step s s' \<Longrightarrow> end_ok s \<Longrightarrow> end_ok s'"
proof (induction rule: end_step.induct)
  case (Bound_Socket s path pipe_ok listen_ok)
  then show ?case by (intro socket_bound_ok)
next
  case (Forgotten s path)
  then show ?case by (auto simp: end_ok_def forget_socket_def)
next
  case (Signalled s signum)
  show ?case
  proof (cases "cs_terminated s")
    case True
    have "cs_paths s \<noteq> [] \<or> cs_added s \<longrightarrow> cs_atexit s" using Signalled.prems by (simp add: end_ok_def)
    with True show ?thesis using exit_program_ok by (simp add: term_handler_def)
  next
    case False
    with Signalled show ?thesis by (simp add: end_ok_def term_handler_def)
  qed
next
  case (Told s s' c)
  have "cs_paths s \<noteq> [] \<or> cs_added s \<longrightarrow> cs_atexit s" using Told.prems by (simp add: end_ok_def)
  moreover from Told.hyps(2) obtain cs where "s' = exit_program 1 (s\<lparr>cs_pipe := cs\<rparr>)"
    by (auto simp: terminate_io_handler_def split: list.splits)
  ultimately show ?case using exit_program_ok [of "s\<lparr>cs_pipe := cs\<rparr>"] by simp
next
  case (Quit s)
  have "cs_paths s \<noteq> [] \<or> cs_added s \<longrightarrow> cs_atexit s" using Quit.prems by (simp add: end_ok_def)
  with exit_program_ok show ?case by blast
qed

lemma end_start: "end_ok cleanup_start"
  by (simp add: end_ok_def cleanup_start_def)

lemma end_steps_ok: "end_step\<^sup>*\<^sup>* cleanup_start s \<Longrightarrow> end_ok s"
  by (induction rule: rtranclp_induct) (auto intro: end_step_ok end_start)

text \<open>
  After the first signal the main loop finds the pipe readable and ends the program; a second signal
  ends it at once. However it ends, no socket on the list is left in the file system.
\<close>

lemma signal_ends_program:
  assumes "end_step\<^sup>*\<^sup>* cleanup_start s"
  shows "cs_exit s \<noteq> None \<Longrightarrow> set (cs_paths s) \<inter> cs_files s = {}"
    and "cs_exit s = None \<Longrightarrow> cs_terminated s \<Longrightarrow> cs_exit (term_handler n s) = Some 1 \<and>
      (\<exists>s' c. terminate_io_handler s = Some (s', c) \<and> cs_exit s' = Some 1)"
proof -
  have ok: "end_ok s" using end_steps_ok [OF assms] .
  then show "cs_exit s \<noteq> None \<Longrightarrow> set (cs_paths s) \<inter> cs_files s = {}" by (simp add: end_ok_def)
  show "cs_exit (term_handler n s) = Some 1 \<and> (\<exists>s' c. terminate_io_handler s = Some (s', c) \<and> cs_exit s' = Some 1)"
    if "cs_exit s = None" "cs_terminated s"
    using ok that by (cases "cs_pipe s") (simp_all add: end_ok_def term_handler_def terminate_io_handler_def exit_program_def)
qed

end
