(* ===== verification/Perfctr.thy ===== *)
theory Perfctr
  imports Speedintercept_Inv Complex_Main
begin

text \<open>
  The cycle counters as a source of samples (lib/mi-perfctr.c, lib/perfctr.h). What the kernel answers
  is in \<open>perfctr_env\<close>: a failure with its error number, or success.
\<close>

unbundle bit_operations_syntax

record perfctr_info =
  cpu_features :: "8 word"
  cpu_type :: "8 word"
  cpu_khz :: "64 word"

text \<open>The fields of \<open>struct vperfctr_control\<close> that are not zero.\<close>

record vperfctr_control =
  si_signo :: prof_signal
  nractrs :: u32
  nrictrs :: u32
  tsc_on :: u32
  pmc_map :: u32
  evntsel :: u32
  ireset :: int

record perfctr_env =
  pe_open :: "u32 + nat"
  pe_info :: "u32 + perfctr_info"
  pe_control :: "vperfctr_control \<Rightarrow> u32 option"
  pe_sigaction :: "u32 option"
  pe_resume :: "u32 option"

definition PERFCTR_FEATURE_PCINT :: "8 word" where "PERFCTR_FEATURE_PCINT = 4"
definition PERFCTR_X86_INTEL_PII :: "8 word" where "PERFCTR_X86_INTEL_PII = 4"
definition PERFCTR_X86_INTEL_PIII :: "8 word" where "PERFCTR_X86_INTEL_PIII = 5"

definition perfctr_init_sighandler :: "speed_env \<Rightarrow> perfctr_env \<Rightarrow> speed_state \<Rightarrow> (bool \<times> speed_state) option" where
  "perfctr_init_sighandler env penv s = (case pe_sigaction penv of
       None \<Rightarrow> Some (True, s\<lparr>sp_handler := Some SIGPROF\<rparr>)
     | Some e \<Rightarrow> map_option (Pair False) (speed_perror env e (''Error setting up signal handler'' @ [CHR 0x0A]) s))"

text \<open>
  The counter counts up to zero from a negative number of cycles. Its arithmetic on a \<open>double\<close> is that of
  rational numbers here; a number of cycles that does not fit an \<open>int\<close> is undefined.
\<close>

definition counter_start :: "64 word \<Rightarrow> int \<Rightarrow> int option" where
  "counter_start khz interval =
     (let cycles = floor (1 / 2 + of_int (uint khz) / 1000 * (of_int interval :: rat))
      in if cycles < 2 ^ 31 then Some (- cycles) else None)"

definition counter_control :: "int \<Rightarrow> vperfctr_control" where
  "counter_control n = \<lparr>si_signo = SIGPROF, nractrs = 0, nrictrs = 1, tsc_on = 1, pmc_map = 0,
     evntsel = 0x79 OR push_bit 16 1 OR push_bit 22 1 OR push_bit 20 1, ireset = n\<rparr>"

text \<open>
  \<open>mi_perfctr_start\<close> for an interval that is not negative: the result is whether it has started and
  \<open>perfctr_fd\<close>. After \<open>bail\<close> the descriptor is closed but keeps its number.
\<close>

definition mi_perfctr_start ::
    "speed_env \<Rightarrow> perfctr_env \<Rightarrow> int \<Rightarrow> speed_state \<Rightarrow> (bool \<times> nat option \<times> speed_state) option" where
  "mi_perfctr_start env penv interval s = (case pe_open penv of
       Inl e \<Rightarrow> map_option (\<lambda>s. (False, None, s)) (speed_perror env e ''Error opening /proc/self/perfctr'' s)
     | Inr fd \<Rightarrow>
         (let bail = map_option (\<lambda>s. (False, Some fd, s))
          in (case pe_info penv of
                Inl e \<Rightarrow> bail (speed_perror env e ''Error getting perfctr information'' s)
              | Inr info \<Rightarrow>
                  if cpu_features info AND PERFCTR_FEATURE_PCINT = 0
                  then bail (speed_debug env (''Performance monitoring interrupts not found'' @ [CHR 0x0A]) [] s)
                  else if cpu_type info \<noteq> PERFCTR_X86_INTEL_PII \<and> cpu_type info \<noteq> PERFCTR_X86_INTEL_PIII
                  then bail (speed_debug env (''Only support PII and PIII performance monitoring counters, found %d'' @ [CHR 0x0A])
                    [Int_Arg (ucast (cpu_type info))] s)
                  else do {
                    n \<leftarrow> counter_start (cpu_khz info) interval;
                    (case pe_control penv (counter_control n) of
                       Some e \<Rightarrow> bail (speed_perror env e ''Error setting up performance monitoring counters'' s)
                     | None \<Rightarrow> map_option (\<lambda>(ok, s). (ok, Some fd, s)) (perfctr_init_sighandler env penv s))
                  })))"

definition mi_perfctr_stop :: "speed_state \<Rightarrow> speed_state" where
  "mi_perfctr_stop s = s"

text \<open>The handler takes a sample and lets the counter run again.\<close>

definition perfctr_sigprof_handler ::
    "lib_env \<Rightarrow> speed_env \<Rightarrow> perfctr_env \<Rightarrow> nat \<Rightarrow> (ptr \<Rightarrow> (ptr \<times> ptr) option) \<Rightarrow> ptr \<Rightarrow> ptr \<Rightarrow> ptr \<Rightarrow> speed_state \<Rightarrow> speed_state lib" where
  "perfctr_sigprof_handler env senv penv t mem eip ebp esp sp =
     (case mi_call_with_signal_backtrace mem eip ebp esp of
        None \<Rightarrow> (\<lambda>s. None)
      | Some (n, frames) \<Rightarrow>
          lbind (mi_write_stack env t n frames time_message) (\<lambda>_.
          (case pe_resume penv of None \<Rightarrow> lret sp
           | Some e \<Rightarrow> (case speed_perror senv e ''Error restarting handler interrupt'' sp of
               None \<Rightarrow> (\<lambda>s. None) | Some sp \<Rightarrow> lret sp))))"

section \<open>Starting\<close>

lemma speed_debug_number: "\<exists>d. speed_debug env (''Only support PII and PIII performance monitoring counters, found %d'' @ [CHR 0x0A])
    [Int_Arg n] s = Some (s\<lparr>sp_debug := d\<rparr>)"
proof -
  have "\<exists>d. mi_vprintf pid (''Only support PII and PIII performance monitoring counters, found %d'' @ [CHR 0x0A]) [Int_Arg n] fd = Some d"
    for pid fd
  proof -
    obtain fd1 where d: "directive pid False CHR ''d'' [Int_Arg n]
        (put_text ''Only support PII and PIII performance monitoring counters, found '' fd) = Some ([], fd1)"
      using directive_d by blast
    from vprintf_step [OF _ _ d, where cs = "[CHR 0x0A]"] vprintf_text [of "[CHR 0x0A]" pid "[]" fd1] show ?thesis by simp
  qed
  then obtain d where "mi_debug (se_pid env) (se_tty env)
      (''Only support PII and PIII performance monitoring counters, found %d'' @ [CHR 0x0A]) [Int_Arg n] (sp_debug s) = Some d"
    unfolding mi_debug_prefix by blast
  then show ?thesis by (auto simp: speed_debug_def)
qed

text \<open>
  When the cycles of an interval fit an \<open>int\<close> starting the counters returns. It has succeeded exactly if everything the kernel was asked for
  succeeded on a processor with the interrupt; then the signal handler is there. The counter starts
  at the nearest number of cycles to the interval.
\<close>

lemma perfctr_start_outcome:
  assumes "\<And>info. pe_info penv = Inr info \<Longrightarrow> counter_start (cpu_khz info) interval \<noteq> None"
  shows "\<exists>ok fd s'. mi_perfctr_start env penv interval s = Some (ok, fd, s') \<and>
    (ok \<longrightarrow> sp_handler s' = Some SIGPROF \<and> (\<exists>i n. pe_info penv = Inr i \<and> cpu_type i \<in> {PERFCTR_X86_INTEL_PII, PERFCTR_X86_INTEL_PIII} \<and>
       counter_start (cpu_khz i) interval = Some n \<and> pe_control penv (counter_control n) = None))"
proof (cases "pe_open penv")
  case (Inl e)
  then show ?thesis using speed_perror_total [of env e "''Error opening /proc/self/perfctr''" s]
    by (auto simp: mi_perfctr_start_def)
next
  case (Inr fd)
  note open_ok = this
  show ?thesis
  proof (cases "pe_info penv")
    case (Inl e)
    then show ?thesis using open_ok speed_perror_total [of env e "''Error getting perfctr information''" s]
      by (auto simp: mi_perfctr_start_def)
  next
    case (Inr i)
    with assms obtain n where n: "counter_start (cpu_khz i) interval = Some n" by blast
    consider (no_interrupt) "cpu_features i AND PERFCTR_FEATURE_PCINT = 0"
      | (no_cpu) "cpu_features i AND PERFCTR_FEATURE_PCINT \<noteq> 0" "cpu_type i \<notin> {PERFCTR_X86_INTEL_PII, PERFCTR_X86_INTEL_PIII}"
      | (good) "cpu_features i AND PERFCTR_FEATURE_PCINT \<noteq> 0" "cpu_type i \<in> {PERFCTR_X86_INTEL_PII, PERFCTR_X86_INTEL_PIII}"
      by blast
    then show ?thesis
    proof cases
      case no_interrupt
      then show ?thesis using open_ok Inr speed_debug_text [of "''Performance monitoring interrupts not found'' @ [CHR 0x0A]" env s]
        by (auto simp: mi_perfctr_start_def)
    next
      case no_cpu
      then show ?thesis using open_ok Inr speed_debug_number [of env "ucast (cpu_type i)" s] by (auto simp: mi_perfctr_start_def)
    next
      case good
      show ?thesis
      proof (cases "pe_control penv (counter_control n)")
        case (Some e)
        then show ?thesis using open_ok Inr good n speed_perror_total [of env e "''Error setting up performance monitoring counters''" s]
          by (auto simp: mi_perfctr_start_def)
      next
        case None
        show ?thesis
        proof (cases "pe_sigaction penv")
          case (Some e)
          obtain d where "speed_perror env e (''Error setting up signal handler'' @ [CHR 0x0A]) s = Some (s\<lparr>sp_debug := d\<rparr>)"
            using speed_perror_total by blast
          with open_ok Inr good n None Some show ?thesis
            by (auto simp: mi_perfctr_start_def perfctr_init_sighandler_def simp del: append.simps)
        next
          case none: None
          with open_ok Inr good n None show ?thesis by (auto simp: mi_perfctr_start_def perfctr_init_sighandler_def)
        qed
      qed
    qed
  qed
qed

text \<open>An interval of up to a second fits on every processor of up to two gigahertz.\<close>

lemma counter_start_fits:
  assumes "uint khz \<le> 2000000" and "0 \<le> interval" and "interval \<le> 1000000"
  shows "\<exists>n. counter_start khz interval = Some n \<and> \<bar>of_int (- n) - of_int (uint khz) / 1000 * (of_int interval :: rat)\<bar> \<le> 1 / 2"
proof -
  define x :: rat where "x = of_int (uint khz) / 1000 * of_int interval"
  have "uint khz * interval \<le> 2000000 * 1000000" using assms by (intro mult_mono) simp_all
  then have "(of_int (uint khz * interval) :: rat) \<le> of_int (2000000 * 1000000)" by (simp only: of_int_le_iff)
  then have x: "x \<le> 2000000000" unfolding x_def by simp
  have f: "of_int (floor (1 / 2 + x)) \<le> 1 / 2 + x" "1 / 2 + x < of_int (floor (1 / 2 + x)) + 1"
    by (rule of_int_floor_le, linarith)
  have "(of_int (floor (1 / 2 + x)) :: rat) < of_int (2 ^ 31)" using f(1) x by simp
  then have "floor (1 / 2 + x) < 2 ^ 31" by (simp only: of_int_less_iff)
  then have "counter_start khz interval = Some (- floor (1 / 2 + x))" by (simp add: counter_start_def x_def Let_def)
  moreover have "\<bar>of_int (floor (1 / 2 + x)) - x\<bar> \<le> 1 / 2" unfolding abs_le_iff using f by linarith
  ultimately show ?thesis unfolding x_def by (intro exI [of _ "- floor (1 / 2 + of_int (uint khz) / 1000 * (of_int interval :: rat))"]) simp
qed

end
