(* ===== verification/Spec2Isabelle.thy ===== *)
theory Spec2Isabelle
  imports Stackstash_Inv Process_Command World_Inv Leakdetect_Inv Profile_Output_Inv Agreement Library_Safety Speedintercept_Inv
    Windows_Inv Leak_View_Inv Memory_Map_Inv Options_Inv Server_End Perfctr
begin

text \<open>
  MemProf, a memory profiler and leak detector: a verification library.

  \<^bold>\<open>The program.\<close> MemProf runs a program with a library preloaded (lib/), which intercepts
  the allocation functions and the process calls of the C library and sends a message with a
  stack trace for every allocation, reallocation and release to the profiler (src/). The profiler
  keeps one process object per traced process. Its server (src/server.c) accepts the sockets the
  traced processes open, its process code (src/process.c) reads their messages, puts the
  numbered ones in order and applies them to a table of live blocks, whose stacks are shared in a
  stash (src/stackstash.c). From the table it computes a profile (src/profile.c) and, by
  stopping the process and scanning its memory, the leaks (src/leakdetect.c). Addresses become
  symbols through /proc/PID/maps and the symbol tables of the mapped files (src/process.c,
  src/inode.c). The user interface (src/main.c, src/tree.c, src/detailwin.c) has a window for each
  process, with meters, a profile and a list of leaks, and a tree of all processes.

  \<^bold>\<open>The model.\<close> LP64 Linux: pointers are 64 bit words, a \<open>guint\<close> is a 32 bit word and wraps.
  Objects the code reaches through pointers live in heaps (maps from references to records), so
  sharing and freeing are visible. A run that follows an invalid pointer, fails an assertion,
  divides by zero or does not return is \<open>None\<close>; every correctness statement says that the
  result is \<open>Some\<close>. Loops over linked structures are partial functions; no definition uses fuel.
  Functions of the operating system, of GLib where it leaves an order open, and of the BFD glue
  (bfdutils.c, which the repository does not hold) are arguments: the record \<open>env\<close> of
  Process_Data, \<open>peek\<close> for reads of a stopped process, \<open>enum\<close> for the order in which a
  hash table is visited, \<open>sorter\<close> for \<open>g_ptr_array_sort\<close>. What a theorem assumes about
  them is a named hypothesis (\<open>enumerates\<close>, \<open>bfd_ok\<close>, \<open>sorts\<close> and the like) that its
  witness instantiates.

  \<^bold>\<open>Theories and code.\<close>
  \<^item> Prelude: pointer types, chains of a linked list in a heap, orders of traversal.
  \<^item> Trace_Tree: the contract of a recorder of call stacks (locale \<open>trace_recorder\<close>), used by
    the stack stash and by the call tree of a profile; sums over the prefixes of stacks.
  \<^item> Path_Tree: trees whose nodes are named by their paths and the contract of freeing them
    (locale \<open>tree_freeing\<close>), used by the call tree and by the descendant tree.
  \<^item> Stackstash, Stackstash_Inv: src/stackstash.c; cell allocation, insertion, decoration,
    traversal, reference counts; well-formedness and what recorded traces leave behind.
  \<^item> Protocol, Process_Data: the messages (lib/memintercept.h) and the data of the profiler
    (src/memprof.h, src/process.h).
  \<^item> Inode, Binary_Search, Proc_Maps, Numerals, Symbols: src/inode.c and the part of
    src/process.c that reads maps and finds symbols; the search loop it shares with the leak
    detector; \<open>sscanf\<close> over the text of /proc, printed numbers and reading them back.
  \<^item> Sequencer, Process_Command: the command queue of src/process.c; the locale \<open>sequencer\<close>
    proves once that numbered commands take effect in order whatever order they arrive in, and
    \<open>process_command\<close> is shown to refine a map of live blocks.
  \<^item> World, Server, World_Inv: all process objects, sockets and shared heaps: creation,
    duplication at fork, exec, exit, clones, \<open>input_func\<close>, and \<open>control_func\<close> of
    src/server.c; the invariant (reference counts, disjoint tables) of every reachable world.
  \<^item> Leakdetect, Leakdetect_Marking, Leakdetect_Inv: src/leakdetect.c; roots, binary search,
    marking, collection; the blocks reported are those no chain of words reaches.
  \<^item> Profile, Profile_Inv, Profile_Callers, Profile_Descendants, Profile_Descendants_Inv,
    Profile_Output, Profile_Output_Inv: src/profile.c; the call tree, functions, callers, descendants, freeing, and
    the text of a saved profile.
  \<^item> Mi_Utils, Mi_Utils_Inv: lib/memintercept-utils.c; writing all of a buffer to a descriptor
    that takes parts of it, is interrupted or fails, the small \<open>printf\<close>, the counters.
  \<^item> Wire, Wire_Inv: the bytes of the messages of lib/memintercept.h.
  \<^item> Stack_Frame, Stack_Frame_Inv: lib/stack-frame.c; the back trace with a growing buffer and
    the walk along frame pointers in a signal handler.
  \<^item> Intercept, Library_Safety: lib/intercept.c; one process with its threads, its connections
    and what the operating system answers. A run of the library returns, ends the process or is
    undefined. The handshake, failing connections, the end, the environment passed on.
  \<^item> Memintercept, Library_Inv: lib/memintercept.c; the allocation functions, and the messages
    a sequence of calls sends.
  \<^item> Agreement: library and profiler together: the profiler's live blocks are the program's.
  \<^item> Speedintercept, Speedintercept_Inv: lib/speedintercept.c; the sampling library, its timers
    and its signal handler.
  \<^item> Perfctr: lib/mi-perfctr.c; the cycle counters as a source of samples.
  \<^item> Server_End: the end of src/server.c's program: signals, and the sockets removed at exit.
  \<^item> Status_Page, Status_Page_Inv: the windows of src/gui.h, their meters and history
    (src/main.c, \<open>dw_update\<close> of src/detailwin.c) and the rows of the lists of a profile.
  \<^item> Leak_View, Leak_View_Inv: the page of the leaks in src/main.c, the command for a line of a
    stack, saving reports.
  \<^item> Windows, Windows_Inv: the windows and their buttons in src/main.c and the tree of processes,
    src/tree.c; the relation \<open>gui_step\<close> of all events and the invariant \<open>gui_ok\<close>.
  \<^item> Memory_Map, Memory_Map_Inv: src/detailwin.c; the picture of the memory as rectangles.
  \<^item> Options, Options_Inv: \<open>main\<close> of src/main.c; the command line, and the way of the sampling
    rate from there through the environment of the program to the library.

  \<^bold>\<open>What the lemmas show.\<close> Each component has its invariant and that its operations keep it
  (\<open>wf_stash\<close>, \<open>world_ok\<close>, \<open>profile_inv\<close>, \<open>descendant_inv\<close>, \<open>gui_ok\<close>), that operations
  return under it, and what they compute. Property statements are numbered C1, C2 and so on;
  their text precedes them. Several show that the code does something it does not mean to do;
  these are stated as the code behaves.

  \<^bold>\<open>Not modelled.\<close>
  Building the windows of the user interface (the glade file, the set-up functions of src/main.c,
  src/treeviewutils.c, dialogs) and painting are calls of GTK; of the user interface the state and
  what is handed to GTK are modelled. The registration of GObject types and signals, translations
  and build files are left out. The socket directory (USE_SOCKET_DIRECTORY) is not compiled by
  default. Arithmetic on a \<open>double\<close> is that of rational numbers. Memory exhaustion inside the
  profiler is not modelled (GLib aborts the program).
\<close>

end
